(* ===== verification/Prelude.thy ===== *)
theory Prelude
  imports "HOL-Library.Word"
begin

text \<open>
  Shared vocabulary of the development: the outcomes a C++ call can have other than a
  value, byte strings and little-endian integers, reads and writes in a buffer of known
  length, the pieces of the C and C++ standard libraries the sources call (\<open>snprintf\<close>,
  \<open>memcpy\<close>, \<open>std::to_string\<close>, \<open>std::string\<close> from a pointer and a length), and the
  contracts that several components share: a fixed-width wire codec and a state machine
  with an invariant.
\<close>

named_theorems res_simps \<open>rewriting outcomes\<close>
named_theorems wire_simps \<open>lengths and reads of encoded fields\<close>

section \<open>Outcomes\<close>

text \<open>
  \<open>Abort\<close> is a failed \<open>assert\<close> (the build files define \<open>NDEBUG\<close> nowhere), \<open>Undefined\<close>
  an access outside an object or another breach of a language rule, \<open>Out_Of_Range\<close> and
  \<open>Length_Error\<close> the standard exceptions (no code of the repository catches them), and
  \<open>Stack_Overflow\<close> a recursion deeper than the stack.
\<close>

datatype cxx_error = Abort | Undefined | Out_Of_Range | Length_Error | Stack_Overflow

type_synonym byte = "8 word"
type_synonym 'a res = "cxx_error + 'a"

definition bindE :: "'a res \<Rightarrow> ('a \<Rightarrow> 'b res) \<Rightarrow> 'b res" where
  "bindE r k = (case r of Inl e \<Rightarrow> Inl e | Inr x \<Rightarrow> k x)"

lemma bindE_simps [simp]:
  "bindE (Inl e) k = Inl e"
  "bindE (Inr x) k = k x"
  by (simp_all add: bindE_def)

lemma bindE_eq_Inr [res_simps]: "bindE r k = Inr y \<longleftrightarrow> (\<exists>x. r = Inr x \<and> k x = Inr y)"
  by (cases r) auto

lemma bindE_eq_Inl [res_simps]:
  "bindE r k = Inl e \<longleftrightarrow> r = Inl e \<or> (\<exists>x. r = Inr x \<and> k x = Inl e)"
  by (cases r) auto

lemma bindE_assoc: "bindE (bindE r k) l = bindE r (\<lambda>x. bindE (k x) l)"
  by (cases r) auto

lemma bindE_cong [fundef_cong]:
  "r = r' \<Longrightarrow> (\<And>x. r' = Inr x \<Longrightarrow> k x = k' x) \<Longrightarrow> bindE r k = bindE r' k'"
  by (cases r') auto

lemma bindE_Inr_right [simp]: "bindE r Inr = r"
  by (cases r) auto

definition assertE :: "bool \<Rightarrow> unit res" where
  "assertE b = (if b then Inr () else Inl Abort)"

definition requireE :: "bool \<Rightarrow> unit res" where
  "requireE b = (if b then Inr () else Inl Undefined)"

lemma assertE_simps [simp]:
  "assertE True = Inr ()" "assertE False = Inl Abort"
  "assertE b = Inr u \<longleftrightarrow> b"
  by (simp_all add: assertE_def)

lemma requireE_simps [simp]:
  "requireE True = Inr ()" "requireE False = Inl Undefined"
  "requireE b = Inr u \<longleftrightarrow> b"
  by (simp_all add: requireE_def)

text \<open>A \<open>for\<close> loop whose body may fail.\<close>

fun foldE :: "('x \<Rightarrow> 's \<Rightarrow> 's res) \<Rightarrow> 'x list \<Rightarrow> 's \<Rightarrow> 's res" where
  "foldE f [] s = Inr s"
| "foldE f (x # xs) s = bindE (f x s) (foldE f xs)"

lemma foldE_append: "foldE f (xs @ ys) s = bindE (foldE f xs s) (foldE f ys)"
proof (induction xs arbitrary: s)
  case Nil
  then show ?case by simp
next
  case (Cons x xs)
  then show ?case by (cases "f x s") auto
qed

lemma foldE_cong [fundef_cong]:
  "xs = ys \<Longrightarrow> s = t \<Longrightarrow> (\<And>x s. x \<in> set ys \<Longrightarrow> f x s = g x s) \<Longrightarrow> foldE f xs s = foldE g ys t"
proof (induction ys arbitrary: xs s t)
  case Nil
  then show ?case by simp
next
  case (Cons y ys)
  then show ?case by (cases "g y t") auto
qed

lemma foldE_invariant:
  assumes "foldE f xs s = Inr t" and "P s"
    and "\<And>x s t. x \<in> set xs \<Longrightarrow> P s \<Longrightarrow> f x s = Inr t \<Longrightarrow> P t"
  shows "P t"
  using assms
proof (induction xs arbitrary: s)
  case Nil
  then show ?case by simp
next
  case (Cons x xs)
  then obtain u where u: "f x s = Inr u" and "foldE f xs u = Inr t"
    by (auto simp: res_simps)
  moreover have "P u" using Cons.prems(2,3) u by auto
  ultimately show ?case using Cons.IH Cons.prems(3) by (meson list.set_intros(2))
qed

lemma foldE_sim:
  assumes "foldE f xs s = Inr s'" and "R s t"
    and "\<And>x s s' t. x \<in> set xs \<Longrightarrow> R s t \<Longrightarrow> f x s = Inr s' \<Longrightarrow> \<exists>t'. g x t = Inr t' \<and> R s' t'"
  shows "\<exists>t'. foldE g xs t = Inr t' \<and> R s' t'"
  using assms
proof (induction xs arbitrary: s t)
  case Nil
  then show ?case by auto
next
  case (Cons x xs)
  then obtain u where u: "f x s = Inr u" "foldE f xs u = Inr s'" by (auto simp: res_simps)
  with Cons.prems obtain v where v: "g x t = Inr v" "R u v" by (meson list.set_intros(1))
  have "\<exists>t'. foldE g xs v = Inr t' \<and> R s' t'"
    using u(2) v(2) Cons.prems(3) by (intro Cons.IH) (auto intro: list.set_intros(2))
  with v show ?case by auto
qed

lemma foldE_mono:
  assumes "foldE f xs s = Inr t" and "\<And>x s t. x \<in> set xs \<Longrightarrow> f x s = Inr t \<Longrightarrow> g x s = Inr t"
  shows "foldE g xs s = Inr t"
  using foldE_sim [of f xs s t "(=)" s g] assms by auto

section \<open>Bytes, characters and strings\<close>

definition byte_of_char :: "char \<Rightarrow> byte" where
  "byte_of_char c = word_of_nat (of_char c)"

definition char_of_byte :: "byte \<Rightarrow> char" where
  "char_of_byte b = char_of (unat b)"

lemma unat_byte_bound [simp]: "unat (b :: byte) < 256"
  using unsigned_less [of b, where ?'a = nat] by simp

lemma char_of_byte_of_char [simp]: "char_of_byte (byte_of_char c) = c"
proof -
  have "(of_char c :: nat) < 256" by simp
  then show ?thesis
    by (simp add: char_of_byte_def byte_of_char_def unat_of_nat)
qed

lemma byte_of_char_of_byte [simp]: "byte_of_char (char_of_byte b) = b"
proof -
  have "unat b mod 256 = unat b" by simp
  then show ?thesis
    by (simp add: char_of_byte_def byte_of_char_def)
qed

abbreviation bytes_of :: "string \<Rightarrow> byte list" where
  "bytes_of s \<equiv> map byte_of_char s"

abbreviation string_of :: "byte list \<Rightarrow> string" where
  "string_of bs \<equiv> map char_of_byte bs"

lemma string_of_bytes_of [simp]: "string_of (bytes_of s) = s"
  by (induction s) auto

lemma bytes_of_string_of [simp]: "bytes_of (string_of b) = b"
  by (induction b) auto

text \<open>The value of a \<open>char\<close> as an \<open>int\<close>: \<open>char\<close> is signed on the modelled platform.\<close>

definition int_of_char :: "char \<Rightarrow> int" where
  "int_of_char c = sint (byte_of_char c)"

text \<open>\<open>c_str\<close> passed to a C function: the characters before the first NUL.\<close>

definition NUL :: char where
  "NUL = CHR 0x00"

definition c_str :: "string \<Rightarrow> string" where
  "c_str s = takeWhile (\<lambda>c. c \<noteq> NUL) s"

lemma c_str_id: "NUL \<notin> set s \<Longrightarrow> c_str s = s"
  by (auto simp: c_str_def takeWhile_eq_all_conv)

lemma length_c_str: "length (c_str s) \<le> length s"
  by (simp add: c_str_def length_takeWhile_le)

lemma length_c_str_less: "NUL \<in> set s \<Longrightarrow> length (c_str s) < length s"
  by (induction s) (auto simp: c_str_def)

section \<open>Little-endian integers\<close>

fun le_bytes :: "nat \<Rightarrow> nat \<Rightarrow> byte list" where
  "le_bytes 0 n = []"
| "le_bytes (Suc k) n = word_of_nat (n mod 256) # le_bytes k (n div 256)"

fun le_val :: "byte list \<Rightarrow> nat" where
  "le_val [] = 0"
| "le_val (b # bs) = unat b + 256 * le_val bs"

lemma length_le_bytes [simp]: "length (le_bytes k n) = k"
  by (induction k arbitrary: n) auto

lemma le_val_le_bytes: "le_val (le_bytes k n) = n mod 256 ^ k"
proof (induction k arbitrary: n)
  case 0
  then show ?case by simp
next
  case (Suc k)
  have "unat (word_of_nat (n mod 256) :: byte) = n mod 256"
    by (simp add: unat_of_nat)
  then show ?case
    by (simp add: Suc mod_mult2_eq)
qed

lemma le_val_bound: "le_val bs < 256 ^ length bs"
proof (induction bs)
  case Nil
  then show ?case by simp
next
  case (Cons b bs)
  have "unat b < 256" by simp
  moreover have "256 ^ length (b # bs) = 256 * (256 :: nat) ^ length bs" by simp
  ultimately show ?case using Cons.IH unfolding le_val.simps by linarith
qed

lemma le_bytes_le_val: "le_bytes (length bs) (le_val bs) = bs"
proof (induction bs)
  case Nil
  then show ?case by simp
next
  case (Cons b bs)
  have "unat b < 256" by simp
  with Cons show ?case by simp
qed

definition enc_le :: "nat \<Rightarrow> 'a::len word \<Rightarrow> byte list" where
  "enc_le k w = le_bytes k (unat w)"

definition dec_le :: "byte list \<Rightarrow> 'a::len word" where
  "dec_le bs = word_of_nat (le_val bs)"

lemma length_enc_le [simp]: "length (enc_le k w) = k"
  by (simp add: enc_le_def)

lemma dec_enc_le:
  fixes w :: "'a::len word"
  assumes "LENGTH('a) \<le> 8 * k"
  shows "dec_le (enc_le k w) = w"
proof -
  have "unat w < 2 ^ LENGTH('a)" by (rule unsigned_less)
  also have "(2::nat) ^ LENGTH('a) \<le> 2 ^ (8 * k)"
    using assms by (intro power_increasing) auto
  also have "(2::nat) ^ (8 * k) = 256 ^ k"
    by (simp add: power_mult)
  finally show ?thesis
    by (simp add: dec_le_def enc_le_def le_val_le_bytes)
qed


section \<open>Reading and writing buffers\<close>

text \<open>
  A pointer into a buffer is an offset. An access that leaves the buffer is \<open>Undefined\<close>,
  and so is pointer arithmetic past its ends (one past the last byte is allowed).
\<close>

definition rd :: "byte list \<Rightarrow> nat \<Rightarrow> nat \<Rightarrow> byte list res" where
  "rd mem p n = (if p + n \<le> length mem then Inr (take n (drop p mem)) else Inl Undefined)"

definition rd_le :: "nat \<Rightarrow> byte list \<Rightarrow> nat \<Rightarrow> 'a::len word res" where
  "rd_le k mem p = bindE (rd mem p k) (\<lambda>bs. Inr (dec_le bs))"

abbreviation rd_u8 :: "byte list \<Rightarrow> nat \<Rightarrow> 8 word res" where "rd_u8 \<equiv> rd_le 1"
abbreviation rd_u16 :: "byte list \<Rightarrow> nat \<Rightarrow> 16 word res" where "rd_u16 \<equiv> rd_le 2"
abbreviation rd_u32 :: "byte list \<Rightarrow> nat \<Rightarrow> 32 word res" where "rd_u32 \<equiv> rd_le 4"
abbreviation rd_u64 :: "byte list \<Rightarrow> nat \<Rightarrow> 64 word res" where "rd_u64 \<equiv> rd_le 8"

definition adv :: "byte list \<Rightarrow> nat \<Rightarrow> int \<Rightarrow> nat res" where
  "adv mem p k = (let q = int p + k in
     if 0 \<le> q \<and> q \<le> int (length mem) then Inr (nat q) else Inl Undefined)"

text \<open>
  \<open>std::string(ptr, n)\<close> and \<open>assign(ptr, n)\<close>: a negative \<open>n\<close> is converted to a
  \<open>size_t\<close> above \<open>max_size()\<close>, which throws.
\<close>

definition std_string :: "byte list \<Rightarrow> nat \<Rightarrow> int \<Rightarrow> string res" where
  "std_string mem p n =
     (if n < 0 then Inl Length_Error else bindE (rd mem p (nat n)) (\<lambda>bs. Inr (string_of bs)))"

definition memcpy_at :: "byte list \<Rightarrow> nat \<Rightarrow> byte list \<Rightarrow> byte list res" where
  "memcpy_at buf off src =
     (if off + length src \<le> length buf
      then Inr (take off buf @ src @ drop (off + length src) buf) else Inl Undefined)"

text \<open>
  \<open>snprintf(buf, n, ...)\<close> with the formatted text \<open>s\<close>: at most \<open>n - 1\<close> characters and a
  NUL are stored, nothing for \<open>n = 0\<close>; the result is the length of \<open>s\<close>, stored or not.
\<close>

definition snprintf :: "byte list \<Rightarrow> nat \<Rightarrow> string \<Rightarrow> (byte list \<times> nat) res" where
  "snprintf buf n s =
     (let out = (if n = 0 then [] else bytes_of (take (n - 1) s) @ [0]) in
      bindE (memcpy_at buf 0 out) (\<lambda>buf'. Inr (buf', length s)))"

lemma rd_mid [wire_simps]:
  "p = length xs \<Longrightarrow> n = length ys \<Longrightarrow> rd (xs @ ys @ zs) p n = Inr ys"
  by (simp add: rd_def)

lemma rd_Inr_iff: "rd mem p n = Inr bs \<longleftrightarrow> p + n \<le> length mem \<and> bs = take n (drop p mem)"
  by (auto simp: rd_def)

lemma rd_le_Inr_iff:
  "rd_le k mem p = Inr w \<longleftrightarrow> p + k \<le> length mem \<and> w = dec_le (take k (drop p mem))"
  by (auto simp: rd_le_def rd_def)

lemma rd_prefix: "rd mem p n = Inr bs \<Longrightarrow> rd (mem @ rest) p n = Inr bs"
  by (auto simp: rd_def split: if_splits)

lemma rd_le_fails [simp]: "length mem < p + k \<Longrightarrow> rd_le k mem p = Inl Undefined"
  by (simp add: rd_le_def rd_def)

lemma adv_nat [simp]: "p + k \<le> length mem \<Longrightarrow> adv mem p (int k) = Inr (p + k)"
  by (simp add: adv_def Let_def nat_add_distrib)

lemma adv_Inr_iff:
  "adv mem p k = Inr q \<longleftrightarrow> 0 \<le> int p + k \<and> int p + k \<le> int (length mem) \<and> q = nat (int p + k)"
  by (auto simp: adv_def Let_def)

definition lookup_at :: "('k \<rightharpoonup> 'v) \<Rightarrow> 'k \<Rightarrow> 'v res" where
  "lookup_at m k = (case m k of None \<Rightarrow> Inl Out_Of_Range | Some v \<Rightarrow> Inr v)"

lemma lookup_at_Inr [res_simps]: "lookup_at m k = Inr v \<longleftrightarrow> m k = Some v"
  by (auto simp: lookup_at_def split: option.splits)

lemma memcpy_at_Inr:
  "memcpy_at buf off src = Inr out \<Longrightarrow> length out = length buf"
  by (auto simp: memcpy_at_def split: if_splits)

section \<open>Text\<close>

definition digit_char :: "nat \<Rightarrow> char" where
  "digit_char n = char_of (if n < 10 then 48 + n else 87 + n)"

fun digits_in :: "nat \<Rightarrow> nat \<Rightarrow> string" where
  "digits_in b n = (if b < 2 \<or> n < b then [digit_char n] else digits_in b (n div b) @ [digit_char (n mod b)])"

declare digits_in.simps [simp del]

definition dec_nat :: "nat \<Rightarrow> string" where
  "dec_nat n = digits_in 10 n"

definition digits_val :: "string \<Rightarrow> nat" where
  "digits_val s = foldl (\<lambda>a c. 10 * a + (of_char c - 48)) 0 s"

definition is_digit :: "char \<Rightarrow> bool" where
  "is_digit c \<longleftrightarrow> 48 \<le> (of_char c :: nat) \<and> (of_char c :: nat) \<le> 57"

lemma digit_chars: "digit_char 0 = CHR ''0''" "digit_char 1 = CHR ''1''" "digit_char (Suc 0) = CHR ''1''"
    "digit_char 7 = CHR ''7''"
  by code_simp+

lemma of_char_digit_char [simp]: "n < 10 \<Longrightarrow> of_char (digit_char n) = 48 + (n :: nat)"
  by (simp add: digit_char_def)

lemma dec_nat_digits: "\<forall>c \<in> set (dec_nat n). is_digit c"
  unfolding dec_nat_def
proof (induction n rule: less_induct)
  case (less n)
  show ?case
  proof (cases "n < 10")
    case True
    then show ?thesis by (subst digits_in.simps) (simp add: is_digit_def)
  next
    case False
    with less.IH [of "n div 10"] show ?thesis
      by (subst digits_in.simps) (auto simp: is_digit_def)
  qed
qed

lemma dec_nat_nonempty [simp]: "dec_nat n \<noteq> []"
  unfolding dec_nat_def by (subst digits_in.simps) simp

lemma digits_val_dec_nat: "digits_val (dec_nat n) = n"
  unfolding dec_nat_def digits_val_def
proof (induction n rule: less_induct)
  case (less n)
  show ?case
  proof (cases "n < 10")
    case True
    then show ?thesis by (subst digits_in.simps) simp
  next
    case False
    with less.IH [of "n div 10"] show ?thesis
      by (subst digits_in.simps) simp
  qed
qed

definition dec_int :: "int \<Rightarrow> string" where
  "dec_int k = (if k < 0 then ''-'' @ dec_nat (nat (- k)) else dec_nat (nat k))"

definition pad_left :: "char \<Rightarrow> nat \<Rightarrow> string \<Rightarrow> string" where
  "pad_left c w s = replicate (w - length s) c @ s"

definition starts_with :: "string \<Rightarrow> string \<Rightarrow> bool" where
  "starts_with s t \<longleftrightarrow> take (length t) s = t"

definition ends_with :: "string \<Rightarrow> string \<Rightarrow> bool" where
  "ends_with s t \<longleftrightarrow> length t \<le> length s \<and> drop (length s - length t) s = t"

lemma starts_with_append [simp]: "starts_with (t @ s) t"
  by (simp add: starts_with_def)

lemma ends_with_append [simp]: "ends_with (s @ t) t"
  by (simp add: ends_with_def)

section \<open>Contracts\<close>

text \<open>
  A fixed-width codec: what every reader of the wire format relies on. The interpretations
  below are the little-endian images of the four unsigned widths of the sources.
\<close>

locale wire_codec =
  fixes enc :: "'w \<Rightarrow> byte list"
    and dec :: "byte list \<Rightarrow> 'w"
    and width :: nat
  assumes length_enc: "length (enc w) = width"
    and dec_enc: "dec (enc w) = w"
begin

lemma read_at:
  "p = length xs \<Longrightarrow> bindE (rd (xs @ enc w @ ys) p width) (\<lambda>bs. Inr (dec bs)) = Inr w"
  using length_enc [of w] by (simp add: rd_def dec_enc)

lemma enc_inject: "enc v = enc w \<longleftrightarrow> v = w"
  using dec_enc by metis

lemma enc_append_inject: "enc v @ xs = enc w @ ys \<longleftrightarrow> v = w \<and> xs = ys"
  using length_enc enc_inject by (metis append_eq_append_conv)

end

interpretation u8: wire_codec "enc_le 1 :: 8 word \<Rightarrow> byte list" dec_le 1
  by unfold_locales (auto simp: dec_enc_le)

interpretation u16: wire_codec "enc_le 2 :: 16 word \<Rightarrow> byte list" dec_le 2
  by unfold_locales (auto simp: dec_enc_le)

interpretation u32: wire_codec "enc_le 4 :: 32 word \<Rightarrow> byte list" dec_le 4
  by unfold_locales (auto simp: dec_enc_le)

interpretation u64: wire_codec "enc_le 8 :: 64 word \<Rightarrow> byte list" dec_le 8
  by unfold_locales (auto simp: dec_enc_le)

lemma rd_le_at [wire_simps]:
  "p = length xs \<Longrightarrow> rd_u8 (xs @ enc_le 1 a @ ys) p = Inr a"
  "p = length xs \<Longrightarrow> rd_u16 (xs @ enc_le 2 b @ ys) p = Inr b"
  "p = length xs \<Longrightarrow> rd_u32 (xs @ enc_le 4 c @ ys) p = Inr c"
  "p = length xs \<Longrightarrow> rd_u64 (xs @ enc_le 8 d @ ys) p = Inr d"
  using u8.read_at u16.read_at u32.read_at u64.read_at by (simp_all add: rd_le_def)

text \<open>
  A state machine whose steps may fail, with an invariant: what a component promises to
  whoever runs a sequence of its operations.
\<close>

locale guarded_machine =
  fixes step :: "'e \<Rightarrow> 's \<Rightarrow> 's res"
    and inv :: "'s \<Rightarrow> bool"
  assumes step_inv: "inv s \<Longrightarrow> step e s = Inr t \<Longrightarrow> inv t"
begin

lemma run_inv: "inv s \<Longrightarrow> foldE step es s = Inr t \<Longrightarrow> inv t"
  by (rule foldE_invariant [of step es s t inv]) (auto dest: step_inv)

lemma run_prefix_inv:
  assumes "inv s" and "foldE step (es @ fs) s = Inr t"
  obtains u where "foldE step es s = Inr u" and "inv u" and "foldE step fs u = Inr t"
  using assms run_inv by (auto simp: foldE_append res_simps)

end

end
