(* ===== verification/Ulog.thy ===== *)
theory Ulog
  imports Prelude
begin

text \<open>
  The ULog message layouts of \<open>mutelemetry_ulog.h\<close>: log levels, message types, the file
  header with its two operations, and the packed message structures with their memory
  images. The structures are declared under \<open>pragma pack(1)\<close>, so an image is the
  concatenation of the members in order; integers are little-endian on the modelled
  platform.
\<close>

section \<open>Levels and message types\<close>

datatype ulog_level = Emerg | Alert | Crit | Err | Warning | Notice | Info | Debug

fun level_code :: "ulog_level \<Rightarrow> byte" where
  "level_code Emerg = 0"
| "level_code Alert = 1"
| "level_code Crit = 2"
| "level_code Err = 3"
| "level_code Warning = 4"
| "level_code Notice = 5"
| "level_code Info = 6"
| "level_code Debug = 7"

datatype ulog_message_type =
  Type_B | Type_I | Type_M | Type_F | Type_P | Type_A | Type_D | Type_L | Type_S | Type_O | Type_R

fun type_code :: "ulog_message_type \<Rightarrow> byte" where
  "type_code Type_B = byte_of_char (CHR ''B'')"
| "type_code Type_I = byte_of_char (CHR ''I'')"
| "type_code Type_M = byte_of_char (CHR ''M'')"
| "type_code Type_F = byte_of_char (CHR ''F'')"
| "type_code Type_P = byte_of_char (CHR ''P'')"
| "type_code Type_A = byte_of_char (CHR ''A'')"
| "type_code Type_D = byte_of_char (CHR ''D'')"
| "type_code Type_L = byte_of_char (CHR ''L'')"
| "type_code Type_S = byte_of_char (CHR ''S'')"
| "type_code Type_O = byte_of_char (CHR ''O'')"
| "type_code Type_R = byte_of_char (CHR ''R'')"

definition all_types :: "ulog_message_type list" where
  "all_types = [Type_B, Type_I, Type_M, Type_F, Type_P, Type_A, Type_D, Type_L, Type_S, Type_O, Type_R]"

text \<open>The cast \<open>ULogMessageType(hdr->type_)\<close>: \<open>None\<close> is a value with no enumerator.\<close>

definition type_of_code :: "byte \<Rightarrow> ulog_message_type option" where
  "type_of_code b = find (\<lambda>t. type_code t = b) all_types"

lemma type_codes [simp]:
  "type_code Type_B = 66" "type_code Type_I = 73" "type_code Type_M = 77" "type_code Type_F = 70"
  "type_code Type_P = 80" "type_code Type_A = 65" "type_code Type_D = 68" "type_code Type_L = 76"
  "type_code Type_S = 83" "type_code Type_O = 79" "type_code Type_R = 82"
  by (simp_all add: byte_of_char_def)

declare type_code.simps [simp del]

lemma type_of_code_code [simp]: "type_of_code (type_code t) = Some t"
  by (cases t) (simp_all add: type_of_code_def all_types_def)

lemma type_of_code_num [simp]:
  "type_of_code 66 = Some Type_B" "type_of_code 73 = Some Type_I" "type_of_code 77 = Some Type_M"
  "type_of_code 70 = Some Type_F" "type_of_code 80 = Some Type_P" "type_of_code 65 = Some Type_A"
  "type_of_code 68 = Some Type_D" "type_of_code 76 = Some Type_L" "type_of_code 83 = Some Type_S"
  "type_of_code 79 = Some Type_O" "type_of_code 82 = Some Type_R"
  by (simp_all add: type_of_code_def all_types_def)

lemma type_of_code_Some: "type_of_code b = Some t \<Longrightarrow> type_code t = b"
  by (auto simp: type_of_code_def find_Some_iff)

section \<open>The file header\<close>

record ulog_file_header =
  fh_magic :: "byte list"
  fh_version :: byte
  fh_timestamp :: "64 word"

definition ulog_magic :: "byte list" where
  "ulog_magic = bytes_of ''ULog'' @ [0x01, 0x12, 0x35]"

definition ULogFileHeader :: "64 word \<Rightarrow> ulog_file_header" where
  "ULogFileHeader t = \<lparr>fh_magic = ulog_magic, fh_version = 0x01, fh_timestamp = t\<rparr>"

definition write_to :: "ulog_file_header \<Rightarrow> byte list" where
  "write_to h = fh_magic h @ [fh_version h] @ enc_le 8 (fh_timestamp h)"

text \<open>\<open>read_from\<close>: \<open>None\<close> when \<open>memcmp\<close> finds another magic, the header it fills otherwise.\<close>

definition read_from :: "ulog_file_header \<Rightarrow> byte list \<Rightarrow> nat \<Rightarrow> ulog_file_header option res" where
  "read_from h mem p =
     bindE (rd mem p 7) (\<lambda>m.
     if m \<noteq> fh_magic h then Inr None
     else bindE (rd_u8 mem (p + 7)) (\<lambda>v.
          bindE (rd_u64 mem (p + 8)) (\<lambda>t.
          Inr (Some (h\<lparr>fh_version := v, fh_timestamp := t\<rparr>)))))"

lemma length_ulog_magic [simp]: "length ulog_magic = 7"
  by (simp add: ulog_magic_def)

lemma length_write_to [simp]: "length (write_to (ULogFileHeader t)) = 16"
  by (simp add: write_to_def ULogFileHeader_def)

section \<open>Packed messages\<close>

record ulog_message_header =
  h_size :: "16 word"
  h_type :: byte

definition image_header :: "ulog_message_header \<Rightarrow> byte list" where
  "image_header h = enc_le 2 (h_size h) @ [h_type h]"

lemma length_image_header [simp]: "length (image_header h) = 3"
  by (simp add: image_header_def)

text \<open>Reading \<open>hdr->type_\<close> and \<open>hdr->size_\<close> through a cast pointer.\<close>

definition hdr_type :: "byte list \<Rightarrow> nat \<Rightarrow> byte res" where
  "hdr_type mem p = rd_u8 mem (p + 2)"

definition hdr_size :: "byte list \<Rightarrow> nat \<Rightarrow> 16 word res" where
  "hdr_size mem p = rd_u16 mem p"

record ulog_message_b =
  b_h :: ulog_message_header
  compat_flags :: "byte list"
  incompat_flags :: "byte list"
  appended_offsets :: "64 word list"

record ulog_message_i =
  i_h :: ulog_message_header
  i_key_len :: byte
  i_key :: "byte list"

record ulog_message_m =
  m_h :: ulog_message_header
  is_continued :: byte
  m_key_len :: byte
  m_key :: "byte list"

record ulog_message_f =
  f_h :: ulog_message_header
  f_format :: "byte list"

record ulog_message_p =
  p_h :: ulog_message_header
  p_key_len :: byte
  p_key :: "byte list"

record ulog_message_a =
  a_h :: ulog_message_header
  a_multi_id :: byte
  a_msg_id :: "16 word"
  message_name :: "byte list"

record ulog_message_d =
  d_h :: ulog_message_header
  d_msg_id :: "16 word"
  d_data :: "byte list"

record ulog_message_l =
  l_h :: ulog_message_header
  log_level :: byte
  l_timestamp :: "64 word"
  l_message :: "byte list"

record ulog_message_s =
  s_h :: ulog_message_header
  sync_magic :: "byte list"

record ulog_message_o =
  o_h :: ulog_message_header
  dropout_duration :: "16 word"

record ulog_message_r =
  r_h :: ulog_message_header
  r_msg_id :: "16 word"

text \<open>The images.\<close>

definition image_b :: "ulog_message_b \<Rightarrow> byte list" where
  "image_b m = image_header (b_h m) @ compat_flags m @ incompat_flags m
     @ concat (map (enc_le 8) (appended_offsets m))"

definition image_i :: "ulog_message_i \<Rightarrow> byte list" where
  "image_i m = image_header (i_h m) @ [i_key_len m] @ i_key m"

definition image_m :: "ulog_message_m \<Rightarrow> byte list" where
  "image_m m = image_header (m_h m) @ [is_continued m] @ [m_key_len m] @ m_key m"

definition image_f :: "ulog_message_f \<Rightarrow> byte list" where
  "image_f m = image_header (f_h m) @ f_format m"

definition image_p :: "ulog_message_p \<Rightarrow> byte list" where
  "image_p m = image_header (p_h m) @ [p_key_len m] @ p_key m"

definition image_a :: "ulog_message_a \<Rightarrow> byte list" where
  "image_a m = image_header (a_h m) @ [a_multi_id m] @ enc_le 2 (a_msg_id m) @ message_name m"

definition image_d :: "ulog_message_d \<Rightarrow> byte list" where
  "image_d m = image_header (d_h m) @ enc_le 2 (d_msg_id m) @ d_data m"

definition image_l :: "ulog_message_l \<Rightarrow> byte list" where
  "image_l m = image_header (l_h m) @ [log_level m] @ enc_le 8 (l_timestamp m) @ l_message m"

definition image_s :: "ulog_message_s \<Rightarrow> byte list" where
  "image_s m = image_header (s_h m) @ sync_magic m"

definition image_o :: "ulog_message_o \<Rightarrow> byte list" where
  "image_o m = image_header (o_h m) @ enc_le 2 (dropout_duration m)"

definition image_r :: "ulog_message_r \<Rightarrow> byte list" where
  "image_r m = image_header (r_h m) @ enc_le 2 (r_msg_id m)"

text \<open>
  The initial values of the senders, \<open>ULogMessageX mX = {}\<close> followed by the assignment of
  the type: every other byte is zero.
\<close>

definition new_header :: "ulog_message_type \<Rightarrow> ulog_message_header" where
  "new_header t = \<lparr>h_size = 0, h_type = type_code t\<rparr>"

definition new_b :: ulog_message_b where
  "new_b = \<lparr>b_h = new_header Type_B, compat_flags = replicate 8 0, incompat_flags = replicate 8 0,
            appended_offsets = replicate 3 0\<rparr>"

definition new_i :: ulog_message_i where
  "new_i = \<lparr>i_h = new_header Type_I, i_key_len = 0, i_key = replicate 255 0\<rparr>"

definition new_m :: ulog_message_m where
  "new_m = \<lparr>m_h = new_header Type_M, is_continued = 0, m_key_len = 0, m_key = replicate 255 0\<rparr>"

definition new_f :: ulog_message_f where
  "new_f = \<lparr>f_h = new_header Type_F, f_format = replicate 1500 0\<rparr>"

definition new_p :: ulog_message_p where
  "new_p = \<lparr>p_h = new_header Type_P, p_key_len = 0, p_key = replicate 255 0\<rparr>"

definition new_a :: ulog_message_a where
  "new_a = \<lparr>a_h = new_header Type_A, a_multi_id = 0, a_msg_id = 0, message_name = replicate 255 0\<rparr>"

definition new_d :: ulog_message_d where
  "new_d = \<lparr>d_h = new_header Type_D, d_msg_id = 0, d_data = replicate 1500 0\<rparr>"

definition new_l :: ulog_message_l where
  "new_l = \<lparr>l_h = new_header Type_L, log_level = 0, l_timestamp = 0, l_message = replicate 1500 0\<rparr>"

lemmas new_defs =
  new_header_def new_b_def new_i_def new_m_def new_f_def new_p_def new_a_def new_d_def new_l_def

lemmas image_defs =
  image_header_def image_b_def image_i_def image_m_def image_f_def image_p_def image_a_def
  image_d_def image_l_def

text \<open>The \<open>sizeof\<close> of each structure, as the images give it.\<close>

lemma length_new_images:
  "length (image_b new_b) = 43" "length (image_i new_i) = 259" "length (image_m new_m) = 260"
  "length (image_f new_f) = 1503" "length (image_p new_p) = 259" "length (image_a new_a) = 261"
  "length (image_d new_d) = 1505" "length (image_l new_l) = 1512"
  by (simp_all add: new_defs image_defs length_concat sum_list_replicate)

section \<open>Framed messages\<close>

text \<open>
  What every message of the stream promises: a header whose size field is the length of
  the payload that follows it.
\<close>

definition frame :: "byte \<Rightarrow> byte list \<Rightarrow> byte list" where
  "frame t payload = enc_le 2 (word_of_nat (length payload) :: 16 word) @ [t] @ payload"

lemma length_frame [simp]: "length (frame t b) = 3 + length b"
  by (simp add: frame_def)

lemma hdr_type_frame [wire_simps]:
  "p = length xs \<Longrightarrow> hdr_type (xs @ frame t b @ ys) p = Inr t"
proof -
  assume "p = length xs"
  moreover have "[t] = enc_le 1 t"
    by (simp add: enc_le_def)
  ultimately show ?thesis
    using rd_le_at(1) [of "p + 2" "xs @ enc_le 2 (word_of_nat (length b) :: 16 word)" t "b @ ys"]
    by (simp add: hdr_type_def frame_def)
qed

lemma hdr_size_frame [wire_simps]:
  "p = length xs \<Longrightarrow> hdr_size (xs @ frame t b @ ys) p = Inr (word_of_nat (length b))"
  using rd_le_at(2) [of p xs "word_of_nat (length b)" "[t] @ b @ ys"]
  by (simp add: hdr_size_def frame_def)

end
