(* ===== verification/Messages.thy ===== *)
theory Messages
  imports Ulog
begin

text \<open>
  The bytes each sender of \<open>mutelemetry.cc\<close> puts together before it hands them to
  \<open>to_io\<close>: the file header and flags of \<open>create_header_and_flags\<close>, the bodies of the two
  \<open>register_param\<close> overloads, \<open>register_info\<close>, \<open>register_info_multi\<close>,
  \<open>register_data_format\<close>, \<open>store_data_intl\<close> and \<open>store_message\<close>. Each is written with the
  buffer operations of the source (a structure, \<open>snprintf\<close> into its array, \<open>memcpy\<close> at an
  offset, the size field last), so a write outside the structure is \<open>Undefined\<close> and a
  failed \<open>assert\<close> is \<open>Abort\<close>; lemmas then give the result in closed form as a frame.
\<close>

section \<open>The senders\<close>

definition header_message :: "64 word \<Rightarrow> byte list" where
  "header_message start = write_to (ULogFileHeader start)"

definition flags_message :: "byte list" where
  "flags_message = (let mB = new_b\<lparr>b_h := (b_h new_b)\<lparr>h_size := 43 - 3\<rparr>\<rparr> in image_b mB)"

text \<open>\<open>register_param\<close>: the text of the two overloads differs in the type of \<open>value\<close> only.\<close>

definition param_message :: "string \<Rightarrow> byte list \<Rightarrow> byte list res" where
  "param_message key val =
     (let len = length val in
      bindE (snprintf (p_key new_p) 255 (c_str key)) (\<lambda>(k, n).
      let mP = new_p\<lparr>p_key := k, p_key_len := word_of_nat n\<rparr>;
          msg_size = 259 - 255 + unat (p_key_len mP) in
      if len < 259 - msg_size then
        bindE (memcpy_at (image_p mP) msg_size val) (\<lambda>buffer.
        let msg_size = msg_size + len in
        bindE (memcpy_at buffer 0 (enc_le 2 (word_of_nat (msg_size - 3) :: 16 word))) (\<lambda>buffer.
        Inr (take msg_size buffer)))
      else Inl Abort))"

text \<open>The text of \<open>"char[%zu] %s"\<close>.\<close>

definition info_key :: "string \<Rightarrow> string \<Rightarrow> string" where
  "info_key key val = ''char['' @ dec_nat (length val) @ ''] '' @ c_str key"

definition info_message :: "string \<Rightarrow> string \<Rightarrow> byte list res" where
  "info_message key val =
     (let len = length val in
      bindE (snprintf (i_key new_i) 255 (info_key key val)) (\<lambda>(k, n).
      let mI = new_i\<lparr>i_key := k, i_key_len := word_of_nat n\<rparr>;
          msg_size = 259 - 255 + unat (i_key_len mI) in
      if len < 259 - msg_size then
        bindE (memcpy_at (image_i mI) msg_size (bytes_of val)) (\<lambda>buffer.
        let msg_size = msg_size + len in
        bindE (memcpy_at buffer 0 (enc_le 2 (word_of_nat (msg_size - 3) :: 16 word))) (\<lambda>buffer.
        Inr (take msg_size buffer)))
      else Inl Abort))"

definition info_multi_message :: "string \<Rightarrow> string \<Rightarrow> bool \<Rightarrow> byte list res" where
  "info_multi_message key val continued =
     (let len = length val in
      bindE (snprintf (m_key new_m) 255 (info_key key val)) (\<lambda>(k, n).
      let mM = new_m\<lparr>is_continued := of_bool continued, m_key := k, m_key_len := word_of_nat n\<rparr>;
          msg_size = 260 - 255 + unat (m_key_len mM) in
      if len < 260 - msg_size then
        bindE (memcpy_at (image_m mM) msg_size (bytes_of val)) (\<lambda>buffer.
        let msg_size = msg_size + len in
        bindE (memcpy_at buffer 0 (enc_le 2 (word_of_nat (msg_size - 3) :: 16 word))) (\<lambda>buffer.
        Inr (take msg_size buffer)))
      else Inl Abort))"

definition format_text :: "string \<Rightarrow> string \<Rightarrow> string" where
  "format_text type_name flds = type_name @ '':uint64_t timestamp;'' @ flds"

definition format_message :: "string \<Rightarrow> string \<Rightarrow> byte list res" where
  "format_message type_name flds =
     (let format = format_text type_name flds in
      bindE (snprintf (f_format new_f) (length format) (c_str format)) (\<lambda>(fmt, format_len).
      bindE (assertE (format_len = length format)) (\<lambda>_.
      let msg_size = 1503 - 1500 + format_len;
          mF = new_f\<lparr>f_format := fmt, f_h := (f_h new_f)\<lparr>h_size := word_of_nat (msg_size - 3)\<rparr>\<rparr> in
      rd (image_f mF) 0 msg_size)))"

definition add_message :: "string \<Rightarrow> 16 word \<Rightarrow> byte \<Rightarrow> byte list res" where
  "add_message type_name msg_id multi_id =
     (let name_len = length type_name in
      bindE (memcpy_at (message_name new_a) 0 (bytes_of type_name)) (\<lambda>name.
      let ma_msg_size = 261 - 255 + name_len;
          mA = new_a\<lparr>a_msg_id := msg_id, a_multi_id := multi_id, message_name := name,
                     a_h := (a_h new_a)\<lparr>h_size := word_of_nat (ma_msg_size - 3)\<rparr>\<rparr> in
      Inr (take ma_msg_size (image_a mA))))"

text \<open>\<open>store_data_intl\<close> after it has its ids: one buffer with the A and the D message.\<close>

definition data_message ::
    "byte list \<Rightarrow> string \<Rightarrow> 16 word \<Rightarrow> byte \<Rightarrow> 64 word \<Rightarrow> byte list res" where
  "data_message data type_name msg_id multi_id tstamp =
     bindE (add_message type_name msg_id multi_id) (\<lambda>mA.
     if length data \<le> 1500 then
       bindE (memcpy_at (d_data new_d) 0 (enc_le 8 tstamp)) (\<lambda>dd.
       bindE (requireE (8 \<le> length data)) (\<lambda>_.
       bindE (memcpy_at dd 8 (drop 8 data)) (\<lambda>dd.
       let md_msg_size = 1505 - 1500 + length data;
           mD = new_d\<lparr>d_msg_id := msg_id, d_data := dd,
                      d_h := (d_h new_d)\<lparr>h_size := word_of_nat (md_msg_size - 3)\<rparr>\<rparr> in
       Inr (mA @ take md_msg_size (image_d mD)))))
     else Inl Abort)"

definition log_message :: "string \<Rightarrow> ulog_level \<Rightarrow> 64 word \<Rightarrow> byte list res" where
  "log_message message level tstmp =
     (if length message + 1 > 1500 then Inl Abort
      else
        bindE (snprintf (l_message new_l) 1500 (c_str message)) (\<lambda>(txt, len).
        let msg_size = 1512 - 1500 + len;
            mL = new_l\<lparr>log_level := level_code level, l_timestamp := tstmp, l_message := txt,
                       l_h := (l_h new_l)\<lparr>h_size := word_of_nat (msg_size - 3)\<rparr>\<rparr> in
        rd (image_l mL) 0 msg_size))"

section \<open>Closed forms\<close>

lemma snprintf_fits:
  assumes "length s < n" and "n \<le> length buf"
  shows "snprintf buf n s = Inr (bytes_of s @ [0] @ drop (Suc (length s)) buf, length s)"
  using assms by (simp add: snprintf_def memcpy_at_def)

lemma snprintf_cut:
  assumes "0 < n" and "n \<le> length s" and "n \<le> length buf"
  shows "snprintf buf n s = Inr (bytes_of (take (n - 1) s) @ [0] @ drop n buf, length s)"
  using assms by (auto simp: snprintf_def memcpy_at_def min_def)

text \<open>
  What is left in the first \<open>length s mod 256\<close> bytes of a 255 byte key array: a prefix of
  the text, since the length is kept in one byte.
\<close>

lemma snprintf_key:
  assumes "length buf = 255"
  obtains kb where "snprintf buf 255 s = Inr (kb, length s)" and "length kb = 255"
    and "\<And>k. k \<le> 254 \<Longrightarrow> k \<le> length s \<Longrightarrow> take k kb = bytes_of (take k s)"
proof (cases "length s < 255")
  case True
  with assms have "snprintf buf 255 s = Inr (bytes_of s @ [0] @ drop (Suc (length s)) buf, length s)"
    by (intro snprintf_fits) auto
  with assms True show ?thesis
    by (intro that [of "bytes_of s @ [0] @ drop (Suc (length s)) buf"]) (auto simp: take_map)
next
  case False
  with assms have "snprintf buf 255 s = Inr (bytes_of (take 254 s) @ [0] @ drop 255 buf, length s)"
    using snprintf_cut [of 255 s buf] by simp
  with assms False show ?thesis
    by (intro that [of "bytes_of (take 254 s) @ [0] @ drop 255 buf"]) (auto simp: take_map min_def)
qed

lemma memcpy_value:
  assumes "n = length xs" and "length v + k \<le> length kb" and "n' = n + k"
  shows "memcpy_at (xs @ kb) n' v = Inr (xs @ take k kb @ v @ drop (k + length v) kb)"
  using assms by (simp add: memcpy_at_def)

lemma finish_keyed:
  assumes "length pre = a" and "k + length v \<le> length kb" and "ms = 3 + a + k"
  shows "bindE (memcpy_at (enc_le 2 (z :: 16 word) @ [t] @ pre @ kb) ms v) (\<lambda>buf.
           bindE (memcpy_at buf 0 (enc_le 2 (s :: 16 word))) (\<lambda>buf. Inr (take (ms + length v) buf)))
         = Inr (enc_le 2 s @ [t] @ pre @ take k kb @ v)"
proof -
  have "memcpy_at ((enc_le 2 z @ [t] @ pre) @ kb) ms v
      = Inr ((enc_le 2 z @ [t] @ pre) @ take k kb @ v @ drop (k + length v) kb)"
    using assms by (intro memcpy_value [where n = "3 + a"]) auto
  with assms show ?thesis
    by (simp add: memcpy_at_def)
qed

definition keyed_frame :: "byte \<Rightarrow> byte list \<Rightarrow> string \<Rightarrow> byte list \<Rightarrow> byte list" where
  "keyed_frame t pre key val =
     frame t (pre @ [word_of_nat (length key)] @ bytes_of (take (length key mod 256) key) @ val)"

lemma unat_word8_of_nat [simp]: "unat (word_of_nat n :: 8 word) = n mod 256"
  by (simp add: unat_of_nat)

lemma finish_key_message:
  assumes "length kb = 255" and "length v + length key mod 256 < 255"
    and "\<And>k. k \<le> 254 \<Longrightarrow> k \<le> length key \<Longrightarrow> take k kb = bytes_of (take k key)"
    and "ms = 4 + length pre + length key mod 256"
  shows "bindE (memcpy_at (enc_le 2 (z :: 16 word) @ [t] @ (pre @ [word_of_nat (length key)]) @ kb) ms v)
           (\<lambda>buf. bindE (memcpy_at buf 0 (enc_le 2 (word_of_nat (ms + length v - 3) :: 16 word)))
           (\<lambda>buf. Inr (take (ms + length v) buf)))
         = Inr (keyed_frame t pre key v)"
proof -
  let ?k = "length key mod 256"
  have take: "take ?k kb = bytes_of (take ?k key)"
    using assms(2,3) by auto
  have "bindE (memcpy_at (enc_le 2 z @ [t] @ (pre @ [word_of_nat (length key)]) @ kb) ms v)
           (\<lambda>buf. bindE (memcpy_at buf 0 (enc_le 2 (word_of_nat (ms + length v - 3) :: 16 word)))
           (\<lambda>buf. Inr (take (ms + length v) buf)))
      = Inr (enc_le 2 (word_of_nat (ms + length v - 3) :: 16 word) @ [t] @
             (pre @ [word_of_nat (length key)]) @ take ?k kb @ v)"
    using assms by (intro finish_keyed [where a = "Suc (length pre)"]) auto
  then show ?thesis
    using assms(4) by (simp add: keyed_frame_def frame_def take min_def)
qed

text \<open>The keyed messages: accepted when value and key length, the latter modulo 256, fit.\<close>

lemma param_message_eq:
  "param_message key val =
     (if length val + length (c_str key) mod 256 < 255
      then Inr (keyed_frame 80 [] (c_str key) val) else Inl Abort)"
proof -
  obtain kb where kb: "snprintf (p_key new_p) 255 (c_str key) = Inr (kb, length (c_str key))"
    "length kb = 255" "\<And>k. k \<le> 254 \<Longrightarrow> k \<le> length (c_str key) \<Longrightarrow> take k kb = bytes_of (take k (c_str key))"
    by (rule snprintf_key [of "p_key new_p" "c_str key"]) (auto simp: new_defs)
  show ?thesis
  proof (cases "length val + length (c_str key) mod 256 < 255")
    case True
    note fin = finish_key_message [OF kb(2) True kb(3) refl, where pre = "[]" and z = 0 and t = 80]
    from True fin kb(1) show ?thesis
      by (simp add: param_message_def new_defs image_defs Let_def less_diff_conv)
  next
    case False
    with kb(1) show ?thesis
      by (simp add: param_message_def Let_def less_diff_conv)
  qed
qed

lemma info_message_eq:
  "info_message key val =
     (if length val + length (info_key key val) mod 256 < 255
      then Inr (keyed_frame 73 [] (info_key key val) (bytes_of val)) else Inl Abort)"
proof -
  obtain kb where kb: "snprintf (i_key new_i) 255 (info_key key val) = Inr (kb, length (info_key key val))"
    "length kb = 255"
    "\<And>k. k \<le> 254 \<Longrightarrow> k \<le> length (info_key key val) \<Longrightarrow> take k kb = bytes_of (take k (info_key key val))"
    by (rule snprintf_key [of "i_key new_i" "info_key key val"]) (auto simp: new_defs)
  show ?thesis
  proof (cases "length val + length (info_key key val) mod 256 < 255")
    case True
    then have "length (bytes_of val) + length (info_key key val) mod 256 < 255" by simp
    note fin = finish_key_message [OF kb(2) this kb(3) refl, where pre = "[]" and z = 0 and t = 73]
    from True fin kb(1) show ?thesis
      by (simp add: info_message_def new_defs image_defs Let_def less_diff_conv)
  next
    case False
    with kb(1) show ?thesis
      by (simp add: info_message_def Let_def less_diff_conv)
  qed
qed

lemma info_multi_message_eq:
  "info_multi_message key val continued =
     (if length val + length (info_key key val) mod 256 < 255
      then Inr (keyed_frame 77 [of_bool continued] (info_key key val) (bytes_of val)) else Inl Abort)"
proof -
  obtain kb where kb: "snprintf (m_key new_m) 255 (info_key key val) = Inr (kb, length (info_key key val))"
    "length kb = 255"
    "\<And>k. k \<le> 254 \<Longrightarrow> k \<le> length (info_key key val) \<Longrightarrow> take k kb = bytes_of (take k (info_key key val))"
    by (rule snprintf_key [of "m_key new_m" "info_key key val"]) (auto simp: new_defs)
  show ?thesis
  proof (cases "length val + length (info_key key val) mod 256 < 255")
    case True
    then have "length (bytes_of val) + length (info_key key val) mod 256 < 255" by simp
    note fin = finish_key_message [OF kb(2) this kb(3) refl, where pre = "[of_bool continued]" and z = 0 and t = 77]
    from True fin kb(1) show ?thesis
      by (simp add: info_multi_message_def new_defs image_defs Let_def less_diff_conv)
  next
    case False
    with kb(1) show ?thesis
      by (simp add: info_multi_message_def Let_def less_diff_conv)
  qed
qed

lemma take_image: "length hdr = h \<Longrightarrow> take (h + n) (hdr @ body) = hdr @ take n body"
  by simp

lemma snprintf_butlast:
  assumes "s \<noteq> []" and "length s \<le> length buf"
  shows "snprintf buf (length s) s =
    Inr (bytes_of (butlast s) @ [0] @ drop (length s) buf, length s)"
  using assms snprintf_cut [of "length s" s buf] by (simp add: butlast_conv_take)

lemma format_message_eq:
  assumes "NUL \<notin> set (format_text type_name flds)"
  shows "format_message type_name flds =
    (if length (format_text type_name flds) \<le> 1500
     then Inr (frame 70 (bytes_of (butlast (format_text type_name flds)) @ [0]))
     else Inl Undefined)"
proof -
  let ?f = "format_text type_name flds"
  have ne: "?f \<noteq> []" by (simp add: format_text_def)
  then obtain k where k: "length ?f = Suc k" by (cases ?f) auto
  show ?thesis
  proof (cases "length ?f \<le> 1500")
    case True
    then have "snprintf (replicate 1500 0) (length ?f) ?f =
        Inr (bytes_of (butlast ?f) @ [0] @ drop (length ?f) (replicate 1500 0), length ?f)"
      by (intro snprintf_butlast ne) simp
    with True k assms show ?thesis
      by (simp add: format_message_def Let_def c_str_id new_defs image_defs rd_def frame_def)
  next
    case False
    with ne assms show ?thesis
      by (simp add: format_message_def Let_def c_str_id new_defs snprintf_def memcpy_at_def)
  qed
qed

lemma format_message_eq_NUL:
  assumes "NUL \<in> set (format_text type_name flds)"
  shows "format_message type_name flds \<in> {Inl Abort, Inl Undefined}"
proof -
  have "length (c_str (format_text type_name flds)) < length (format_text type_name flds)"
    using assms by (rule length_c_str_less)
  then show ?thesis
    by (auto simp: format_message_def Let_def snprintf_def memcpy_at_def bindE_def assertE_def
        split: sum.splits if_splits)
qed

lemma add_message_eq:
  "add_message type_name msg_id multi_id =
     (if length type_name \<le> 255
      then Inr (frame 65 ([multi_id] @ enc_le 2 msg_id @ bytes_of type_name)) else Inl Undefined)"
  by (simp add: add_message_def memcpy_at_def new_defs image_defs frame_def Let_def take_Cons')

lemma data_message_eq:
  "data_message data type_name msg_id multi_id tstamp =
     (if 255 < length type_name then Inl Undefined
      else if 1500 < length data then Inl Abort
      else if length data < 8 then Inl Undefined
      else Inr (frame 65 ([multi_id] @ enc_le 2 msg_id @ bytes_of type_name) @
                frame 68 (enc_le 2 msg_id @ enc_le 8 tstamp @ drop 8 data)))"
  by (auto simp: data_message_def add_message_eq memcpy_at_def new_defs image_defs frame_def Let_def take_Cons')

lemma log_message_eq:
  "log_message message level tstmp =
     (if length message < 1500
      then Inr (frame 76 ([level_code level] @ enc_le 8 tstmp @ bytes_of (c_str message)))
      else Inl Abort)"
proof (cases "length message < 1500")
  case True
  then have "length (c_str message) < 1500"
    using length_c_str [of message] by simp
  with True show ?thesis
    by (simp add: log_message_def snprintf_fits new_defs image_defs frame_def Let_def rd_def take_Cons')
next
  case False
  then show ?thesis by (simp add: log_message_def)
qed

end
