(* ===== verification/Id_Gen.thy ===== *)
theory Id_Gen
  imports Prelude
begin

text \<open>
  The class template \<open>ID<T>\<close> of \<open>mutelemetry.h\<close>: a counter of width \<open>T\<close> and the map of
  the names that have an id. \<open>MuTelemetry\<close> keeps one at \<open>uint16_t\<close> for the message types
  and one at \<open>uint8_t\<close> per message type for the instances. The mutex makes \<open>get_id\<close> one
  atomic step.
\<close>

record 'w id_gen =
  id_cntr :: 'w
  ids :: "string \<rightharpoonup> 'w"

definition new_id_gen :: "('w::len word) id_gen" where
  "new_id_gen = \<lparr>id_cntr = 0, ids = Map.empty\<rparr>"

text \<open>The copy constructor and the assignment: the mutex is not copied.\<close>

definition copy_id_gen :: "('w::len word) id_gen \<Rightarrow> ('w word) id_gen" where
  "copy_id_gen g = \<lparr>id_cntr = id_cntr g, ids = ids g\<rparr>"

definition assign_id_gen :: "('w::len word) id_gen \<Rightarrow> ('w word) id_gen \<Rightarrow> ('w word) id_gen" where
  "assign_id_gen this that = this\<lparr>id_cntr := id_cntr that, ids := ids that\<rparr>"

text \<open>\<open>ids_[name] = id_cntr_++\<close>: the counter wraps.\<close>

definition get_id :: "string \<Rightarrow> ('w::len word) id_gen \<Rightarrow> 'w word \<times> ('w word) id_gen" where
  "get_id name g =
     (case ids g name of
        Some i \<Rightarrow> (i, g)
      | None \<Rightarrow> (id_cntr g, g\<lparr>id_cntr := id_cntr g + 1, ids := (ids g)(name \<mapsto> id_cntr g)\<rparr>))"

fun get_all :: "string list \<Rightarrow> ('w::len word) id_gen \<Rightarrow> ('w word) id_gen" where
  "get_all [] g = g"
| "get_all (n # ns) g = get_all ns (snd (get_id n g))"

text \<open>
  The invariant: the ids handed out are the numbers below the counter, each once, as long
  as fewer than \<open>2 ^ w\<close> names have been seen.
\<close>

definition id_gen_ok :: "('w::len word) id_gen \<Rightarrow> bool" where
  "id_gen_ok g \<longleftrightarrow> finite (dom (ids g)) \<and> id_cntr g = word_of_nat (card (dom (ids g)))"

definition id_gen_fresh :: "('w::len word) id_gen \<Rightarrow> bool" where
  "id_gen_fresh g \<longleftrightarrow> inj_on (ids g) (dom (ids g)) \<and>
     (\<forall>n i. ids g n = Some i \<longrightarrow> unat i < card (dom (ids g)))"

section \<open>The contract of an id allocator\<close>

locale id_allocator =
  fixes alloc :: "string \<Rightarrow> 'g \<Rightarrow> 'i \<times> 'g"
    and assigned :: "'g \<Rightarrow> string \<rightharpoonup> 'i"
  assumes alloc_assigned: "assigned (snd (alloc n g)) n = Some (fst (alloc n g))"
    and alloc_other: "m \<noteq> n \<Longrightarrow> assigned (snd (alloc n g)) m = assigned g m"
    and alloc_known: "assigned g n = Some i \<Longrightarrow> alloc n g = (i, g)"
begin

lemma alloc_stable:
  assumes "assigned g n = Some i"
  shows "assigned (snd (alloc m g)) n = Some i"
proof (cases "m = n")
  case True
  with alloc_known [OF assms] assms show ?thesis by simp
next
  case False
  with assms show ?thesis by (simp add: alloc_other)
qed

lemma alloc_idem: "alloc n (snd (alloc n g)) = (fst (alloc n g), snd (alloc n g))"
  by (rule alloc_known) (rule alloc_assigned)

fun alloc_all :: "string list \<Rightarrow> 'g \<Rightarrow> 'g" where
  "alloc_all [] g = g"
| "alloc_all (n # ns) g = alloc_all ns (snd (alloc n g))"

lemma alloc_all_stable: "assigned g n = Some i \<Longrightarrow> assigned (alloc_all ns g) n = Some i"
  by (induction ns arbitrary: g) (auto intro: alloc_stable)

lemma alloc_then_stable: "fst (alloc n (alloc_all ns (snd (alloc n g)))) = fst (alloc n g)"
  by (rule arg_cong [where f = fst, OF alloc_known [OF alloc_all_stable [OF alloc_assigned]], simplified])

lemma dom_alloc: "dom (assigned (snd (alloc n g))) = insert n (dom (assigned g))"
proof (rule set_eqI)
  fix m
  show "m \<in> dom (assigned (snd (alloc n g))) \<longleftrightarrow> m \<in> insert n (dom (assigned g))"
    by (cases "m = n") (simp_all add: alloc_assigned alloc_other domIff)
qed

lemma dom_alloc_all: "dom (assigned (alloc_all ns g)) = dom (assigned g) \<union> set ns"
  by (induction ns arbitrary: g) (auto simp: dom_alloc)

end

lemma get_id_laws:
  "ids (snd (get_id n g)) n = Some (fst (get_id n g))"
  "m \<noteq> n \<Longrightarrow> ids (snd (get_id n g)) m = ids g m"
  "ids g n = Some i \<Longrightarrow> get_id n g = (i, g)"
  by (auto simp: get_id_def split: option.splits)

interpretation msg_ids: id_allocator "get_id :: string \<Rightarrow> 16 word id_gen \<Rightarrow> _" ids
  by unfold_locales (auto simp: get_id_laws)

interpretation multi_ids: id_allocator "get_id :: string \<Rightarrow> 8 word id_gen \<Rightarrow> _" ids
  by unfold_locales (auto simp: get_id_laws)

lemma get_all_eq_msg: "get_all ns g = msg_ids.alloc_all ns g"
  by (induction ns arbitrary: g) auto

lemma get_all_eq_multi: "get_all ns g = multi_ids.alloc_all ns g"
  by (induction ns arbitrary: g) auto

section \<open>Counting and freshness\<close>

lemma id_gen_ok_new: "id_gen_ok new_id_gen"
  by (simp add: id_gen_ok_def new_id_gen_def)

lemma id_gen_fresh_new: "id_gen_fresh new_id_gen"
  by (simp add: id_gen_fresh_def new_id_gen_def)

lemma get_id_new:
  "ids g n = None \<Longrightarrow>
   get_id n g = (id_cntr g, \<lparr>id_cntr = id_cntr g + 1, ids = (ids g)(n \<mapsto> id_cntr g)\<rparr>)"
  by (cases g) (simp add: get_id_def)

lemma get_id_ok: "id_gen_ok g \<Longrightarrow> id_gen_ok (snd (get_id n g))"
  by (cases "ids g n")
    (auto simp: get_id_new get_id_laws(3) id_gen_ok_def domIff add.commute)

lemma get_id_fresh:
  fixes g :: "('w::len word) id_gen"
  assumes ok: "id_gen_ok g" and fresh: "id_gen_fresh g"
    and room: "card (dom (ids g)) < 2 ^ LENGTH('w)"
  shows "id_gen_fresh (snd (get_id n g))"
proof (cases "ids g n")
  case (Some i)
  with fresh show ?thesis by (simp add: get_id_laws(3))
next
  case None
  let ?k = "card (dom (ids g))"
  have unat: "unat (id_cntr g) = ?k"
    using ok room by (simp add: id_gen_ok_def unat_of_nat)
  have card: "card (insert n (dom (ids g))) = Suc ?k"
    using ok None by (subst card_insert_disjoint) (auto simp: id_gen_ok_def)
  have new: "ids g m \<noteq> Some (id_cntr g)" for m
    using fresh unat by (metis id_gen_fresh_def less_irrefl)
  have inj: "inj_on ((ids g)(n \<mapsto> id_cntr g)) (insert n (dom (ids g)))"
    using fresh new None by (intro inj_onI) (auto simp: id_gen_fresh_def inj_on_def split: if_splits)
  have bound: "unat i < Suc ?k" if "ids g m = Some i" for m i
    using fresh that by (auto simp: id_gen_fresh_def intro: less_SucI)
  from None inj bound unat card show ?thesis
    by (auto simp: get_id_new id_gen_fresh_def)
qed

lemma dom_get_id: "dom (ids (snd (get_id n g))) = insert n (dom (ids g))"
proof (rule set_eqI)
  fix m
  show "m \<in> dom (ids (snd (get_id n g))) \<longleftrightarrow> m \<in> insert n (dom (ids g))"
    by (cases "m = n") (simp_all add: get_id_laws domIff)
qed

lemma dom_get_all: "dom (ids (get_all ns g)) = dom (ids g) \<union> set ns"
  by (induction ns arbitrary: g) (auto simp: dom_get_id)

lemma get_all_ok: "id_gen_ok g \<Longrightarrow> id_gen_ok (get_all ns g)"
  by (induction ns arbitrary: g) (auto intro: get_id_ok)

lemma get_all_fresh:
  fixes g :: "('w::len word) id_gen"
  assumes "id_gen_ok g" and "id_gen_fresh g" and "card (dom (ids g) \<union> set ns) \<le> 2 ^ LENGTH('w)"
  shows "id_gen_fresh (get_all ns g)"
  using assms
proof (induction ns arbitrary: g)
  case Nil
  then show ?case by simp
next
  case (Cons n ns)
  have fin: "finite (dom (ids g))" using Cons.prems(1) by (simp add: id_gen_ok_def)
  have "id_gen_fresh (snd (get_id n g))"
  proof (cases "ids g n")
    case (Some i)
    with Cons.prems show ?thesis by (simp add: get_id_laws(3))
  next
    case None
    then have "dom (ids g) \<subset> dom (ids g) \<union> set (n # ns)" by (auto simp: domIff)
    with fin Cons.prems(3) have "card (dom (ids g)) < 2 ^ LENGTH('w)"
      by (meson finite_Un finite_set less_le_trans psubset_card_mono)
    with Cons.prems(1,2) show ?thesis by (rule get_id_fresh)
  qed
  with Cons show ?case by (simp add: dom_get_id get_id_ok)
qed

text \<open>The width is reached: the name after \<open>2 ^ w\<close> distinct names gets the first id again.\<close>

lemma get_id_wraps:
  fixes g :: "('w::len word) id_gen"
  assumes "id_gen_ok g" and "card (dom (ids g)) = 2 ^ LENGTH('w)" and "ids g n = None"
  shows "fst (get_id n g) = 0"
  using assms by (simp add: get_id_new id_gen_ok_def)

section \<open>Histories\<close>

text \<open>A generator is determined by the names that were asked for, in their order.\<close>

lemma get_all_snoc: "get_all (ns @ [n]) g = snd (get_id n (get_all ns g))"
  by (induction ns arbitrary: g) simp_all

lemma get_id_again: "get_id n (snd (get_id n g)) = (fst (get_id n g), snd (get_id n g))"
  by (rule get_id_laws(3)) (rule get_id_laws(1))

lemma get_id_stable: "ids g n = Some i \<Longrightarrow> ids (snd (get_id m g)) n = Some i"
  by (cases "m = n") (simp_all add: get_id_laws)

lemma get_all_known: "n \<in> set ns \<Longrightarrow> ids (get_all ns g) n = Some (fst (get_id n (get_all ns g)))"
proof -
  assume "n \<in> set ns"
  then have "n \<in> dom (ids (get_all ns g))" by (simp add: dom_get_all)
  then obtain i where "ids (get_all ns g) n = Some i" by blast
  then show ?thesis by (simp add: get_id_laws(3))
qed

lemma get_all_snoc_known:
  "n \<in> set ns \<Longrightarrow> fst (get_id n (get_all (ns @ [m]) g)) = fst (get_id n (get_all ns g))"
  using get_id_stable [OF get_all_known] by (metis get_all_snoc get_id_laws(3) fst_conv)

lemma get_all_snoc_self: "fst (get_id n (get_all (ns @ [n]) g)) = fst (get_id n (get_all ns g))"
  unfolding get_all_snoc by (simp add: get_id_again)

lemma get_all_distinct:
  assumes "card (set ns) \<le> 2 ^ LENGTH('w::len)" and "m \<in> set ns" and "n \<in> set ns" and "m \<noteq> n"
  shows "fst (get_id m (get_all ns (new_id_gen :: 'w word id_gen))) \<noteq> fst (get_id n (get_all ns new_id_gen))"
proof -
  let ?g = "get_all ns (new_id_gen :: 'w word id_gen)"
  have "id_gen_fresh ?g"
    using assms(1) id_gen_ok_new id_gen_fresh_new by (intro get_all_fresh) (simp_all add: new_id_gen_def)
  then have "inj_on (ids ?g) (dom (ids ?g))" by (simp add: id_gen_fresh_def)
  moreover have "ids ?g m = Some (fst (get_id m ?g))" "ids ?g n = Some (fst (get_id n ?g))"
    using assms(2,3) by (simp_all add: get_all_known)
  ultimately show ?thesis using assms(4) by (metis domI inj_onD)
qed

text \<open>The first name gets 0; the second to differ from it gets 1 when the width has room for it.\<close>

lemma get_all_single: "set ns \<subseteq> {n} \<Longrightarrow> fst (get_id n (get_all ns (new_id_gen :: ('w::len word) id_gen))) = 0"
proof (induction ns rule: rev_induct)
  case Nil
  then show ?case by (simp add: get_id_def new_id_gen_def)
next
  case (snoc m ns)
  then show ?case using get_all_snoc_self [of n ns "new_id_gen :: 'w word id_gen"] by simp
qed

lemma get_all_second:
  assumes "set ns = {m}" and "n \<noteq> m"
  shows "fst (get_id n (get_all ns (new_id_gen :: ('w::len word) id_gen))) = 1"
proof -
  have dom: "dom (ids (get_all ns (new_id_gen :: 'w word id_gen))) = {m}"
    unfolding dom_get_all using assms(1) by (simp add: new_id_gen_def)
  then have "ids (get_all ns (new_id_gen :: 'w word id_gen)) n = None" using assms(2) by (auto simp: domIff)
  moreover have "id_gen_ok (get_all ns (new_id_gen :: 'w word id_gen))" by (rule get_all_ok [OF id_gen_ok_new])
  ultimately show ?thesis by (simp add: get_id_new id_gen_ok_def dom)
qed

end
