(* ===== verification/Conc_Queue.thy ===== *)
theory Conc_Queue
  imports Prelude
begin

text \<open>
  \<open>ConcQueue<SerializedDataPtr>\<close> of muroute is not part of the sources: its operations are
  an argument of every definition that uses a queue, and \<open>conc_queue\<close> states what the
  sources rely on, that of a first-in first-out queue. A \<open>SerializedDataPtr\<close> is shared
  between the two queues and never written through after \<open>to_io\<close>, so the pointer is the
  bytes it points at; \<open>None\<close> is a null pointer. What \<open>dequeue\<close> and \<open>front\<close> return on an
  empty queue is left open, but a queue that is empty stays empty.
\<close>

record 'q cq_ops =
  cq_empty :: "'q \<Rightarrow> bool"
  cq_front :: "'q \<Rightarrow> byte list option"
  cq_dequeue :: "'q \<Rightarrow> byte list option \<times> 'q"
  cq_enqueue :: "byte list \<Rightarrow> 'q \<Rightarrow> 'q"

text \<open>The queue a \<open>ConcQueue *\<close> points at: one of the two members of \<open>MuTelemetry\<close>.\<close>

datatype queue_ptr = Log_Queue | Net_Queue

definition deref :: "'a option \<Rightarrow> 'a res" where
  "deref p = (case p of None \<Rightarrow> Inl Undefined | Some x \<Rightarrow> Inr x)"

lemma deref_simps [simp]:
  "deref None = Inl Undefined"
  "deref (Some x) = Inr x"
  "deref p = Inr x \<longleftrightarrow> p = Some x"
  by (auto simp: deref_def split: option.splits)

locale conc_queue =
  fixes Q :: "'q cq_ops"
    and content :: "'q \<Rightarrow> byte list list"
  assumes empty_iff: "cq_empty Q q \<longleftrightarrow> content q = []"
    and front_hd: "content q = x # xs \<Longrightarrow> cq_front Q q = Some x"
    and dequeue_value: "content q = x # xs \<Longrightarrow> fst (cq_dequeue Q q) = Some x"
    and dequeue_content: "content q = x # xs \<Longrightarrow> content (snd (cq_dequeue Q q)) = xs"
    and dequeue_empty: "content q = [] \<Longrightarrow> content (snd (cq_dequeue Q q)) = []"
    and enqueue_content: "content (cq_enqueue Q x q) = content q @ [x]"
begin

lemma dequeue_subset: "set (content (snd (cq_dequeue Q q))) \<subseteq> set (content q)"
  by (cases "content q") (auto simp: dequeue_empty dequeue_content)

lemma dequeue_cases:
  assumes "\<not> cq_empty Q q"
  obtains x xs q' where "content q = x # xs" and "cq_front Q q = Some x"
    and "cq_dequeue Q q = (Some x, q')" and "content q' = xs"
proof -
  from assms obtain x xs where c: "content q = x # xs"
    by (cases "content q") (auto simp: empty_iff)
  show thesis
    by (rule that [OF c front_hd [OF c] prod_eqI dequeue_content [OF c]])
      (simp_all add: dequeue_value [OF c])
qed

lemma enqueue_all: "content (fold (cq_enqueue Q) xs q) = content q @ xs"
  by (induction xs arbitrary: q) (simp_all add: enqueue_content)

lemma enqueue_not_empty: "\<not> cq_empty Q (cq_enqueue Q x q)"
  by (simp add: empty_iff enqueue_content)

end

text \<open>
  A list with its oldest element first, whose \<open>dequeue\<close> returns a null pointer when there
  is nothing: the contract can hold, and the operations can be evaluated on it.
\<close>

definition list_queue :: "byte list list cq_ops" where
  "list_queue = \<lparr>cq_empty = (\<lambda>q. q = []), cq_front = (\<lambda>q. case q of [] \<Rightarrow> None | x # _ \<Rightarrow> Some x),
     cq_dequeue = (\<lambda>q. case q of [] \<Rightarrow> (None, []) | x # xs \<Rightarrow> (Some x, xs)),
     cq_enqueue = (\<lambda>x q. q @ [x])\<rparr>"

interpretation fifo: conc_queue list_queue "\<lambda>q. q"
  by unfold_locales (simp_all add: list_queue_def)

lemma list_queue_simps [simp]:
  "cq_empty list_queue q = (q = [])"
  "cq_front list_queue (x # xs) = Some x"
  "cq_dequeue list_queue [] = (None, [])"
  "cq_dequeue list_queue (x # xs) = (Some x, xs)"
  "cq_enqueue list_queue x q = q @ [x]"
  by (simp_all add: list_queue_def)

end
