(* ===== verification/Logger.thy ===== *)
theory Logger
  imports Conc_Queue "HOL-Library.Signed_Division"
begin

text \<open>
  \<open>MutelemetryLogger\<close>: the \<open>DataBuffer\<close>s, the pool of eight of them with the stack of the
  free ones, and the operations of the class. \<open>USE_POST_FUNCTION_ON_IO\<close> is not defined, so
  \<open>start_io_worker\<close> writes before it returns. What the environment decides is an argument:
  the clock, whether \<open>try_lock\<close> and \<open>compare_exchange_weak\<close> succeed (both may fail for no
  reason), what the file accepts, and the messages other threads enqueue meanwhile.
  \<open>main_loop2\<close> is under the \<open>#else\<close> of \<open>start\<close> and never called.
\<close>

section \<open>DataBuffer\<close>

record data_buffer =
  add_started :: int
  data_size :: nat
  is_full :: bool
  buffer :: "byte list list"

definition new_data_buffer :: data_buffer where
  "new_data_buffer = \<lparr>add_started = 0, data_size = 0, is_full = False, buffer = []\<rparr>"

definition max_data_size :: nat where
  "max_data_size = 4096"

definition has_data :: "data_buffer \<Rightarrow> bool" where
  "has_data b \<longleftrightarrow> 0 < data_size b"

text \<open>\<open>now\<close> is the system clock in nanoseconds.\<close>

definition buffer_add :: "int \<Rightarrow> byte list \<Rightarrow> data_buffer \<Rightarrow> bool \<times> data_buffer" where
  "buffer_add now dp b =
     (let sz = length dp;
          b = (if has_data b then b else b\<lparr>add_started := now\<rparr>);
          b = (if max_data_size \<le> sz + data_size b then b\<lparr>is_full := True\<rparr> else b);
          b = b\<lparr>data_size := data_size b + sz, buffer := buffer b @ [dp]\<rparr> in
      (is_full b, b))"

text \<open>A \<open>duration_cast\<close> to seconds truncates towards zero; the interval is one second.\<close>

definition can_start_io :: "int \<Rightarrow> data_buffer \<Rightarrow> bool" where
  "can_start_io now b \<longleftrightarrow> has_data b \<and> 1 \<le> (now - add_started b) sdiv 1000000000"

definition buffer_at :: "data_buffer \<Rightarrow> nat \<Rightarrow> byte list option" where
  "buffer_at b idx = (if length (buffer b) \<le> idx then None else Some (buffer b ! idx))"

definition buffer_data :: "data_buffer \<Rightarrow> byte list" where
  "buffer_data b = foldl (\<lambda>result i. result @ buffer b ! i) [] [0..<length (buffer b)]"

definition buffer_clear :: "data_buffer \<Rightarrow> data_buffer" where
  "buffer_clear b = b\<lparr>buffer := [], data_size := 0, is_full := False\<rparr>"

section \<open>The file\<close>

text \<open>
  The \<open>ofstream\<close>: whether it is open, its \<open>badbit\<close>, the bytes put into it and how many of
  them were flushed. A write meets a device that takes all of it (\<open>None\<close>) or only the
  first \<open>n\<close> bytes (\<open>Some n\<close>); a stream that is bad writes nothing, a closed one fails.
\<close>

record out_file =
  f_open :: bool
  f_bad :: bool
  f_bytes :: "byte list"
  f_flushed :: nat

definition no_file :: out_file where
  "no_file = \<lparr>f_open = False, f_bad = False, f_bytes = [], f_flushed = 0\<rparr>"

definition open_file :: "bool \<Rightarrow> out_file" where
  "open_file opens = \<lparr>f_open = opens, f_bad = False, f_bytes = [], f_flushed = 0\<rparr>"

definition file_write :: "nat option \<Rightarrow> byte list \<Rightarrow> out_file \<Rightarrow> out_file" where
  "file_write dv bs f =
     (if f_bad f then f
      else if bs = [] then f
      else if f_open f then
        (case dv of
           None \<Rightarrow> f\<lparr>f_bytes := f_bytes f @ bs\<rparr>
         | Some n \<Rightarrow> f\<lparr>f_bytes := f_bytes f @ take n bs, f_bad := True\<rparr>)
      else f\<lparr>f_bad := True\<rparr>)"

text \<open>Closing puts out what was not flushed yet, unless the stream is bad.\<close>

definition file_close :: "out_file \<Rightarrow> out_file" where
  "file_close f =
     f\<lparr>f_open := False,
       f_flushed := (if f_open f \<and> \<not> f_bad f then length (f_bytes f) else f_flushed f)\<rparr>"

section \<open>The logger\<close>

text \<open>
  A \<open>DataBuffer *\<close> is an index into \<open>mem_pool_\<close>, \<open>None\<close> the null pointer; the head of
  \<open>pool_stack\<close> is its top.
\<close>

record logger =
  lg_running :: bool
  lg_queue :: "queue_ptr option"
  lg_filename :: string
  out :: out_file
  mem_pool :: "data_buffer list"
  pool_stack :: "nat list"
  curr_idx :: "nat option"

definition new_logger :: logger where
  "new_logger = \<lparr>lg_running = False, lg_queue = None, lg_filename = [], out = no_file,
     mem_pool = replicate 8 new_data_buffer, pool_stack = rev [1..<8], curr_idx = Some 0\<rparr>"

definition init_logger :: "bool \<Rightarrow> string \<Rightarrow> queue_ptr option \<Rightarrow> logger \<Rightarrow> bool \<times> logger" where
  "init_logger opens fname dq lg =
     (if lg_running lg \<or> lg_queue lg \<noteq> None then (False, lg)
      else if dq = None then (False, lg)
      else
        let lg = lg\<lparr>lg_filename := fname, out := open_file opens\<rparr> in
        if f_open (out lg) then (True, lg\<lparr>lg_queue := dq\<rparr>) else (False, lg))"

definition start_logger :: "logger \<Rightarrow> logger" where
  "start_logger lg = lg\<lparr>lg_running := True\<rparr>"

definition stop_logger :: "logger \<Rightarrow> logger" where
  "stop_logger lg = lg\<lparr>lg_running := False\<rparr>"

definition flush_file :: "bool \<Rightarrow> logger \<Rightarrow> logger" where
  "flush_file fl lg =
     (if f_open (out lg) \<and> \<not> f_bad (out lg) then
        (if fl then lg\<lparr>out := (out lg)\<lparr>f_flushed := length (f_bytes (out lg))\<rparr>\<rparr>
         else lg\<lparr>out := (out lg)\<lparr>f_bad := True\<rparr>\<rparr>)
      else lg)"

definition write_file :: "nat option \<Rightarrow> byte list \<Rightarrow> logger \<Rightarrow> bool \<times> logger" where
  "write_file dv result lg =
     (let lg = lg\<lparr>out := file_write dv result (out lg)\<rparr> in (\<not> f_bad (out lg), lg))"

text \<open>One write and the flush behind it: what the device takes, whether the flush works.\<close>

record io_env =
  device :: "nat option"
  flushes :: bool

definition pool_get :: "logger \<Rightarrow> nat \<Rightarrow> data_buffer res" where
  "pool_get lg i = (if i < length (mem_pool lg) then Inr (mem_pool lg ! i) else Inl Undefined)"

text \<open>
  \<open>start_io_worker\<close> and \<open>release\<close> call each other: a failed write releases the logger with
  \<open>on_file_error\<close> set, and that call does not write.
\<close>

function (sequential)
    start_io_worker :: "io_env \<Rightarrow> nat \<Rightarrow> bool \<Rightarrow> logger \<Rightarrow> logger res"
and release :: "io_env \<Rightarrow> bool \<Rightarrow> logger \<Rightarrow> logger res" where
  "start_io_worker io dbp do_flush lg =
     bindE (pool_get lg dbp) (\<lambda>b.
     let result = buffer_data b;
         lg = lg\<lparr>mem_pool := (mem_pool lg)[dbp := buffer_clear b]\<rparr>;
         lg = lg\<lparr>pool_stack := dbp # pool_stack lg\<rparr> in
     case write_file (device io) result lg of (ok, lg) \<Rightarrow>
       if \<not> ok then release io True lg
       else if do_flush then Inr (flush_file (flushes io) lg)
       else Inr lg)"
| "release io on_file_error lg =
     bindE (if f_open (out lg) then
              let curr = curr_idx lg in
              bindE (if on_file_error then Inr False
                     else bindE (deref curr) (\<lambda>i. bindE (pool_get lg i) (\<lambda>b. Inr (has_data b))))
                (\<lambda>write_out.
              bindE (if \<not> on_file_error \<and> write_out then
                       bindE (start_io_worker io (the curr) True lg) (\<lambda>lg. Inr (lg\<lparr>curr_idx := None\<rparr>))
                     else Inr lg) (\<lambda>lg.
              Inr (lg\<lparr>out := file_close (out lg)\<rparr>)))
            else Inr lg) (\<lambda>lg.
     Inr (lg\<lparr>lg_queue := None\<rparr>))"
  by pat_completeness auto

termination
  by (relation "measure (case_sum (\<lambda>_. 1) (\<lambda>(io, err, lg). if err then 0 else 2))") auto

declare start_io_worker.simps [simp del] release.simps [simp del]

section \<open>The periodic loop\<close>

text \<open>What the environment decides in one iteration: see the header of this theory.\<close>

record tick =
  arrived :: "byte list list"
  locks :: bool
  cas_ok :: bool
  t_now :: int
  io_out :: io_env

datatype loop_exit = Again | Return | Drained

text \<open>
  The swap both halves of \<open>main_loop\<close> do under the lock: the free buffer on top of the
  stack becomes current. \<open>None\<close> is the early return.
\<close>

definition swap_current :: "bool \<Rightarrow> nat \<Rightarrow> logger \<Rightarrow> logger option res" where
  "swap_current cas io_idx lg =
     (case pool_stack lg of
        [] \<Rightarrow> Inr None
      | free # rest \<Rightarrow>
          if cas \<and> curr_idx lg = Some io_idx then
            let lg = lg\<lparr>curr_idx := Some free, pool_stack := rest\<rparr> in
            bindE (pool_get lg free) (\<lambda>b.
            bindE (assertE (data_size b = 0)) (\<lambda>_. Inr (Some lg)))
          else Inr None)"

definition take_one :: "'q cq_ops \<Rightarrow> tick \<Rightarrow> nat \<Rightarrow> logger \<Rightarrow> 'q \<Rightarrow> (loop_exit \<times> logger \<times> 'q) res" where
  "take_one Q t io_idx lg q =
     bindE (deref (lg_queue lg)) (\<lambda>_.
     case cq_dequeue Q q of (dp, q) \<Rightarrow>
     case dp of
       None \<Rightarrow> Inl Abort
     | Some bs \<Rightarrow>
         bindE (assertE (length bs \<le> max_data_size)) (\<lambda>_.
         bindE (pool_get lg io_idx) (\<lambda>b.
         Inr (Again, lg\<lparr>mem_pool := (mem_pool lg)[io_idx := snd (buffer_add (t_now t) bs b)]\<rparr>, q))))"

definition loop_body :: "'q cq_ops \<Rightarrow> tick \<Rightarrow> logger \<Rightarrow> 'q \<Rightarrow> (loop_exit \<times> logger \<times> 'q) res" where
  "loop_body Q t lg q =
     (let q = fold (cq_enqueue Q) (arrived t) q in
      bindE (deref (lg_queue lg)) (\<lambda>_.
      if cq_empty Q q then Inr (Drained, lg, q)
      else
        bindE (deref (curr_idx lg)) (\<lambda>io_idx.
        bindE (pool_get lg io_idx) (\<lambda>b.
        if is_full b then
          if \<not> locks t then Inr (Again, lg, q)
          else
            bindE (swap_current (cas_ok t) io_idx lg) (\<lambda>r.
            case r of
              None \<Rightarrow> Inr (Return, lg, q)
            | Some lg \<Rightarrow>
                bindE (start_io_worker (io_out t) io_idx False lg) (\<lambda>lg.
                bindE (deref (curr_idx lg)) (\<lambda>io_idx. take_one Q t io_idx lg q)))
        else take_one Q t io_idx lg q))))"

text \<open>The loop over as many iterations as there are ticks; \<open>Again\<close> says it is still running.\<close>

fun drain :: "'q cq_ops \<Rightarrow> tick list \<Rightarrow> logger \<Rightarrow> 'q \<Rightarrow> (loop_exit \<times> logger \<times> 'q) res" where
  "drain Q [] lg q = Inr (Again, lg, q)"
| "drain Q (t # ts) lg q =
     bindE (loop_body Q t lg q) (\<lambda>(e, lg, q).
     if e = Again then drain Q ts lg q else Inr (e, lg, q))"

definition write_old :: "tick \<Rightarrow> logger \<Rightarrow> logger res" where
  "write_old t lg =
     bindE (deref (curr_idx lg)) (\<lambda>io_idx.
     bindE (pool_get lg io_idx) (\<lambda>b.
     if can_start_io (t_now t) b then
       if \<not> locks t then Inr lg
       else
         bindE (swap_current (cas_ok t) io_idx lg) (\<lambda>r.
         case r of
           None \<Rightarrow> Inr lg
         | Some lg \<Rightarrow> start_io_worker (io_out t) io_idx True lg)
     else Inr lg))"

definition main_loop ::
    "'q cq_ops \<Rightarrow> tick list \<Rightarrow> tick \<Rightarrow> logger \<Rightarrow> 'q \<Rightarrow> (loop_exit \<times> logger \<times> 'q) res" where
  "main_loop Q ts t lg q =
     (if \<not> lg_running lg then Inr (Return, lg, q)
      else
        bindE (drain Q ts lg q) (\<lambda>(e, lg, q).
        if e = Drained then bindE (write_old t lg) (\<lambda>lg. Inr (Return, lg, q))
        else Inr (e, lg, q)))"

text \<open>The destructor.\<close>

definition destroy :: "io_env \<Rightarrow> logger \<Rightarrow> logger res" where
  "destroy io lg = release io False (stop_logger lg)"

end
