(* ===== verification/Formats.thy ===== *)
theory Formats
  imports Prelude
begin

text \<open>
  The type descriptions of \<open>mutelemetry_parse\<close>: \<open>Field\<close>, \<open>Format\<close>, the tokeniser
  \<open>split_string\<close> and the part of \<open>parse_format\<close> that turns a field section such as
  \<open>int32_t[4] b\<close> into a \<open>Field\<close>. A \<open>boost::string_view\<close> is the string it views; an
  element access or a removal outside the view is \<open>Undefined\<close>.
\<close>

datatype format_type =
  UINT8 | UINT16 | UINT32 | UINT64 | INT8 | INT16 | INT32 | INT64 | FLOAT | DOUBLE | BOOL | CHAR_T | OTHER

record field =
  field_type :: format_type
  field_name :: string
  other_type_id :: string
  array_size :: int

record format =
  fmt_name :: string
  fmt_fields :: "field list"
  fmt_padding :: int

section \<open>Tokens\<close>

function split_string :: "string \<Rightarrow> char \<Rightarrow> string list" where
  "split_string s d =
     (if s = [] then []
      else let w = takeWhile (\<lambda>c. c \<noteq> d) s in w # split_string (drop (Suc (length w)) s) d)"
  by pat_completeness auto
termination
  by (relation "measure (\<lambda>(s, d). length s)") auto

declare split_string.simps [simp del]

lemma split_string_Nil [simp]: "split_string [] d = []"
  by (simp add: split_string.simps)

lemma split_string_word:
  assumes "d \<notin> set w"
  shows "split_string (w @ d # rest) d = w # split_string rest d"
proof -
  have "takeWhile (\<lambda>c. c \<noteq> d) (w @ d # rest) = w"
    using assms by (subst takeWhile_append2) auto
  then show ?thesis by (subst split_string.simps) (simp add: Let_def)
qed

lemma split_string_last: "d \<notin> set w \<Longrightarrow> w \<noteq> [] \<Longrightarrow> split_string w d = [w]"
proof -
  assume "d \<notin> set w" and "w \<noteq> []"
  moreover from \<open>d \<notin> set w\<close> have "length (takeWhile (\<lambda>c. c \<noteq> d) w) = length w"
    by (intro arg_cong [where f = length]) auto
  ultimately show ?thesis by (subst split_string.simps) (auto simp: Let_def)
qed

text \<open>The tokens hold no delimiter and, each followed by one, give the text back.\<close>

lemma split_string_clean: "w \<in> set (split_string s d) \<Longrightarrow> d \<notin> set w"
proof (induction s d rule: split_string.induct)
  case (1 s d)
  let ?w = "takeWhile (\<lambda>c. c \<noteq> d) s"
  from "1.prems" have ne: "s \<noteq> []" by auto
  then have "split_string s d = ?w # split_string (drop (Suc (length ?w)) s) d"
    by (simp add: split_string.simps [of s d] Let_def)
  with "1.prems" consider "w = ?w" | "w \<in> set (split_string (drop (Suc (length ?w)) s) d)" by auto
  then show ?case
  proof cases
    case 1
    then show ?thesis by (auto dest: set_takeWhileD)
  next
    case 2
    with "1.IH" ne show ?thesis by simp
  qed
qed

lemma split_string_join:
  "concat (map (\<lambda>w. w @ [d]) (split_string s d)) = (if s = [] \<or> last s = d then s else s @ [d])"
proof (induction s d rule: split_string.induct)
  case (1 s d)
  show ?case
  proof (cases "d \<in> set s")
    case True
    then obtain w r where s: "s = w @ d # r" and w: "d \<notin> set w"
      by (auto dest: split_list_first)
    then have t: "takeWhile (\<lambda>c. c \<noteq> d) s = w" by (auto simp: takeWhile_append)
    with 1 s have "concat (map (\<lambda>w. w @ [d]) (split_string r d)) = (if r = [] \<or> last r = d then r else r @ [d])"
      by (simp add: Let_def)
    with s w show ?thesis by (auto simp: split_string_word)
  next
    case False
    then show ?thesis by (cases "s = []") (auto simp: split_string_last dest: last_in_set)
  qed
qed

definition at :: "'a list \<Rightarrow> nat \<Rightarrow> 'a res" where
  "at xs i = (if i < length xs then Inr (xs ! i) else Inl Out_Of_Range)"

definition index_op :: "'a list \<Rightarrow> nat \<Rightarrow> 'a res" where
  "index_op xs i = (if i < length xs then Inr (xs ! i) else Inl Undefined)"

section \<open>Field sections\<close>

text \<open>The chain of \<open>starts_with\<close> tests, in its order; what is removed is the matched name.\<close>

definition builtin_types :: "(string \<times> format_type) list" where
  "builtin_types =
     [(''int8_t'', INT8), (''int16_t'', INT16), (''int32_t'', INT32), (''int64_t'', INT64),
      (''uint8_t'', UINT8), (''uint16_t'', UINT16), (''uint32_t'', UINT32), (''uint64_t'', UINT64),
      (''double'', DOUBLE), (''float'', FLOAT), (''bool'', BOOL), (''char'', CHAR_T)]"

definition builtin_type :: "string \<Rightarrow> (string \<times> format_type) option" where
  "builtin_type ft = find (\<lambda>(n, _). starts_with ft n) builtin_types"

text \<open>The two loops of the \<open>OTHER\<close> case: trim to the last, skip to the first bracket.\<close>

fun skip_to_open :: "string \<Rightarrow> string res" where
  "skip_to_open [] = Inl Undefined"
| "skip_to_open (c # cs) = (if c = CHR ''['' then Inr (c # cs) else skip_to_open cs)"

definition trim_to_open :: "string \<Rightarrow> string res" where
  "trim_to_open s = bindE (skip_to_open (rev s)) (\<lambda>r. Inr (rev r))"

definition other_type :: "string \<Rightarrow> (string \<times> string) res" where
  "other_type ft =
     (if ends_with ft '']'' then
        bindE (trim_to_open ft) (\<lambda>helper.
        bindE (skip_to_open ft) (\<lambda>rest.
        Inr (butlast helper, rest)))
      else Inr (ft, ft))"

definition int_ok :: "int \<Rightarrow> bool" where
  "int_ok i \<longleftrightarrow> - (2 ^ 31) \<le> i \<and> i < 2 ^ 31"

fun array_digits :: "int \<Rightarrow> string \<Rightarrow> int res" where
  "array_digits n [] = Inl Undefined"
| "array_digits n (c # cs) =
     (if c = CHR '']'' then Inr n
      else bindE (requireE (int_ok (10 * n) \<and> int_ok (10 * n + int_of_char c)
                            \<and> int_ok (10 * n + int_of_char c - 48)))
             (\<lambda>_. array_digits (10 * n + int_of_char c - 48) cs))"

definition array_suffix :: "string \<Rightarrow> int res" where
  "array_suffix ft =
     (if ft \<noteq> [] \<and> hd ft = CHR ''['' then
        (case tl ft of [] \<Rightarrow> Inl Undefined | c # cs \<Rightarrow> array_digits (int_of_char c - 48) cs)
      else Inr 1)"

definition field_of_section :: "string \<Rightarrow> field option res" where
  "field_of_section field_section =
     (let field_pair = split_string field_section (CHR '' '') in
      bindE (at field_pair 0) (\<lambda>ft.
      bindE (at field_pair 1) (\<lambda>name.
      bindE (case builtin_type ft of
               Some (n, t) \<Rightarrow> Inr (t, [], drop (length n) ft)
             | None \<Rightarrow> bindE (other_type ft) (\<lambda>(oid, rest). Inr (OTHER, oid, rest)))
        (\<lambda>(t, oid, ft).
      bindE (array_suffix ft) (\<lambda>n.
      if t = UINT64 \<and> name = ''timestamp'' then Inr None
      else Inr (Some \<lparr>field_type = t, field_name = name, other_type_id = oid, array_size = n\<rparr>))))))"

text \<open>One turn of the loop over the field sections: \<open>push_back\<close> unless skipped.\<close>

definition add_section :: "string \<Rightarrow> field list \<Rightarrow> field list res" where
  "add_section field_section fs =
     bindE (field_of_section field_section)
       (\<lambda>f. Inr (fs @ (case f of None \<Rightarrow> [] | Some f \<Rightarrow> [f])))"

text \<open>\<open>None\<close>: the text has no colon.\<close>

definition format_of_text :: "string \<Rightarrow> format option res" where
  "format_of_text str_format =
     (if CHR '':'' \<notin> set str_format then Inr None
      else
        let name = takeWhile (\<lambda>c. c \<noteq> CHR '':'') str_format;
            flds = drop (Suc (length name)) str_format in
        bindE (foldE add_section (split_string flds (CHR '';'')) []) (\<lambda>fs.
        Inr (Some \<lparr>fmt_name = name, fmt_fields = fs, fmt_padding = 0\<rparr>)))"

section \<open>Printing and reading back\<close>

text \<open>The declarations a caller writes, as in \<open>double[3] a;char[3] b1;\<close>.\<close>

fun type_text :: "format_type \<Rightarrow> string" where
  "type_text INT8 = ''int8_t''"
| "type_text INT16 = ''int16_t''"
| "type_text INT32 = ''int32_t''"
| "type_text INT64 = ''int64_t''"
| "type_text UINT8 = ''uint8_t''"
| "type_text UINT16 = ''uint16_t''"
| "type_text UINT32 = ''uint32_t''"
| "type_text UINT64 = ''uint64_t''"
| "type_text DOUBLE = ''double''"
| "type_text FLOAT = ''float''"
| "type_text BOOL = ''bool''"
| "type_text CHAR_T = ''char''"
| "type_text OTHER = []"

definition array_text :: "int \<Rightarrow> string" where
  "array_text n = (if n = 1 then [] else ''['' @ dec_nat (nat n) @ '']'')"

definition field_text :: "field \<Rightarrow> string" where
  "field_text f = (if field_type f = OTHER then other_type_id f else type_text (field_type f))
     @ array_text (array_size f) @ '' '' @ field_name f"

definition plain :: "string \<Rightarrow> bool" where
  "plain s \<longleftrightarrow> s \<noteq> [] \<and> (\<forall>c \<in> set s. c \<notin> set '' ;[]'' \<and> c \<noteq> NUL)"

text \<open>A field a caller can declare and the tokeniser keeps apart.\<close>

definition field_ok :: "field \<Rightarrow> bool" where
  "field_ok f \<longleftrightarrow> plain (field_name f) \<and> 1 \<le> array_size f \<and> array_size f < 10 ^ 9
     \<and> (if field_type f = OTHER then plain (other_type_id f) \<and> builtin_type (other_type_id f) = None
        else other_type_id f = [])
     \<and> \<not> (field_type f = UINT64 \<and> field_name f = ''timestamp'')"

lemma int_of_char_digit: "is_digit c \<Longrightarrow> int_of_char c = int (of_char c)"
proof -
  assume "is_digit c"
  then have "(of_char c :: nat) < 128" by (simp add: is_digit_def)
  moreover have "sint (word_of_nat n :: 8 word) = int n" if "n < 128" for n
    using that by (simp add: signed_of_nat signed_take_bit_int_eq_self)
  ultimately show ?thesis by (simp add: int_of_char_def byte_of_char_def)
qed

lemma array_digits_read:
  assumes "\<forall>c \<in> set ds. is_digit c" and "foldl (\<lambda>a c. 10 * a + (of_char c - 48)) a ds < 10 ^ 9"
  shows "array_digits (int a) (ds @ CHR '']'' # rest) =
    Inr (int (foldl (\<lambda>a c. 10 * a + (of_char c - 48)) a ds))"
  using assms
proof (induction ds arbitrary: a)
  case Nil
  then show ?case by simp
next
  case (Cons c ds)
  let ?a = "10 * a + (of_char c - 48) :: nat"
  have grow: "b \<le> foldl (\<lambda>a c. 10 * a + (of_char c - 48)) b ds" for b :: nat
  proof (induction ds arbitrary: b)
    case Nil
    then show ?case by simp
  next
    case (Cons d ds)
    have "b \<le> 10 * b + (of_char d - 48)" by simp
    also have "\<dots> \<le> foldl (\<lambda>a c. 10 * a + (of_char c - 48)) (10 * b + (of_char d - 48)) ds" by (rule Cons)
    finally show ?case by simp
  qed
  have d: "is_digit c" using Cons.prems by simp
  then have c: "c \<noteq> CHR '']''" "48 \<le> (of_char c :: nat)" "(of_char c :: nat) \<le> 57"
    by (auto simp: is_digit_def)
  have "?a < 10 ^ 9" using grow [of ?a] Cons.prems(2) by simp
  then have ok: "int_ok (10 * int a) \<and> int_ok (10 * int a + int_of_char c)
      \<and> int_ok (10 * int a + int_of_char c - 48)"
    using c by (auto simp: int_ok_def int_of_char_digit [OF d])
  have step: "10 * int a + int_of_char c - 48 = int ?a"
    using c by (simp add: int_of_char_digit [OF d] of_nat_diff)
  have "array_digits (int ?a) (ds @ CHR '']'' # rest)
      = Inr (int (foldl (\<lambda>a c. 10 * a + (of_char c - 48)) ?a ds))"
    using Cons.prems by (intro Cons.IH) auto
  with c ok show ?case by (simp add: step)
qed

lemma array_suffix_text:
  assumes "1 \<le> n" and "n < 10 ^ 9"
  shows "array_suffix (array_text n) = Inr n"
proof (cases "n = 1")
  case True
  then show ?thesis by (simp add: array_suffix_def array_text_def)
next
  case False
  obtain c ds where cds: "dec_nat (nat n) = c # ds" by (meson dec_nat_nonempty list.exhaust)
  then have dig: "is_digit c" "\<forall>d \<in> set ds. is_digit d"
    using dec_nat_digits [of "nat n"] by auto
  have val: "foldl (\<lambda>a c. 10 * a + (of_char c - 48)) (of_char c - 48) ds = nat n"
    using digits_val_dec_nat [of "nat n"] unfolding digits_val_def cds by simp
  have "int_of_char c - 48 = int (of_char c - 48)"
    using dig(1) by (auto simp: int_of_char_digit is_digit_def of_nat_diff)
  moreover have "array_digits (int (of_char c - 48)) (ds @ '']'') = Inr n"
    using array_digits_read [OF dig(2), of "of_char c - 48" "[]"] assms by (simp add: val)
  ultimately show ?thesis
    using False cds by (simp add: array_suffix_def array_text_def)
qed

lemma builtin_type_text:
  assumes "t \<noteq> OTHER"
  shows "builtin_type (type_text t @ s) = Some (type_text t, t)"
  using assms by (cases t) (simp_all add: builtin_type_def builtin_types_def starts_with_def)

lemma starts_with_builtin_append:
  assumes "builtin_type s = None" and "CHR ''['' \<notin> set s"
  shows "builtin_type (s @ array_text n) = None"
proof -
  have "\<not> starts_with (s @ array_text n) b" if b: "(b, t) \<in> set builtin_types" for b t
  proof
    assume st: "starts_with (s @ array_text n) b"
    have nb: "CHR ''['' \<notin> set b" using b by (auto simp: builtin_types_def)
    have "length b \<le> length s"
    proof (rule ccontr)
      assume "\<not> length b \<le> length s"
      then have "b = s @ take (length b - length s) (array_text n)" and "0 < length b - length s"
        using st by (simp_all add: starts_with_def)
      then show False using nb st
        by (cases "n = 1"; cases "length b - length s")
          (auto simp: array_text_def starts_with_def dest: arg_cong [where f = length])
    qed
    then have "starts_with s b" using st by (simp add: starts_with_def)
    with b assms(1) show False
      by (auto simp: builtin_type_def find_None_iff)
  qed
  then show ?thesis by (auto simp: builtin_type_def find_None_iff)
qed

lemma skip_to_open_append:
  "CHR ''['' \<notin> set s \<Longrightarrow> skip_to_open (s @ CHR ''['' # r) = Inr (CHR ''['' # r)"
  by (induction s) auto

lemma dec_nat_no_bracket: "CHR ''['' \<notin> set (dec_nat n)" "CHR '']'' \<notin> set (dec_nat n)"
    "CHR '' '' \<notin> set (dec_nat n)" "CHR '';'' \<notin> set (dec_nat n)" "CHR '':'' \<notin> set (dec_nat n)"
    "NUL \<notin> set (dec_nat n)"
  using dec_nat_digits [of n] by (auto simp: is_digit_def NUL_def)

lemma other_type_text:
  assumes "plain s"
  shows "other_type (s @ array_text n) = Inr (s, if n = 1 then s else array_text n)"
proof (cases "n = 1")
  case True
  have "\<not> ends_with s '']''"
  proof
    assume "ends_with s '']''"
    then have "CHR '']'' \<in> set s"
      unfolding ends_with_def by (metis in_set_dropD list.set_intros(1))
    with assms show False by (auto simp: plain_def)
  qed
  with True show ?thesis by (simp add: other_type_def array_text_def)
next
  case False
  let ?d = "dec_nat (nat n)"
  have s: "CHR ''['' \<notin> set s" using assms by (auto simp: plain_def)
  have e: "ends_with (s @ ''['' @ ?d @ '']'') '']''"
    using ends_with_append [of "s @ ''['' @ ?d" "'']''"] by simp
  have "skip_to_open ((CHR '']'' # rev ?d) @ CHR ''['' # rev s) = Inr (CHR ''['' # rev s)"
    using dec_nat_no_bracket by (intro skip_to_open_append) auto
  then have "trim_to_open (s @ ''['' @ ?d @ '']'') = Inr (s @ ''['')"
    by (simp add: trim_to_open_def)
  with False s e show ?thesis
    by (simp add: other_type_def array_text_def skip_to_open_append butlast_append)
qed

lemma plain_ne: "plain s \<Longrightarrow> s \<noteq> []"
  by (simp add: plain_def)

lemma plain_no: "plain s \<Longrightarrow> CHR '' '' \<notin> set s \<and> CHR '';'' \<notin> set s \<and> CHR ''['' \<notin> set s \<and> NUL \<notin> set s"
  by (auto simp: plain_def)

lemma type_text_no:
  "CHR '' '' \<notin> set (type_text t)" "CHR '';'' \<notin> set (type_text t)" "NUL \<notin> set (type_text t)"
  by (cases t; simp add: NUL_def)+

lemma array_text_no:
  "CHR '' '' \<notin> set (array_text n)" "CHR '';'' \<notin> set (array_text n)" "NUL \<notin> set (array_text n)"
  using dec_nat_no_bracket by (auto simp: array_text_def NUL_def)

text \<open>How the declaration of a field may be written: an array of one scalar with or without its size.\<close>

definition section_of :: "string \<Rightarrow> field \<Rightarrow> bool" where
  "section_of s f \<longleftrightarrow> field_ok f \<and>
     (s = field_text f \<or>
      field_type f \<noteq> OTHER \<and> array_size f = 1 \<and> s = type_text (field_type f) @ ''[1]'' @ '' '' @ field_name f)"

lemma array_suffix_one: "array_suffix ''[1]'' = Inr 1"
  by (simp add: array_suffix_def int_of_char_digit is_digit_def)

text \<open>Reading a declared field gives the field; its name may carry any blank-free suffix.\<close>

lemma field_of_section_scalar:
  assumes t: "field_type f \<noteq> OTHER" and ok: "field_ok f" and arr: "array_suffix a = Inr (array_size f)" "CHR '' '' \<notin> set a"
    and sfx: "CHR '' '' \<notin> set sfx" and ts: "\<not> (field_type f = UINT64 \<and> field_name f @ sfx = ''timestamp'')"
  shows "field_of_section (type_text (field_type f) @ a @ '' '' @ field_name f @ sfx) = Inr (Some (f\<lparr>field_name := field_name f @ sfx\<rparr>))"
proof -
  let ?ft = "type_text (field_type f) @ a"
  have nosp: "CHR '' '' \<notin> set ?ft" using arr(2) type_text_no(1) by simp
  have name: "CHR '' '' \<notin> set (field_name f @ sfx)" "field_name f @ sfx \<noteq> []"
    using ok sfx plain_no plain_ne by (simp_all add: field_ok_def)
  have pair: "split_string (?ft @ '' '' @ field_name f @ sfx) (CHR '' '') = [?ft, field_name f @ sfx]"
    using split_string_word [OF nosp, of "field_name f @ sfx"] unfolding split_string_last [OF name] by simp
  have rec: "f\<lparr>field_name := x\<rparr> = \<lparr>field_type = field_type f, field_name = x,
      other_type_id = other_type_id f, array_size = array_size f\<rparr>" for x
    by (cases f) simp
  have "builtin_type ?ft = Some (type_text (field_type f), field_type f)" using t by (rule builtin_type_text)
  moreover have "other_type_id f = []" using ok t by (simp add: field_ok_def)
  ultimately show ?thesis
    using pair t arr(1) ts unfolding field_of_section_def rec by (simp add: at_def Let_def)
qed

lemma field_of_section_text:
  assumes ok: "field_ok f" and sfx: "CHR '' '' \<notin> set sfx"
    and ts: "\<not> (field_type f = UINT64 \<and> field_name f @ sfx = ''timestamp'')"
  shows "field_of_section (field_text f @ sfx) = Inr (Some (f\<lparr>field_name := field_name f @ sfx\<rparr>))"
proof -
  let ?t = "if field_type f = OTHER then other_type_id f else type_text (field_type f)"
  let ?ft = "?t @ array_text (array_size f)"
  have nosp: "CHR '' '' \<notin> set ?ft"
    using ok array_text_no type_text_no plain_no
    by (cases "field_type f = OTHER") (simp_all add: field_ok_def)
  have name: "CHR '' '' \<notin> set (field_name f @ sfx)" "field_name f @ sfx \<noteq> []"
    using ok sfx plain_no plain_ne by (simp_all add: field_ok_def)
  have pair: "split_string (field_text f @ sfx) (CHR '' '') = [?ft, field_name f @ sfx]"
    using split_string_word [OF nosp, of "field_name f @ sfx"]
    unfolding field_text_def split_string_last [OF name] by (simp del: if_split)
  have n: "array_suffix (array_text (array_size f)) = Inr (array_size f)"
    using ok by (intro array_suffix_text) (simp_all add: field_ok_def)
  have rec: "f\<lparr>field_name := x\<rparr> = \<lparr>field_type = field_type f, field_name = x,
      other_type_id = other_type_id f, array_size = array_size f\<rparr>" for x
    by (cases f) simp
  show ?thesis
  proof (cases "field_type f = OTHER")
    case False
    then show ?thesis
      using field_of_section_scalar [OF False ok n array_text_no(1) sfx ts] by (simp add: field_text_def)
  next
    case True
    with ok have p: "plain (other_type_id f)" "builtin_type (other_type_id f) = None"
      by (simp_all add: field_ok_def)
    have "array_suffix (if array_size f = 1 then other_type_id f else array_text (array_size f))
        = Inr (array_size f)"
    proof (cases "array_size f = 1")
      case True
      have "hd (other_type_id f) \<noteq> CHR ''[''"
        using plain_no [OF p(1)] plain_ne [OF p(1)] by (metis list.set_sel(1))
      with True show ?thesis by (simp add: array_suffix_def)
    next
      case False
      with n show ?thesis by simp
    qed
    moreover have "builtin_type (other_type_id f @ array_text (array_size f)) = None"
      using p plain_no by (intro starts_with_builtin_append) auto
    moreover note other_type_text [OF p(1), of "array_size f"]
    ultimately show ?thesis
      unfolding field_of_section_def Let_def pair rec using True ts by (simp add: at_def)
  qed
qed

lemma field_of_section_of:
  assumes "section_of s f" and sfx: "CHR '' '' \<notin> set sfx"
    and ts: "\<not> (field_type f = UINT64 \<and> field_name f @ sfx = ''timestamp'')"
  shows "field_of_section (s @ sfx) = Inr (Some (f\<lparr>field_name := field_name f @ sfx\<rparr>))"
proof -
  have ok: "field_ok f" using assms(1) by (simp add: section_of_def)
  from assms(1) consider "s = field_text f"
    | "field_type f \<noteq> OTHER" "array_size f = 1" "s = type_text (field_type f) @ ''[1]'' @ '' '' @ field_name f"
    unfolding section_of_def by blast
  then show ?thesis
  proof cases
    case 1
    then show ?thesis using field_of_section_text [OF ok sfx ts] by simp
  next
    case 2
    then show ?thesis
      using field_of_section_scalar [OF 2(1) ok, of "''[1]''" sfx] array_suffix_one sfx ts by simp
  qed
qed

text \<open>A whole format: the declarations, each closed by a semicolon.\<close>

definition sections_text :: "string list \<Rightarrow> string" where
  "sections_text ss = concat (map (\<lambda>s. s @ '';'') ss)"

definition fields_text :: "field list \<Rightarrow> string" where
  "fields_text fs = sections_text (map field_text fs)"

definition declares :: "string \<Rightarrow> field list \<Rightarrow> bool" where
  "declares t fs \<longleftrightarrow> (\<exists>ss. t = sections_text ss \<and> list_all2 section_of ss fs)"

lemma declares_fields_text: "\<forall>f \<in> set fs. field_ok f \<Longrightarrow> declares (fields_text fs) fs"
  unfolding declares_def fields_text_def
  by (intro exI [of _ "map field_text fs"]) (simp add: section_of_def list_all2_conv_all_nth)

lemma split_string_concat:
  assumes "\<forall>w \<in> set ws. d \<notin> set w"
  shows "split_string (concat (map (\<lambda>w. w @ [d]) ws) @ rest) d = ws @ split_string rest d"
  using assms by (induction ws) (auto simp: split_string_word)

lemma field_text_no:
  assumes "field_ok f"
  shows "CHR '';'' \<notin> set (field_text f)" "NUL \<notin> set (field_text f)"
proof -
  have "plain (field_name f)" and "field_type f = OTHER \<Longrightarrow> plain (other_type_id f)"
    using assms by (simp_all add: field_ok_def)
  then show "CHR '';'' \<notin> set (field_text f)" "NUL \<notin> set (field_text f)"
    using type_text_no array_text_no plain_no by (auto simp: field_text_def NUL_def)
qed

lemma section_of_no: "section_of s f \<Longrightarrow> CHR '';'' \<notin> set s \<and> NUL \<notin> set s \<and> s \<noteq> []"
  using field_text_no [of f] type_text_no [of "field_type f"] plain_no [of "field_name f"]
  by (auto simp: section_of_def field_ok_def NUL_def) (simp_all add: field_text_def)

lemma field_of_section_timestamp: "field_of_section ''uint64_t timestamp'' = Inr None"
proof -
  have "split_string ''uint64_t timestamp'' (CHR '' '') = [''uint64_t'', ''timestamp'']"
    using split_string_word [of "CHR '' ''" "''uint64_t''" "''timestamp''"]
      split_string_last [of "CHR '' ''" "''timestamp''"] by simp
  then show ?thesis
    by (simp add: field_of_section_def at_def builtin_type_def builtin_types_def starts_with_def
        array_suffix_def)
qed

lemma add_sections_text:
  "list_all2 section_of ss fs \<Longrightarrow> foldE add_section ss acc = Inr (acc @ fs)"
proof (induction ss fs arbitrary: acc rule: list_all2_induct)
  case Nil
  then show ?case by simp
next
  case (Cons s ss f fs)
  have "field_of_section (s @ []) = Inr (Some (f\<lparr>field_name := field_name f @ []\<rparr>))"
    using Cons.hyps(1) by (intro field_of_section_of) (auto simp: section_of_def field_ok_def)
  with Cons.IH show ?case by (simp add: add_section_def)
qed

text \<open>
  The text as \<open>register_data_format\<close> composes it, cut after the last declaration's name and
  continued with \<open>sfx\<close>.
\<close>

lemma format_of_text_sfx:
  assumes name: "CHR '':'' \<notin> set name"
    and ok: "list_all2 section_of ss fs" "section_of s f"
    and sfx: "CHR '' '' \<notin> set sfx" "CHR '';'' \<notin> set sfx"
    and ts: "\<not> (field_type f = UINT64 \<and> field_name f @ sfx = ''timestamp'')"
  shows "format_of_text (name @ '':uint64_t timestamp;'' @ sections_text ss @ s @ sfx)
    = Inr (Some \<lparr>fmt_name = name, fmt_fields = fs @ [f\<lparr>field_name := field_name f @ sfx\<rparr>],
                 fmt_padding = 0\<rparr>)"
proof -
  let ?sections = "''uint64_t timestamp'' # ss"
  let ?rest = "s @ sfx"
  have flds: "''uint64_t timestamp;'' @ sections_text ss @ ?rest
      = concat (map (\<lambda>w. w @ '';'') ?sections) @ ?rest"
    by (simp add: sections_text_def)
  have "\<forall>w \<in> set ss. CHR '';'' \<notin> set w"
    using ok(1) section_of_no by (metis in_set_conv_nth list_all2_conv_all_nth)
  then have clean: "\<forall>w \<in> set ?sections. CHR '';'' \<notin> set w" by simp
  have "?rest \<noteq> []" using section_of_no [OF ok(2)] by simp
  then have "split_string ?rest (CHR '';'') = [?rest]"
    using section_of_no [OF ok(2)] sfx by (intro split_string_last) auto
  then have split: "split_string (''uint64_t timestamp;'' @ sections_text ss @ ?rest) (CHR '';'')
      = ?sections @ [?rest]"
    unfolding flds split_string_concat [OF clean] by simp
  have "foldE add_section (?sections @ [?rest]) [] =
      Inr (fs @ [f\<lparr>field_name := field_name f @ sfx\<rparr>])"
    using ok sfx ts
    by (simp add: foldE_append add_section_def [of "''uint64_t timestamp''"] field_of_section_timestamp
        add_sections_text field_of_section_of add_section_def [of ?rest])
  moreover have "takeWhile (\<lambda>c. c \<noteq> CHR '':'') (name @ '':uint64_t timestamp;'' @ sections_text ss @ ?rest) = name"
    using name by (subst takeWhile_append2) auto
  ultimately show ?thesis
    using split by (simp add: format_of_text_def Let_def)
qed

end
