(* ===== verification/Numbers.thy ===== *)
theory Numbers
  imports Complex_Main Prelude
begin

text \<open>
  The arithmetic conversions the parser uses: \<open>static_cast<double>\<close> of an integer or of a
  \<open>float\<close>, and \<open>std::to_string\<close> of a \<open>float\<close> or \<open>double\<close>. A \<open>double\<close> is its IEEE 754
  binary64 image (\<open>64 word\<close>), a \<open>float\<close> its binary32 image (\<open>32 word\<close>).
\<close>

type_synonym double = "64 word"
type_synonym float32 = "32 word"

text \<open>\<open>Fin s m e\<close> is \<open>(-1)\<^sup>s * m * 2\<^sup>e\<close>.\<close>

datatype fp = Fin bool nat int | Inf bool | Nan bool

definition decode_double :: "double \<Rightarrow> fp" where
  "decode_double w =
     (let n = unat w; s = odd (n div 2 ^ 63); e = n div 2 ^ 52 mod 2 ^ 11; m = n mod 2 ^ 52 in
      if e = 2047 then (if m = 0 then Inf s else Nan s)
      else if e = 0 then Fin s m (- 1074)
      else Fin s (m + 2 ^ 52) (int e - 1075))"

definition decode_float :: "float32 \<Rightarrow> fp" where
  "decode_float w =
     (let n = unat w; s = odd (n div 2 ^ 31); e = n div 2 ^ 23 mod 2 ^ 8; m = n mod 2 ^ 23 in
      if e = 255 then (if m = 0 then Inf s else Nan s)
      else if e = 0 then Fin s m (- 149)
      else Fin s (m + 2 ^ 23) (int e - 150))"

fun fp_value :: "fp \<Rightarrow> real option" where
  "fp_value (Fin s m e) = Some ((if s then - 1 else 1) * real m * 2 powi e)"
| "fp_value _ = None"

fun flog2 :: "nat \<Rightarrow> nat" where
  "flog2 n = (if n < 2 then 0 else Suc (flog2 (n div 2)))"

declare flog2.simps [simp del]

lemma flog2_bounds: "0 < n \<Longrightarrow> 2 ^ flog2 n \<le> n \<and> n < 2 ^ Suc (flog2 n)"
proof (induction n rule: flog2.induct)
  case (1 n)
  show ?case
  proof (cases "n < 2")
    case True
    with "1.prems" show ?thesis by (subst (1 2) flog2.simps) simp
  next
    case False
    with 1 have "2 ^ flog2 (n div 2) \<le> n div 2 \<and> n div 2 < 2 ^ Suc (flog2 (n div 2))"
      by simp
    with False show ?thesis by (subst (1 2) flog2.simps) auto
  qed
qed

lemma flog2_le: "0 < n \<Longrightarrow> n < 2 ^ Suc k \<Longrightarrow> flog2 n \<le> k"
  using flog2_bounds [of n] power_less_imp_less_exp [of "2 :: nat" "flog2 n" "Suc k"] by simp

definition round_half_even :: "nat \<Rightarrow> nat \<Rightarrow> nat" where
  "round_half_even x d =
     (let q = x div d; r = x mod d in if d < 2 * r \<or> (2 * r = d \<and> odd q) then q + 1 else q)"

text \<open>
  The image of \<open>(-1)\<^sup>s * n * 2\<^sup>e\<close> for a result in the range of normal numbers: the leading
  one is dropped from the fraction, a rounding carry moves into the exponent.
\<close>

definition pack_double :: "bool \<Rightarrow> nat \<Rightarrow> int \<Rightarrow> double" where
  "pack_double s n e =
     (if n = 0 then word_of_nat (of_bool s * 2 ^ 63)
      else let k = flog2 n;
               frac = (if k \<le> 52 then n * 2 ^ (52 - k) else round_half_even n (2 ^ (k - 52))) in
           word_of_nat (of_bool s * 2 ^ 63 + nat (int k + e + 1023) * 2 ^ 52 + (frac - 2 ^ 52)))"

definition double_of_int :: "int \<Rightarrow> double" where
  "double_of_int i = pack_double (i < 0) (nat \<bar>i\<bar>) 0"

definition double_of_float :: "float32 \<Rightarrow> double" where
  "double_of_float w =
     (case decode_float w of
        Fin s m e \<Rightarrow> pack_double s m e
      | Inf s \<Rightarrow> word_of_nat (of_bool s * 2 ^ 63 + 2047 * 2 ^ 52)
      | Nan s \<Rightarrow> word_of_nat (of_bool s * 2 ^ 63 + 2047 * 2 ^ 52 + 2 ^ 51 + unat w mod 2 ^ 22 * 2 ^ 29))"

text \<open>\<open>std::to_string\<close>: the text \<open>%f\<close> prints, six digits after the point, halves to even.\<close>

definition fmt_f :: "double \<Rightarrow> string" where
  "fmt_f w =
     (case decode_double w of
        Fin s m e \<Rightarrow>
          (let n = (if 0 \<le> e then m * 2 ^ nat e * 10 ^ 6
                    else round_half_even (m * 10 ^ 6) (2 ^ nat (- e))) in
           (if s then ''-'' else []) @ dec_nat (n div 10 ^ 6) @ ''.''
             @ pad_left (CHR ''0'') 6 (dec_nat (n mod 10 ^ 6)))
      | Inf s \<Rightarrow> (if s then ''-inf'' else ''inf'')
      | Nan s \<Rightarrow> (if s then ''-nan'' else ''nan''))"

definition int_to_hex :: "32 word \<Rightarrow> string" where
  "int_to_hex i = ''0x'' @ pad_left (CHR ''0'') 8 (digits_in 16 (unat i))"

section \<open>Exactness\<close>

lemma pow_powi: "(2 :: real) ^ j * 2 powi (e - int j) = 2 powi e"
  by (simp add: power_int_diff)

lemma decode_pack:
  assumes n: "0 < n" "flog2 n \<le> 52"
    and e: "0 < int (flog2 n) + e + 1023" "int (flog2 n) + e + 1023 < 2047"
  shows "decode_double (pack_double s n e) = Fin s (n * 2 ^ (52 - flog2 n)) (e - int (52 - flog2 n))"
proof -
  let ?k = "flog2 n"
  let ?f = "n * 2 ^ (52 - ?k)"
  define E where "E = nat (int ?k + e + 1023)"
  define F where "F = ?f - 2 ^ 52"
  have b: "2 ^ ?k \<le> n" "n < 2 ^ Suc ?k" using flog2_bounds n by auto
  have split: "(2 :: nat) ^ 52 = 2 ^ ?k * 2 ^ (52 - ?k)"
    using n by (simp add: power_add [symmetric])
  have lo: "2 ^ 52 \<le> ?f" unfolding split using b by simp
  have "?f < 2 ^ Suc ?k * 2 ^ (52 - ?k)" using b by simp
  also have "\<dots> = 2 * 2 ^ 52" unfolding split by simp
  finally have hi: "?f < 2 * 2 ^ 52" .
  have F: "F < 2 ^ 52" "F + 2 ^ 52 = ?f" using lo hi by (auto simp: F_def)
  have E: "0 < E" "E < 2047" "int E = int ?k + e + 1023" using e by (auto simp: E_def)
  have bound: "of_bool s * 2 ^ 63 + E * 2 ^ 52 + F < 2 ^ 64" using E F by (cases s) auto
  have w: "unat (pack_double s n e) = of_bool s * 2 ^ 63 + E * 2 ^ 52 + F"
  proof -
    have "pack_double s n e = word_of_nat (of_bool s * 2 ^ 63 + E * 2 ^ 52 + F)"
      using n unfolding pack_double_def Let_def E_def F_def by simp
    then have "unat (pack_double s n e) = (of_bool s * 2 ^ 63 + E * 2 ^ 52 + F) mod 2 ^ LENGTH(64)"
      by (simp only: unat_of_nat)
    also have "\<dots> = of_bool s * 2 ^ 63 + E * 2 ^ 52 + F"
      using bound by (intro mod_less) simp
    finally show ?thesis .
  qed
  have m: "(of_bool s * 2 ^ 63 + E * 2 ^ 52 + F) mod 2 ^ 52 = F"
  proof -
    have "of_bool s * 2 ^ 63 + E * 2 ^ 52 + F = F + (of_bool s * 2 ^ 11 + E) * 2 ^ 52" by simp
    also have "\<dots> mod 2 ^ 52 = F mod 2 ^ 52" by (rule mod_mult_self1)
    also have "\<dots> = F" using F(1) by (rule mod_less)
    finally show ?thesis .
  qed
  have d: "(of_bool s * 2 ^ 63 + E * 2 ^ 52 + F) div 2 ^ 52 = of_bool s * 2 ^ 11 + E"
  proof -
    have "of_bool s * 2 ^ 63 + E * 2 ^ 52 + F = F + (of_bool s * 2 ^ 11 + E) * 2 ^ 52" by simp
    also have "\<dots> div 2 ^ 52 = of_bool s * 2 ^ 11 + E + F div 2 ^ 52" by (rule div_mult_self1) simp
    also have "F div 2 ^ 52 = 0" using F(1) by (rule div_less)
    finally show ?thesis by simp
  qed
  have x: "(of_bool s * 2 ^ 11 + E) mod 2 ^ 11 = E" using E by (cases s) auto
  have s: "(of_bool s * 2 ^ 63 + E * 2 ^ 52 + F) div 2 ^ 63 = of_bool s"
    using E F by (cases s) auto
  show ?thesis
    unfolding decode_double_def Let_def w m d x s using E F n by auto
qed

text \<open>Every integer of at most 53 bits is represented exactly.\<close>

lemma double_of_int_exact:
  assumes "\<bar>i\<bar> < 2 ^ 53"
  shows "fp_value (decode_double (double_of_int i)) = Some (of_int i)"
proof (cases "i = 0")
  case True
  then show ?thesis
    by (simp add: double_of_int_def pack_double_def decode_double_def)
next
  case False
  let ?n = "nat \<bar>i\<bar>"
  have n: "0 < ?n" "?n < 2 ^ Suc 52" using False assms by auto
  then have k: "flog2 ?n \<le> 52" by (rule flog2_le)
  have "decode_double (double_of_int i) =
      Fin (i < 0) (?n * 2 ^ (52 - flog2 ?n)) (0 - int (52 - flog2 ?n))"
    unfolding double_of_int_def using n k by (intro decode_pack) auto
  moreover have "real (?n * 2 ^ (52 - flog2 ?n)) * 2 powi (0 - int (52 - flog2 ?n)) = real ?n"
    using pow_powi [of "52 - flog2 ?n" 0] by (simp only: of_nat_mult of_nat_power of_nat_numeral mult.assoc) simp
  moreover have "(if i < 0 then - 1 else 1) * real ?n = of_int i" by auto
  ultimately show ?thesis by (simp only: fp_value.simps mult.assoc)
qed

text \<open>Every finite \<open>float\<close> is widened exactly.\<close>

lemma double_of_float_exact:
  assumes "decode_float w = Fin s m e"
  shows "fp_value (decode_double (double_of_float w)) = fp_value (Fin s m e)"
proof (cases "m = 0")
  case True
  then show ?thesis
    using assms by (cases s) (simp_all add: double_of_float_def pack_double_def decode_double_def)
next
  case False
  have em: "m < 2 ^ Suc 23 \<and> - 149 \<le> e \<and> e \<le> 104"
  proof -
    have "unat w div 2 ^ 23 mod 2 ^ 8 \<noteq> 255 \<Longrightarrow> unat w div 2 ^ 23 mod 2 ^ 8 < 255"
      using mod_less_divisor [of "2 ^ 8" "unat w div 2 ^ 23"] by simp
    with assms show ?thesis
      by (auto simp: decode_float_def Let_def split: if_splits)
  qed
  then have k: "flog2 m \<le> 23" using False by (intro flog2_le) auto
  have "double_of_float w = pack_double s m e"
    using assms by (simp add: double_of_float_def)
  moreover have "decode_double (pack_double s m e) = Fin s (m * 2 ^ (52 - flog2 m)) (e - int (52 - flog2 m))"
    using False em k by (intro decode_pack) auto
  moreover have "real (m * 2 ^ (52 - flog2 m)) * 2 powi (e - int (52 - flog2 m)) = real m * 2 powi e"
    using pow_powi [of "52 - flog2 m" e] by (simp only: of_nat_mult of_nat_power of_nat_numeral mult.assoc)
  ultimately show ?thesis by (simp only: fp_value.simps mult.assoc)
qed

end
