(* ===== verification/Timeseries.thy ===== *)
theory Timeseries
  imports Formats Numbers
begin

text \<open>
  The channels of a format and the decoding of a data payload: \<open>Timeseries\<close>,
  \<open>MessageData\<close>, \<open>get_latest_data\<close>, \<open>create_timeseries\<close> and \<open>parse_data_intl\<close>. Both
  walks recurse into the formats a field names; their first argument is the number of
  nested calls the stack has room for, since a format that names itself recurses for ever.
\<close>

type_synonym formats = "string \<rightharpoonup> format"
type_synonym channel = "string \<times> double list"

record message_data =
  md_name :: string
  md_timestamp :: "64 word"
  structured_data :: "(string \<times> double) list"

record timeseries =
  timestamps :: "64 word list"
  ts_data :: "channel list"

text \<open>\<open>back()\<close> of an empty vector is undefined.\<close>

definition vec_back :: "'a list \<Rightarrow> 'a res" where
  "vec_back xs = (if xs = [] then Inl Undefined else Inr (last xs))"

definition get_latest_data :: "timeseries \<Rightarrow> string \<Rightarrow> message_data res" where
  "get_latest_data ts name =
     bindE (vec_back (timestamps ts)) (\<lambda>t.
     bindE (foldE (\<lambda>el md. bindE (vec_back (snd el)) (\<lambda>v. Inr (md @ [(fst el, v)]))) (ts_data ts) [])
       (\<lambda>sd. Inr \<lparr>md_name = name, md_timestamp = t, structured_data = sd\<rparr>))"

section \<open>Channels\<close>

definition is_padding :: "field \<Rightarrow> bool" where
  "is_padding f \<longleftrightarrow> starts_with (field_name f) ''_padding''"

text \<open>The iterations of \<open>for (int i = 0; i < field.array_size_; i++)\<close>.\<close>

definition indices :: "field \<Rightarrow> nat list" where
  "indices f = [0..<nat (array_size f)]"

text \<open>
  The two nested loops both walks share: fields whose name starts with \<open>_padding\<close> are
  handled by \<open>pad\<close>, every element of another field by \<open>elem\<close>.
\<close>

definition walk ::
    "(field \<Rightarrow> 's \<Rightarrow> 's res) \<Rightarrow> (field \<Rightarrow> nat \<Rightarrow> 's \<Rightarrow> 's res) \<Rightarrow> field list \<Rightarrow> 's \<Rightarrow> 's res" where
  "walk pad elem flds s =
     foldE (\<lambda>f s. if is_padding f then pad f s else foldE (elem f) (indices f) s) flds s"

lemma walk_sim:
  assumes "walk pad elem flds s = Inr s'" and "R s t"
    and "\<And>f s s' t. f \<in> set flds \<Longrightarrow> R s t \<Longrightarrow> pad f s = Inr s' \<Longrightarrow> \<exists>t'. pad' f t = Inr t' \<and> R s' t'"
    and "\<And>f i s s' t. f \<in> set flds \<Longrightarrow> R s t \<Longrightarrow> elem f i s = Inr s' \<Longrightarrow>
           \<exists>t'. elem' f i t = Inr t' \<and> R s' t'"
  shows "\<exists>t'. walk pad' elem' flds t = Inr t' \<and> R s' t'"
  using assms(1,2) unfolding walk_def
proof (rule foldE_sim)
  fix f s s' t
  assume f: "f \<in> set flds" "R s t"
    and step: "(if is_padding f then pad f s else foldE (elem f) (indices f) s) = Inr s'"
  show "\<exists>t'. (if is_padding f then pad' f t else foldE (elem' f) (indices f) t) = Inr t' \<and> R s' t'"
  proof (cases "is_padding f")
    case True
    with step f assms(3) show ?thesis by simp
  next
    case False
    with step have "foldE (elem f) (indices f) s = Inr s'" by simp
    from this f(2) have "\<exists>t'. foldE (elem' f) (indices f) t = Inr t' \<and> R s' t'"
      by (rule foldE_sim) (rule assms(4) [OF f(1)])
    with False show ?thesis by simp
  qed
qed

lemma walk_mono:
  assumes "walk pad elem flds s = Inr t"
    and "\<And>f i s t. f \<in> set flds \<Longrightarrow> elem f i s = Inr t \<Longrightarrow> elem' f i s = Inr t"
  shows "walk pad elem' flds s = Inr t"
  using walk_sim [of pad elem flds s t "(=)" s pad elem'] assms by auto

text \<open>\<open>sprintf(buff, ".%02d", i)\<close> into ten bytes.\<close>

definition dot_02d :: "nat \<Rightarrow> string res" where
  "dot_02d i = (let s = ''.'' @ pad_left (CHR ''0'') 2 (dec_nat i) in
     if length s < 10 then Inr s else Inl Undefined)"

lemma dot_00: "dot_02d 0 = Inr ''.00''"
  by (simp add: dot_02d_def pad_left_def dec_nat_def digits_in.simps digit_chars)

definition element_suffix :: "field \<Rightarrow> nat \<Rightarrow> string res" where
  "element_suffix f i = (if 1 < array_size f then dot_02d i else Inr [])"

definition channel_elem ::
    "(field list \<Rightarrow> string \<Rightarrow> channel list \<Rightarrow> channel list res) \<Rightarrow> formats \<Rightarrow> string \<Rightarrow> field \<Rightarrow> nat
     \<Rightarrow> channel list \<Rightarrow> channel list res" where
  "channel_elem rec formats prefix f i data =
     bindE (element_suffix f i) (\<lambda>array_suffix.
     let name = prefix @ ''/'' @ field_name f @ array_suffix in
     if field_type f \<noteq> OTHER then Inr (data @ [(name, [])])
     else bindE (lookup_at formats (other_type_id f)) (\<lambda>g. rec (fmt_fields g) name data))"

fun append_vector :: "nat \<Rightarrow> formats \<Rightarrow> field list \<Rightarrow> string \<Rightarrow> channel list \<Rightarrow> channel list res" where
  "append_vector 0 formats flds prefix data = Inl Stack_Overflow"
| "append_vector (Suc d) formats flds prefix data =
     walk (\<lambda>f data. Inr data)
       (channel_elem (\<lambda>flds prefix data. append_vector d formats flds prefix data) formats prefix)
       flds data"

definition create_timeseries :: "nat \<Rightarrow> formats \<Rightarrow> format \<Rightarrow> timeseries res" where
  "create_timeseries d formats fmt =
     bindE (append_vector d formats (fmt_fields fmt) [] []) (\<lambda>data.
     Inr \<lparr>timestamps = [], ts_data = data\<rparr>)"

section \<open>Payloads\<close>

fun scalar_size :: "format_type \<Rightarrow> nat" where
  "scalar_size UINT8 = 1"
| "scalar_size INT8 = 1"
| "scalar_size UINT16 = 2"
| "scalar_size INT16 = 2"
| "scalar_size UINT32 = 4"
| "scalar_size INT32 = 4"
| "scalar_size UINT64 = 8"
| "scalar_size INT64 = 8"
| "scalar_size FLOAT = 4"
| "scalar_size DOUBLE = 8"
| "scalar_size CHAR_T = 1"
| "scalar_size BOOL = 1"
| "scalar_size OTHER = 0"

text \<open>The \<open>switch\<close> over the field type; a \<open>bool\<close> object holds 0 or 1 only.\<close>

fun read_scalar :: "format_type \<Rightarrow> byte list \<Rightarrow> nat \<Rightarrow> double res" where
  "read_scalar UINT8 mem p = bindE (rd_u8 mem p) (\<lambda>w. Inr (double_of_int (uint w)))"
| "read_scalar INT8 mem p = bindE (rd_u8 mem p) (\<lambda>w. Inr (double_of_int (sint w)))"
| "read_scalar UINT16 mem p = bindE (rd_u16 mem p) (\<lambda>w. Inr (double_of_int (uint w)))"
| "read_scalar INT16 mem p = bindE (rd_u16 mem p) (\<lambda>w. Inr (double_of_int (sint w)))"
| "read_scalar UINT32 mem p = bindE (rd_u32 mem p) (\<lambda>w. Inr (double_of_int (uint w)))"
| "read_scalar INT32 mem p = bindE (rd_u32 mem p) (\<lambda>w. Inr (double_of_int (sint w)))"
| "read_scalar UINT64 mem p = bindE (rd_u64 mem p) (\<lambda>w. Inr (double_of_int (uint w)))"
| "read_scalar INT64 mem p = bindE (rd_u64 mem p) (\<lambda>w. Inr (double_of_int (sint w)))"
| "read_scalar FLOAT mem p = bindE (rd_u32 mem p) (\<lambda>w. Inr (double_of_float w))"
| "read_scalar DOUBLE mem p = rd_u64 mem p"
| "read_scalar CHAR_T mem p = bindE (rd_u8 mem p) (\<lambda>w. Inr (double_of_int (sint w)))"
| "read_scalar BOOL mem p =
     bindE (rd_u8 mem p) (\<lambda>w. bindE (requireE (w \<le> 1)) (\<lambda>_. Inr (double_of_int (uint w))))"
| "read_scalar OTHER mem p = Inl Undefined"

text \<open>\<open>timeseries.data_[(*index)++].second.assign(1, value)\<close>.\<close>

definition assign_at :: "channel list \<Rightarrow> nat \<Rightarrow> double \<Rightarrow> channel list res" where
  "assign_at data i v =
     (if i < length data then Inr (data[i := (fst (data ! i), [v])]) else Inl Undefined)"

text \<open>
  The state of the walk is the read pointer, \<open>*index\<close> and \<open>timeseries.data_\<close>. One turn of
  the inner loop and the \<open>_padding\<close> case; \<open>rec\<close> is the recursive call.
\<close>

type_synonym walk_state = "nat \<times> nat \<times> channel list"

definition intl_pad :: "byte list \<Rightarrow> field \<Rightarrow> walk_state \<Rightarrow> walk_state res" where
  "intl_pad mem f = (\<lambda>(message, index, data).
     bindE (adv mem message (array_size f)) (\<lambda>message. Inr (message, index, data)))"

definition intl_elem ::
    "(field list \<Rightarrow> walk_state \<Rightarrow> walk_state res) \<Rightarrow> formats \<Rightarrow> byte list \<Rightarrow> field \<Rightarrow> walk_state
     \<Rightarrow> walk_state res" where
  "intl_elem rec formats mem f = (\<lambda>(message, index, data).
     if field_type f = OTHER then
       bindE (lookup_at formats (other_type_id f)) (\<lambda>child_format.
       bindE (adv mem message 8) (\<lambda>message.
       rec (fmt_fields child_format) (message, index, data)))
     else
       bindE (read_scalar (field_type f) mem message) (\<lambda>v.
       bindE (assign_at data index v) (\<lambda>data.
       Inr (message + scalar_size (field_type f), index + 1, data))))"

fun parse_data_intl ::
    "nat \<Rightarrow> formats \<Rightarrow> byte list \<Rightarrow> field list \<Rightarrow> walk_state \<Rightarrow> walk_state res" where
  "parse_data_intl 0 formats mem flds s = Inl Stack_Overflow"
| "parse_data_intl (Suc d) formats mem flds s =
     walk (intl_pad mem)
       (\<lambda>f _. intl_elem (\<lambda>flds s. parse_data_intl d formats mem flds s) formats mem f) flds s"

section \<open>Counting the channels\<close>

text \<open>The number of scalars below a field list, by the same walk.\<close>

fun leaf_count :: "nat \<Rightarrow> formats \<Rightarrow> field list \<Rightarrow> nat \<Rightarrow> nat res" where
  "leaf_count 0 formats flds n = Inl Stack_Overflow"
| "leaf_count (Suc d) formats flds n =
     walk (\<lambda>f n. Inr n)
       (\<lambda>f _ n.
          if field_type f \<noteq> OTHER then Inr (Suc n)
          else bindE (lookup_at formats (other_type_id f)) (\<lambda>g. leaf_count d formats (fmt_fields g) n))
       flds n"

lemma leaf_count_mono: "leaf_count d F flds n = Inr m \<Longrightarrow> d \<le> e \<Longrightarrow> leaf_count e F flds n = Inr m"
proof (induction d arbitrary: e flds n m)
  case 0
  then show ?case by simp
next
  case (Suc d)
  then obtain e' where e: "e = Suc e'" "d \<le> e'" by (cases e) auto
  from Suc.prems(1) show ?case
    unfolding e leaf_count.simps
    by (rule walk_mono) (auto simp: res_simps split: if_split_asm prod.splits intro: Suc.IH [OF _ e(2)])
qed

lemma append_vector_mono:
  "append_vector d F flds pre dat = Inr r \<Longrightarrow> d \<le> e \<Longrightarrow> append_vector e F flds pre dat = Inr r"
proof (induction d arbitrary: e flds pre dat r)
  case 0
  then show ?case by simp
next
  case (Suc d)
  then obtain e' where e: "e = Suc e'" "d \<le> e'" by (cases e) auto
  from Suc.prems(1) show ?case
    unfolding e append_vector.simps
    by (rule walk_mono)
      (auto simp: channel_elem_def res_simps Let_def split: if_split_asm intro: Suc.IH [OF _ e(2)])
qed

lemma parse_data_intl_mono:
  "parse_data_intl d F mem flds s = Inr r \<Longrightarrow> d \<le> e \<Longrightarrow> parse_data_intl e F mem flds s = Inr r"
proof (induction d arbitrary: e flds s r)
  case 0
  then show ?case by simp
next
  case (Suc d)
  then obtain e' where e: "e = Suc e'" "d \<le> e'" by (cases e) auto
  from Suc.prems(1) show ?case
    unfolding e parse_data_intl.simps
    by (rule walk_mono) (auto simp: intl_elem_def res_simps split: if_split_asm prod.splits intro: Suc.IH [OF _ e(2)])
qed

text \<open>\<open>create_timeseries\<close> appends as many empty channels as there are leaves.\<close>

definition grown :: "channel list \<Rightarrow> nat \<Rightarrow> channel list \<Rightarrow> nat \<Rightarrow> bool" where
  "grown data0 n0 data n \<longleftrightarrow>
     (\<exists>new. data = data0 @ new \<and> n = n0 + length new \<and> (\<forall>c \<in> set new. snd c = []))"

lemma grown_refl: "grown data n data n"
  by (simp add: grown_def)

lemma grown_one: "grown data0 n0 data n \<Longrightarrow> grown data0 n0 (data @ [(name, [])]) (Suc n)"
  by (auto simp: grown_def)

lemma grown_trans: "grown data0 n0 data1 n1 \<Longrightarrow> grown data1 n1 data n \<Longrightarrow> grown data0 n0 data n"
  by (auto simp: grown_def)

lemma append_vector_leaves:
  "append_vector d F flds prefix dat = Inr dat' \<Longrightarrow>
   \<exists>m. leaf_count d F flds n = Inr m \<and> grown dat n dat' m"
proof (induction d arbitrary: flds prefix dat dat' n)
  case 0
  then show ?case by simp
next
  case (Suc d)
  from Suc.prems show ?case
    unfolding append_vector.simps leaf_count.simps
  proof (rule walk_sim)
    fix f i s s' t
    assume R: "grown dat n s t"
      and step: "channel_elem (append_vector d F) F prefix f i s = Inr s'"
    show "\<exists>t'. (if field_type f \<noteq> OTHER then Inr (Suc t)
          else bindE (lookup_at F (other_type_id f)) (\<lambda>g. leaf_count d F (fmt_fields g) t)) = Inr t'
        \<and> grown dat n s' t'"
    proof (cases "field_type f = OTHER")
      case False
      with step R show ?thesis by (auto simp: channel_elem_def res_simps Let_def intro: grown_one)
    next
      case True
      with step obtain g name where g: "F (other_type_id f) = Some g"
        and "append_vector d F (fmt_fields g) name s = Inr s'"
        by (auto simp: channel_elem_def res_simps Let_def)
      then obtain m where "leaf_count d F (fmt_fields g) t = Inr m" "grown s t s' m"
        using Suc.IH by blast
      with True g R show ?thesis by (auto simp: lookup_at_def intro: grown_trans)
    qed
  qed (auto intro: grown_refl)
qed

section \<open>Storing the decoded values\<close>

text \<open>Consecutive assignments from index \<open>i\<close> on.\<close>

fun fill :: "channel list \<Rightarrow> nat \<Rightarrow> double list \<Rightarrow> channel list" where
  "fill dat i [] = dat"
| "fill dat i (v # vs) = fill (dat[i := (fst (dat ! i), [v])]) (Suc i) vs"

lemma length_fill [simp]: "length (fill dat i vs) = length dat"
  by (induction dat i vs rule: fill.induct) auto

lemma fill_append: "fill dat i (us @ vs) = fill (fill dat i us) (i + length us) vs"
  by (induction dat i us rule: fill.induct) auto

lemma fill_snoc: "fill dat i (vs @ [v]) =
    (fill dat i vs)[i + length vs := (fst (fill dat i vs ! (i + length vs)), [v])]"
  by (simp add: fill_append)

lemma fst_fill: "k < length dat \<Longrightarrow> fst (fill dat i vs ! k) = fst (dat ! k)"
proof (induction dat i vs rule: fill.induct)
  case (2 dat i v vs)
  then show ?case by (cases "k = i") auto
qed simp

lemma snd_fill:
  "k < length dat \<Longrightarrow> i \<le> k \<Longrightarrow> k < i + length vs \<Longrightarrow> snd (fill dat i vs ! k) = [vs ! (k - i)]"
proof (induction vs arbitrary: dat i)
  case Nil
  then show ?case by simp
next
  case (Cons v vs)
  show ?case
  proof (cases "k = i")
    case True
    have "fill d (Suc i) vs ! i = d ! i" if "i < length d" for d
      using that
    proof -
      have "fill d j vs ! i = d ! i" if "i < j" for j
        using that by (induction d j vs rule: fill.induct) auto
      then show ?thesis by simp
    qed
    with True Cons.prems show ?thesis by simp
  next
    case False
    with Cons.prems Cons.IH [of "dat[i := (fst (dat ! i), [v])]" "Suc i"] show ?thesis
      by (simp add: Suc_diff_Suc [symmetric] nth_Cons')
  qed
qed

lemma fill_all:
  assumes "length vs = length dat"
  shows "fill dat 0 vs = zip (map fst dat) (map (\<lambda>v. [v]) vs)"
  using assms by (intro nth_equalityI) (auto simp: prod_eq_iff fst_fill snd_fill)

text \<open>
  What a successful walk over a payload does: it assigns as many consecutive channels as
  the format has leaves, and nothing else.
\<close>

definition walked ::
    "nat \<times> nat \<times> channel list \<Rightarrow> nat \<times> nat \<times> channel list \<Rightarrow> double list \<Rightarrow> bool" where
  "walked s0 s vs \<longleftrightarrow>
     (case s0 of (_, i0, dat0) \<Rightarrow> case s of (_, i, dat) \<Rightarrow>
        i = i0 + length vs \<and> dat = fill dat0 i0 vs \<and> (i0 \<le> length dat0 \<longrightarrow> i \<le> length dat0))"

lemma walked_refl: "walked s s []"
  by (auto simp: walked_def)

lemma walked_trans: "walked s0 s1 us \<Longrightarrow> walked s1 s2 vs \<Longrightarrow> walked s0 s2 (us @ vs)"
  by (auto simp: walked_def fill_append)

lemma walked_assign:
  "walked s0 (p, i, dat) vs \<Longrightarrow> assign_at dat i v = Inr dat' \<Longrightarrow> walked s0 (q, i + 1, dat') (vs @ [v])"
  by (auto simp: walked_def assign_at_def fill_snoc split: if_splits)

lemma parse_data_intl_leaves:
  "parse_data_intl d F mem flds s = Inr s' \<Longrightarrow>
   \<exists>vs. leaf_count d F flds n = Inr (n + length vs) \<and> walked s s' vs"
proof (induction d arbitrary: flds s s' n)
  case 0
  then show ?case by simp
next
  case (Suc d)
  let ?R = "\<lambda>t k. \<exists>vs. k = n + length vs \<and> walked s t vs"
  from Suc.prems have "\<exists>t'. leaf_count (Suc d) F flds n = Inr t' \<and> ?R s' t'"
    unfolding leaf_count.simps parse_data_intl.simps
  proof (rule walk_sim)
    show "?R s n" by (auto intro: exI [of _ "[]"] walked_refl)
    fix f t t' k
    assume "?R t k" and "intl_pad mem f t = Inr t'"
    then show "\<exists>k'. Inr k = Inr k' \<and> ?R t' k'"
      by (auto simp: intl_pad_def res_simps walked_def split: prod.splits)
  next
    fix f i t t' k
    assume R: "?R t k" and step: "intl_elem (parse_data_intl d F mem) F mem f t = Inr t'"
    obtain p j dat where t: "t = (p, j, dat)" by (cases t)
    from R obtain vs where vs: "k = n + length vs" "walked s t vs" by auto
    show "\<exists>k'. (if field_type f \<noteq> OTHER then Inr (Suc k)
          else bindE (lookup_at F (other_type_id f)) (\<lambda>g. leaf_count d F (fmt_fields g) k)) = Inr k' \<and> ?R t' k'"
    proof (cases "field_type f = OTHER")
      case False
      with step obtain v dat' where v: "assign_at dat j v = Inr dat'"
        and t': "t' = (p + scalar_size (field_type f), j + 1, dat')"
        unfolding t by (auto simp: intl_elem_def res_simps)
      from vs(2) v have "walked s t' (vs @ [v])" unfolding t t' by (rule walked_assign)
      with False vs(1) show ?thesis by (auto intro!: exI [of _ "vs @ [v]"])
    next
      case True
      with step obtain g q where g: "F (other_type_id f) = Some g"
        and "parse_data_intl d F mem (fmt_fields g) (q, j, dat) = Inr t'"
        unfolding t by (auto simp: intl_elem_def res_simps)
      then obtain us where us: "leaf_count d F (fmt_fields g) k = Inr (k + length us)"
        and "walked (q, j, dat) t' us"
        using Suc.IH by blast
      then have "walked s t' (vs @ us)"
        using vs(2) unfolding t walked_def by (auto simp: fill_append)
      with True g us vs(1) show ?thesis
        by (auto simp: lookup_at_def intro!: exI [of _ "vs @ us"])
    qed
  qed
  then show ?case by auto
qed

section \<open>What a conforming sender writes\<close>

text \<open>
  The payload grammar, independent of the parser: \<open>conf_fields d F flds bs vs\<close> says that the
  bytes \<open>bs\<close> lay out the fields \<open>flds\<close> with the scalar values \<open>vs\<close>, nested formats being
  preceded by their eight byte timestamp, with at most \<open>d\<close> levels of nesting.
\<close>

inductive conf_fields :: "nat \<Rightarrow> formats \<Rightarrow> field list \<Rightarrow> byte list \<Rightarrow> double list \<Rightarrow> bool"
  and conf_elems :: "nat \<Rightarrow> formats \<Rightarrow> field \<Rightarrow> nat \<Rightarrow> byte list \<Rightarrow> double list \<Rightarrow> bool" where
  conf_nil: "conf_fields d F [] [] []"
| conf_pad: "is_padding f \<Longrightarrow> array_size f = int (length b) \<Longrightarrow> conf_fields d F fs bs vs \<Longrightarrow>
     conf_fields d F (f # fs) (b @ bs) vs"
| conf_field: "\<not> is_padding f \<Longrightarrow> conf_elems d F f (nat (array_size f)) b us \<Longrightarrow>
     conf_fields d F fs bs vs \<Longrightarrow> conf_fields d F (f # fs) (b @ bs) (us @ vs)"
| conf_none: "conf_elems d F f 0 [] []"
| conf_scalar: "field_type f \<noteq> OTHER \<Longrightarrow> length b = scalar_size (field_type f) \<Longrightarrow>
     read_scalar (field_type f) b 0 = Inr v \<Longrightarrow> conf_elems d F f n bs vs \<Longrightarrow>
     conf_elems d F f (Suc n) (b @ bs) (v # vs)"
| conf_nested: "field_type f = OTHER \<Longrightarrow> F (other_type_id f) = Some g \<Longrightarrow> length stamp = 8 \<Longrightarrow>
     conf_fields d F (fmt_fields g) b us \<Longrightarrow> conf_elems (Suc d) F f n bs vs \<Longrightarrow>
     conf_elems (Suc d) F f (Suc n) (stamp @ b @ bs) (us @ vs)"

lemma read_scalar_mid:
  assumes "read_scalar t b 0 = Inr v" and "length b = scalar_size t" and "p = length pre"
  shows "read_scalar t (pre @ b @ post) p = Inr v"
proof -
  have "rd (pre @ b @ post) p (length b) = rd b 0 (length b)"
    using assms(3) by (simp add: rd_def)
  with assms(1,2) show ?thesis by (cases t) (simp_all add: rd_le_def)
qed

lemma foldE_const: "foldE (\<lambda>_. f) xs s = foldE (\<lambda>_. f) (replicate (length xs) ()) s"
proof (induction xs arbitrary: s)
  case Nil
  then show ?case by simp
next
  case (Cons x xs)
  then show ?case by (cases "f s") auto
qed

lemma walk_Cons:
  "walk pad elem (f # fs) s =
     bindE (if is_padding f then pad f s else foldE (elem f) (indices f) s) (walk pad elem fs)"
  by (simp add: walk_def [abs_def])

lemma parse_data_intl_Cons:
  "parse_data_intl (Suc d) F mem (f # fs) s =
     bindE (if is_padding f then intl_pad mem f s
            else foldE (\<lambda>_. intl_elem (parse_data_intl d F mem) F mem f) (replicate (nat (array_size f)) ()) s)
       (parse_data_intl (Suc d) F mem fs)"
proof -
  have "walk (intl_pad mem) (\<lambda>f _. intl_elem (parse_data_intl d F mem) F mem f) fs
      = parse_data_intl (Suc d) F mem fs"
    by (rule ext) simp
  then show ?thesis
    using foldE_const [of "intl_elem (parse_data_intl d F mem) F mem f" "indices f" s]
    by (simp add: walk_Cons indices_def)
qed

text \<open>The parser reads back exactly the values of a conforming payload.\<close>

lemma conf_parse:
  shows "conf_fields d F flds bs vs \<Longrightarrow> i + length vs \<le> length dat \<Longrightarrow>
      parse_data_intl (Suc d) F (pre @ bs @ post) flds (length pre, i, dat) =
        Inr (length pre + length bs, i + length vs, fill dat i vs)"
    and "conf_elems d F f n bs vs \<Longrightarrow> i + length vs \<le> length dat \<Longrightarrow>
      foldE (\<lambda>_. intl_elem (parse_data_intl d F (pre @ bs @ post)) F (pre @ bs @ post) f)
        (replicate n ()) (length pre, i, dat) =
        Inr (length pre + length bs, i + length vs, fill dat i vs)"
proof (induction arbitrary: pre post i dat and pre post i dat rule: conf_fields_conf_elems.inducts)
  case (conf_nil d F)
  show ?case by (simp add: walk_def)
next
  case (conf_pad f b d F fs bs vs)
  from conf_pad.IH [OF conf_pad.prems, of "pre @ b" post] conf_pad.hyps show ?case
    by (simp add: parse_data_intl_Cons intl_pad_def del: parse_data_intl.simps)
next
  case (conf_field f d F b us fs bs vs)
  from conf_field.prems have l: "i + length us \<le> length dat" "i + length us + length vs \<le> length (fill dat i us)"
    by simp_all
  from conf_field.IH(1) [OF l(1), of pre "bs @ post"] conf_field.IH(2) [OF l(2), of "pre @ b" post]
    conf_field.hyps(1)
  show ?case
    by (simp add: parse_data_intl_Cons fill_append add.assoc del: parse_data_intl.simps)
next
  case (conf_none d F f)
  show ?case by simp
next
  case (conf_scalar f b v d F n bs vs)
  let ?dat = "dat[i := (fst (dat ! i), [v])]"
  let ?mem = "pre @ b @ bs @ post"
  have "intl_elem (parse_data_intl d F ?mem) F ?mem f (length pre, i, dat) = Inr (length (pre @ b), Suc i, ?dat)"
    using conf_scalar.hyps conf_scalar.prems by (simp add: intl_elem_def read_scalar_mid assign_at_def)
  moreover have "Suc i + length vs \<le> length ?dat" using conf_scalar.prems by simp
  note conf_scalar.IH [OF this, of "pre @ b" post]
  ultimately show ?case by simp
next
  case (conf_nested f F g stamp d b us n bs vs)
  from conf_nested.prems have l: "i + length us \<le> length dat" "i + length us + length vs \<le> length (fill dat i us)"
    by simp_all
  let ?mem = "pre @ stamp @ b @ bs @ post"
  have "adv ?mem (length pre) 8 = Inr (length (pre @ stamp))"
    using conf_nested.hyps(3) adv_nat [of "length pre" 8 ?mem] by simp
  then have "intl_elem (parse_data_intl (Suc d) F ?mem) F ?mem f (length pre, i, dat) =
      Inr (length (pre @ stamp @ b), i + length us, fill dat i us)"
    using conf_nested.IH(1) [OF l(1), of "pre @ stamp" "bs @ post"] conf_nested.hyps
    by (simp add: intl_elem_def lookup_at_def add.assoc del: parse_data_intl.simps)
  with conf_nested.IH(2) [OF l(2), of "pre @ stamp @ b" post] show ?case
    by (simp add: fill_append add.assoc del: parse_data_intl.simps)
qed

text \<open>The conforming payload has one value per leaf.\<close>

lemma conf_fields_leaves:
  assumes "conf_fields d F flds bs vs"
  shows "leaf_count (Suc d) F flds n = Inr (n + length vs)"
proof -
  let ?dat = "replicate (length vs) ([], [])"
  have "parse_data_intl (Suc d) F ([] @ bs @ []) flds (length [], 0, ?dat) =
      Inr (length [] + length bs, 0 + length vs, fill ?dat 0 vs)"
    using conf_parse(1) [OF assms, of 0 ?dat "[]" "[]"] by simp
  then obtain ws where "leaf_count (Suc d) F flds n = Inr (n + length ws)"
      and "walked (length [], 0, ?dat) (length [] + length bs, 0 + length vs, fill ?dat 0 vs) ws"
    using parse_data_intl_leaves by blast
  then show ?thesis by (simp add: walked_def)
qed

text \<open>A format whose first field is of its own type recurses without end.\<close>

lemma append_vector_recursive:
  assumes "F n = Some g" and "fmt_fields g = f # fs" and "field_type f = OTHER"
    and "other_type_id f = n" and "\<not> is_padding f" and "1 \<le> array_size f"
  shows "append_vector d F (fmt_fields g) prefix dat = Inl Stack_Overflow"
proof (induction d arbitrary: prefix dat)
  case 0
  show ?case by simp
next
  case (Suc d)
  have idx: "indices f = 0 # [1..<nat (array_size f)]"
    using assms(6) by (simp add: indices_def upt_rec)
  have "length (dec_nat 0) = 1" by (simp add: dec_nat_def digits_in.simps)
  then have "element_suffix f 0 = Inr (if 1 < array_size f then ''.'' @ pad_left (CHR ''0'') 2 (dec_nat 0) else [])"
    by (simp add: element_suffix_def dot_02d_def pad_left_def Let_def)
  then show ?case
    using assms Suc by (simp add: walk_Cons idx channel_elem_def lookup_at_def Let_def)
qed

text \<open>All channels assigned: \<open>get_latest_data\<close> pairs names and values.\<close>

lemma get_latest_data_filled:
  assumes "timestamps ts = [t]" and "ts_data ts = fill dat 0 vs" and "length vs = length dat"
  shows "get_latest_data ts name =
    Inr \<lparr>md_name = name, md_timestamp = t, structured_data = zip (map fst dat) vs\<rparr>"
proof -
  have "foldE (\<lambda>el md. bindE (vec_back (snd el)) (\<lambda>v. Inr (md @ [(fst el, v)])))
      (zip ns (map (\<lambda>v. [v]) ws)) acc = Inr (acc @ zip ns ws)"
    if "length ns = length ws" for ns :: "string list" and ws :: "double list" and acc
    using that by (induction ns ws arbitrary: acc rule: list_induct2) (auto simp: vec_back_def)
  from this [of "map fst dat" vs "[]"] assms show ?thesis
    by (simp add: get_latest_data_def vec_back_def fill_all)
qed

end
