(* ===== verification/Parser.thy ===== *)
theory Parser
  imports Ulog Timeseries
begin

text \<open>
  The class \<open>MutelemetryParser\<close>: its state, one definition per \<open>parse_*\<close> method, the
  dispatcher \<open>parse\<close>. A method that returns a \<open>ParseState\<close> returns it beside the new
  object; \<open>state_\<close> itself is written by \<open>parse\<close> only. \<open>mem\<close> is the object the caller's
  pointer points into, \<open>m\<close> or \<open>p\<close> the offset of the pointer; \<open>stk\<close> is the number of nested
  calls the stack has room for. The build defines neither \<open>RELAXED_STATE_MACHINE\<close> nor
  \<open>KEEP_DATA\<close>. Calls of the two handlers are recorded in the order they are made.
\<close>

datatype parse_state =
  STATE_HEADER | STATE_FLAGS | STATE_DEFINITION | STATE_DEFINITION_OR_DATA | STATE_INVALID

record parameter =
  param_name :: string
  param_bits :: "32 word"
  param_type :: format_type

text \<open>
  \<open>format_\<close> points at an element of \<open>formats_\<close>; elements of an \<open>unordered_map\<close> stay where
  they are and none is erased, so the pointer is the element's key and \<open>None\<close> is \<open>nullptr\<close>.
\<close>

record subscription =
  sub_msg_id :: "16 word"
  sub_multi_id :: byte
  sub_message_name :: string
  sub_format :: "string option"

record message_log =
  ml_level :: byte
  ml_timestamp :: "64 word"
  ml_msg :: string

record parser =
  p_state :: parse_state
  start_time :: "64 word"
  timeseries_map :: "string \<rightharpoonup> timeseries"
  formats_map :: formats
  subscriptions :: "16 word \<rightharpoonup> subscription"
  info :: "string \<rightharpoonup> string"
  multi :: "string \<rightharpoonup> string list"
  with_multi_id :: "string set"
  parameters :: "parameter list"
  message_logs :: "message_log list"
  log_calls :: "message_log list"
  data_calls :: "message_data list"

definition new_parser :: parser where
  "new_parser = \<lparr>p_state = STATE_HEADER, start_time = 0, timeseries_map = Map.empty,
     formats_map = Map.empty, subscriptions = Map.empty, info = Map.empty, multi = Map.empty,
     with_multi_id = {}, parameters = [], message_logs = [], log_calls = [], data_calls = []\<rparr>"

text \<open>\<open>unordered_map::insert\<close> keeps an element that is there.\<close>

definition map_insert :: "'k \<Rightarrow> 'v \<Rightarrow> ('k \<rightharpoonup> 'v) \<Rightarrow> ('k \<rightharpoonup> 'v)" where
  "map_insert k v m = (case m k of None \<Rightarrow> m(k \<mapsto> v) | Some _ \<Rightarrow> m)"

lemma map_insert_simps [simp]:
  "m k = None \<Longrightarrow> map_insert k v m = m(k \<mapsto> v)"
  "m k = Some w \<Longrightarrow> map_insert k v m = m"
  by (simp_all add: map_insert_def)

section \<open>Header and flags\<close>

definition parse_header :: "byte list \<Rightarrow> nat \<Rightarrow> parser \<Rightarrow> (parser \<times> parse_state) res" where
  "parse_header mem p ps =
     bindE (assertE (p_state ps = STATE_HEADER)) (\<lambda>_.
     bindE (read_from (ULogFileHeader 0) mem p) (\<lambda>r.
     case r of
       None \<Rightarrow> Inr (ps, STATE_INVALID)
     | Some file_header \<Rightarrow> Inr (ps\<lparr>start_time := fh_timestamp file_header\<rparr>, STATE_FLAGS)))"

text \<open>The loop over \<open>incompat_flags[1..7]\<close>, left at the first byte that is set.\<close>

fun scan_flags :: "byte list \<Rightarrow> nat \<Rightarrow> nat list \<Rightarrow> bool res" where
  "scan_flags mem flags [] = Inr False"
| "scan_flags mem flags (i # is) =
     bindE (rd_u8 mem (flags + i)) (\<lambda>b. if b \<noteq> 0 then Inr True else scan_flags mem flags is)"

definition parse_flags :: "byte list \<Rightarrow> nat \<Rightarrow> parser \<Rightarrow> (parser \<times> parse_state) res" where
  "parse_flags mem p ps =
     bindE (assertE (p_state ps = STATE_FLAGS)) (\<lambda>_.
     bindE (hdr_type mem p) (\<lambda>t.
     if type_of_code t = Some Type_B then
       let message = p + 3; incompat = message + 8 in
       bindE (rd_u8 mem incompat) (\<lambda>f0.
       let contains_appended_data = odd (unat f0) in
       bindE (if 2 \<le> unat f0 then Inr True else scan_flags mem incompat [1..<8])
         (\<lambda>has_unknown_incompat_bits.
       if has_unknown_incompat_bits then Inr (ps, STATE_INVALID)
       else if contains_appended_data then
         bindE (rd mem (message + 16) 24) (\<lambda>appended_offsets. Inr (ps, STATE_DEFINITION))
       else Inr (ps, STATE_DEFINITION)))
     else Inr (ps, STATE_INVALID)))"

section \<open>Definitions\<close>

text \<open>
  \<open>*reinterpret_cast<const T *>(key_parts[0].data())\<close>: the first token is at the start of
  \<open>raw_key\<close>, whose characters are followed by the NUL of \<open>std::string\<close>. Every branch but
  the first reads the text of the type, not the payload.
\<close>

definition info_value :: "byte list \<Rightarrow> nat \<Rightarrow> int \<Rightarrow> string \<Rightarrow> string \<Rightarrow> string \<Rightarrow> string res" where
  "info_value mem message len raw_key type key =
     (let raw = bytes_of raw_key @ [0] in
      if starts_with type ''char['' then std_string mem message len
      else if type = ''bool'' then
        bindE (rd_u8 raw 0) (\<lambda>v. bindE (requireE (v \<le> 1)) (\<lambda>_. Inr (dec_int (uint v))))
      else if type = ''uint8_t'' then bindE (rd_u8 raw 0) (\<lambda>v. Inr (dec_int (uint v)))
      else if type = ''int8_t'' then bindE (rd_u8 raw 0) (\<lambda>v. Inr (dec_int (sint v)))
      else if type = ''uint16_t'' then bindE (rd_u16 raw 0) (\<lambda>v. Inr (dec_int (uint v)))
      else if type = ''int16_t'' then bindE (rd_u16 raw 0) (\<lambda>v. Inr (dec_int (sint v)))
      else if type = ''uint32_t'' then
        bindE (rd_u32 raw 0) (\<lambda>v.
        if starts_with key ''ver_'' \<and> ends_with key ''_release'' then Inr (int_to_hex v)
        else Inr (dec_int (uint v)))
      else if type = ''int32_t'' then bindE (rd_u32 raw 0) (\<lambda>v. Inr (dec_int (sint v)))
      else if type = ''float'' then bindE (rd_u32 raw 0) (\<lambda>v. Inr (fmt_f (double_of_float v)))
      else if type = ''double'' then bindE (rd_u64 raw 0) (\<lambda>v. Inr (fmt_f v))
      else if type = ''uint64_t'' then bindE (rd_u64 raw 0) (\<lambda>v. Inr (dec_int (uint v)))
      else if type = ''int64_t'' then bindE (rd_u64 raw 0) (\<lambda>v. Inr (dec_int (sint v)))
      else Inr [])"

definition parse_info :: "byte list \<Rightarrow> nat \<Rightarrow> 16 word \<Rightarrow> parser \<Rightarrow> (parser \<times> parse_state) res" where
  "parse_info mem m msg_size ps =
     bindE (rd_u8 mem m) (\<lambda>key_len.
     bindE (std_string mem (m + 1) (uint key_len)) (\<lambda>raw_key.
     let message = m + 1 + unat key_len; key_parts = split_string raw_key (CHR '' '') in
     bindE (index_op key_parts 1) (\<lambda>key.
     bindE (index_op key_parts 0) (\<lambda>type.
     bindE (info_value mem message (uint msg_size - uint key_len - 1) raw_key type key) (\<lambda>val.
     Inr (ps\<lparr>info := map_insert key val (info ps)\<rparr>, p_state ps))))))"

definition parse_multi :: "byte list \<Rightarrow> nat \<Rightarrow> 16 word \<Rightarrow> parser \<Rightarrow> (parser \<times> parse_state) res" where
  "parse_multi mem m msg_size ps = Inr (ps, p_state ps)"

definition parse_format :: "byte list \<Rightarrow> nat \<Rightarrow> 16 word \<Rightarrow> parser \<Rightarrow> (parser \<times> parse_state) res" where
  "parse_format mem m msg_size ps =
     bindE (std_string mem m (uint msg_size)) (\<lambda>str_format.
     bindE (format_of_text str_format) (\<lambda>r.
     case r of
       None \<Rightarrow> Inr (ps, STATE_INVALID)
     | Some fmt \<Rightarrow> Inr (ps\<lparr>formats_map := (formats_map ps)(fmt_name fmt \<mapsto> fmt)\<rparr>, p_state ps)))"

definition parse_param :: "byte list \<Rightarrow> nat \<Rightarrow> 16 word \<Rightarrow> parser \<Rightarrow> (parser \<times> parse_state) res" where
  "parse_param mem m msg_size ps =
     bindE (rd_u8 mem m) (\<lambda>key_len.
     bindE (std_string mem (m + 1) (uint key_len)) (\<lambda>key.
     if CHR '' '' \<notin> set key then Inr (ps, STATE_INVALID)
     else
       let type = takeWhile (\<lambda>c. c \<noteq> CHR '' '') key; name = drop (Suc (length type)) key in
       if type = ''int32_t'' then
         bindE (rd_u32 mem (m + 1 + unat key_len)) (\<lambda>v.
         Inr (ps\<lparr>parameters := parameters ps @ [\<lparr>param_name = name, param_bits = v, param_type = INT32\<rparr>]\<rparr>,
              p_state ps))
       else if type = ''float'' then
         bindE (rd_u32 mem (m + 1 + unat key_len)) (\<lambda>v.
         Inr (ps\<lparr>parameters := parameters ps @ [\<lparr>param_name = name, param_bits = v, param_type = FLOAT\<rparr>]\<rparr>,
              p_state ps))
       else Inr (ps, STATE_INVALID)))"

section \<open>Data\<close>

definition parse_add :: "byte list \<Rightarrow> nat \<Rightarrow> 16 word \<Rightarrow> parser \<Rightarrow> (parser \<times> parse_state) res" where
  "parse_add mem m msg_size ps =
     bindE (rd_u8 mem m) (\<lambda>multi_id.
     bindE (rd_u16 mem (m + 1)) (\<lambda>msg_id.
     bindE (std_string mem (m + 3) (uint msg_size - 3)) (\<lambda>name.
     let sub = \<lparr>sub_msg_id = msg_id, sub_multi_id = multi_id, sub_message_name = name,
                sub_format = (if name \<in> dom (formats_map ps) then Some name else None)\<rparr>;
         ps = ps\<lparr>subscriptions := map_insert msg_id sub (subscriptions ps)\<rparr>;
         ps = (if 0 < multi_id then ps\<lparr>with_multi_id := insert name (with_multi_id ps)\<rparr> else ps) in
     Inr (ps, STATE_DEFINITION_OR_DATA))))"

text \<open>Following \<open>sub.format_\<close>.\<close>

definition deref_format :: "parser \<Rightarrow> string option \<Rightarrow> format res" where
  "deref_format ps f =
     (case f of None \<Rightarrow> Inl Undefined
      | Some n \<Rightarrow> (case formats_map ps n of None \<Rightarrow> Inl Undefined | Some fmt \<Rightarrow> Inr fmt))"

definition series_name :: "parser \<Rightarrow> subscription \<Rightarrow> string res" where
  "series_name ps sub =
     (if sub_message_name sub \<in> with_multi_id ps then
        bindE (dot_02d (unat (sub_multi_id sub))) (\<lambda>s. Inr (sub_message_name sub @ s))
      else Inr (sub_message_name sub))"

text \<open>\<open>parse_data(message, msg_size)\<close>: one D message; its size is not looked at.\<close>

definition parse_data_message ::
    "nat \<Rightarrow> byte list \<Rightarrow> nat \<Rightarrow> parser \<Rightarrow> (parser \<times> parse_state) res" where
  "parse_data_message stk mem m ps =
     bindE (rd_u16 mem m) (\<lambda>msg_id.
     case subscriptions ps msg_id of
       None \<Rightarrow> Inr (ps, STATE_DEFINITION_OR_DATA)
     | Some sub \<Rightarrow>
         bindE (series_name ps sub) (\<lambda>ts_name.
         bindE (case timeseries_map ps ts_name of
                  Some ts \<Rightarrow> Inr ts
                | None \<Rightarrow> bindE (deref_format ps (sub_format sub)) (create_timeseries stk (formats_map ps)))
           (\<lambda>ts.
         bindE (rd_u64 mem (m + 2)) (\<lambda>tval.
         bindE (deref_format ps (sub_format sub)) (\<lambda>fmt.
         bindE (parse_data_intl stk (formats_map ps) mem (fmt_fields fmt) (m + 10, 0, ts_data ts))
           (\<lambda>(message, index, data).
         let ts = ts\<lparr>timestamps := [tval], ts_data := data\<rparr> in
         bindE (get_latest_data ts ts_name) (\<lambda>md.
         Inr (ps\<lparr>timeseries_map := (timeseries_map ps)(ts_name \<mapsto> ts), data_calls := data_calls ps @ [md]\<rparr>,
              STATE_DEFINITION_OR_DATA))))))))"

definition parse_logged :: "byte list \<Rightarrow> nat \<Rightarrow> 16 word \<Rightarrow> parser \<Rightarrow> (parser \<times> parse_state) res" where
  "parse_logged mem m msg_size ps =
     bindE (rd_u8 mem m) (\<lambda>level.
     bindE (rd_u64 mem (m + 1)) (\<lambda>t.
     bindE (std_string mem (m + 9) (uint msg_size - 9)) (\<lambda>s.
     let msg_log = \<lparr>ml_level = level, ml_timestamp = t, ml_msg = s\<rparr> in
     Inr (ps\<lparr>log_calls := log_calls ps @ [msg_log], message_logs := message_logs ps @ [msg_log]\<rparr>,
          STATE_DEFINITION_OR_DATA))))"

definition parse_sync :: "byte list \<Rightarrow> nat \<Rightarrow> 16 word \<Rightarrow> parser \<Rightarrow> (parser \<times> parse_state) res" where
  "parse_sync mem m msg_size ps = Inr (ps, STATE_DEFINITION_OR_DATA)"

definition parse_dropout :: "byte list \<Rightarrow> nat \<Rightarrow> 16 word \<Rightarrow> parser \<Rightarrow> (parser \<times> parse_state) res" where
  "parse_dropout mem m msg_size ps = Inr (ps, STATE_DEFINITION_OR_DATA)"

definition parse_remove :: "byte list \<Rightarrow> nat \<Rightarrow> 16 word \<Rightarrow> parser \<Rightarrow> (parser \<times> parse_state) res" where
  "parse_remove mem m msg_size ps =
     bindE (rd_u16 mem m) (\<lambda>msg_id.
     Inr (ps\<lparr>subscriptions := (subscriptions ps)(msg_id := None)\<rparr>, STATE_DEFINITION_OR_DATA))"

text \<open>
  An A message at \<open>m\<close>, and the D message behind it when there is one: the same lines in
  \<open>parse_definition\<close> and in \<open>parse_data(buffer)\<close>.
\<close>

definition parse_add_data ::
    "nat \<Rightarrow> byte list \<Rightarrow> nat \<Rightarrow> 16 word \<Rightarrow> parser \<Rightarrow> (parser \<times> parse_state) res" where
  "parse_add_data stk mem m msg_size ps =
     bindE (parse_add mem m msg_size ps) (\<lambda>(ps, next_state).
     if next_state = STATE_DEFINITION_OR_DATA then
       let hdr = m + unat msg_size in
       bindE (hdr_type mem hdr) (\<lambda>t.
       if type_of_code t \<noteq> Some Type_D then Inr (ps, next_state)
       else bindE (hdr_size mem hdr) (\<lambda>_. parse_data_message stk mem (hdr + 3) ps))
     else Inr (ps, next_state))"

section \<open>The two states with messages, and the dispatcher\<close>

definition parse_definition :: "nat \<Rightarrow> byte list \<Rightarrow> nat \<Rightarrow> parser \<Rightarrow> (parser \<times> parse_state) res" where
  "parse_definition stk mem p ps =
     (let message = p + 3 in
      bindE (assertE (p_state ps = STATE_DEFINITION)) (\<lambda>_.
      bindE (hdr_type mem p) (\<lambda>t.
      bindE (hdr_size mem p) (\<lambda>sz.
      case type_of_code t of
        Some Type_I \<Rightarrow> parse_info mem message sz ps
      | Some Type_M \<Rightarrow> parse_multi mem message sz ps
      | Some Type_F \<Rightarrow> parse_format mem message sz ps
      | Some Type_P \<Rightarrow> parse_param mem message sz ps
      | Some Type_A \<Rightarrow> parse_add_data stk mem message sz ps
      | _ \<Rightarrow> Inr (ps, STATE_INVALID)))))"

definition parse_data :: "nat \<Rightarrow> byte list \<Rightarrow> nat \<Rightarrow> parser \<Rightarrow> (parser \<times> parse_state) res" where
  "parse_data stk mem p ps =
     (let message = p + 3 in
      bindE (assertE (p_state ps = STATE_DEFINITION_OR_DATA)) (\<lambda>_.
      bindE (hdr_type mem p) (\<lambda>t.
      bindE (hdr_size mem p) (\<lambda>sz.
      case type_of_code t of
        Some Type_A \<Rightarrow> parse_add_data stk mem message sz ps
      | Some Type_D \<Rightarrow> parse_data_message stk mem message ps
      | Some Type_L \<Rightarrow> parse_logged mem message sz ps
      | Some Type_I \<Rightarrow> parse_info mem message sz ps
      | Some Type_M \<Rightarrow> parse_multi mem message sz ps
      | Some Type_P \<Rightarrow> parse_param mem message sz ps
      | Some Type_S \<Rightarrow> parse_sync mem message sz ps
      | Some Type_O \<Rightarrow> parse_dropout mem message sz ps
      | Some Type_R \<Rightarrow> parse_remove mem message sz ps
      | _ \<Rightarrow> Inr (ps, STATE_INVALID)))))"

definition parse :: "nat \<Rightarrow> byte list \<Rightarrow> nat \<Rightarrow> parser \<Rightarrow> (parser \<times> bool) res" where
  "parse stk mem p ps =
     bindE (case p_state ps of
              STATE_HEADER \<Rightarrow>
                bindE (parse_header mem p ps) (\<lambda>(ps, new_state).
                bindE (assertE (new_state = STATE_FLAGS)) (\<lambda>_. Inr (ps, new_state)))
            | STATE_FLAGS \<Rightarrow>
                bindE (parse_flags mem p ps) (\<lambda>(ps, new_state).
                bindE (assertE (new_state = STATE_DEFINITION)) (\<lambda>_. Inr (ps, new_state)))
            | STATE_DEFINITION \<Rightarrow> parse_definition stk mem p ps
            | STATE_DEFINITION_OR_DATA \<Rightarrow> parse_data stk mem p ps
            | STATE_INVALID \<Rightarrow> Inr (ps, STATE_INVALID))
       (\<lambda>(ps, new_state). Inr (ps\<lparr>p_state := new_state\<rparr>, new_state \<noteq> STATE_INVALID))"

text \<open>
  The two setters of the handlers are declared to return \<open>bool\<close> and end without a return statement, which is
  undefined; they store the handler before.
\<close>

definition set_data_handler :: "parser \<Rightarrow> (parser \<times> bool) res" where
  "set_data_handler ps = Inl Undefined"

definition set_log_handler :: "parser \<Rightarrow> (parser \<times> bool) res" where
  "set_log_handler ps = Inl Undefined"

section \<open>Checks of a buffer\<close>

text \<open>The two functions of \<open>mutelemetry_tools.cc\<close>, on the one parser instance.\<close>

definition check_ulog_data_begin :: "byte list \<Rightarrow> nat \<Rightarrow> bool res" where
  "check_ulog_data_begin mem p = bindE (hdr_type mem p) (\<lambda>t. Inr (type_of_code t = Some Type_A))"

definition check_ulog_valid :: "nat \<Rightarrow> byte list \<Rightarrow> nat \<Rightarrow> parser \<Rightarrow> (parser \<times> bool) res" where
  "check_ulog_valid stk mem p ps =
     bindE (parse stk mem p ps) (\<lambda>(ps, valid).
     if valid then
       bindE (check_ulog_data_begin mem p) (\<lambda>begins.
       if begins then
         bindE (hdr_size mem p) (\<lambda>sz. parse stk mem (p + 3 + unat sz) ps)
       else Inr (ps, valid))
     else Inr (ps, valid))"

end
