(* ===== verification/Streamer.thy ===== *)
theory Streamer
  imports Conc_Queue Parser
begin

text \<open>
  \<open>MutelemetryStreamer\<close>: the handshake that sends the definitions one by one, each until it
  is acknowledged, and the loop that then sends or skips data. The scheduler runs
  \<open>sync_loop\<close>, \<open>discard_loop\<close>, \<open>main_loop\<close> and the two message handlers on threads of their
  own; what they share with a race is \<open>state_\<close>, so a handler and an iteration of
  \<open>sync_loop\<close> are each split where the code first loads \<open>state_\<close> and later exchanges it.
  MAVLink and muroute are not part of the sources: a call of a \<open>pack\<close> function is recorded
  with its arguments as a \<open>mav_msg\<close>, and the lengths of the two data fields are arguments.
\<close>

section \<open>States\<close>

datatype streamer_state =
  STATE_INIT | STATE_CONNECTED | STATE_SEND_DEF | STATE_RESEND_DEF | STATE_ACK_RECV
| STATE_ACK_WAIT | STATE_RUNNING | STATE_STOPPED | STATE_UNKNOWN

fun streamer_state_code :: "streamer_state \<Rightarrow> nat" where
  "streamer_state_code STATE_INIT = 0"
| "streamer_state_code STATE_CONNECTED = 1"
| "streamer_state_code STATE_SEND_DEF = 2"
| "streamer_state_code STATE_RESEND_DEF = 3"
| "streamer_state_code STATE_ACK_RECV = 4"
| "streamer_state_code STATE_ACK_WAIT = 5"
| "streamer_state_code STATE_RUNNING = 6"
| "streamer_state_code STATE_STOPPED = 7"
| "streamer_state_code STATE_UNKNOWN = 8"

instantiation streamer_state :: linorder
begin

definition less_eq_streamer_state :: "streamer_state \<Rightarrow> streamer_state \<Rightarrow> bool" where
  "less_eq_streamer_state a b \<longleftrightarrow> streamer_state_code a \<le> streamer_state_code b"

definition less_streamer_state :: "streamer_state \<Rightarrow> streamer_state \<Rightarrow> bool" where
  "less_streamer_state a b \<longleftrightarrow> streamer_state_code a < streamer_state_code b"

instance
proof
  fix a b :: streamer_state
  show "a \<le> b \<Longrightarrow> b \<le> a \<Longrightarrow> a = b"
    by (cases a; cases b) (simp_all add: less_eq_streamer_state_def)
qed (auto simp: less_eq_streamer_state_def less_streamer_state_def)

end

text \<open>\<open>operator<<\<close>: the name of a state in the log.\<close>

definition state_names :: "string list" where
  "state_names = [''INIT'', ''CONNECTED'', ''SEND_DEF'', ''RESEND_DEF'', ''ACK_RECV'', ''ACK_WAIT'',
     ''RUNNING'', ''STOPPED'', ''UNKNOWN'']"

definition show_state :: "streamer_state \<Rightarrow> string" where
  "show_state s =
     (if s < STATE_UNKNOWN then state_names ! streamer_state_code s
      else state_names ! streamer_state_code STATE_UNKNOWN)"

section \<open>The object\<close>

text \<open>The \<open>COMMAND_LONG\<close> ids the handler knows; every other one.\<close>

datatype mav_cmd = LOGGING_START | LOGGING_STOP | OTHER_COMMAND "16 word"

text \<open>A data message: targets, sequence number, length, first offset, the bytes pointed at.\<close>

datatype mav_msg =
  Logging_Data byte byte "16 word" byte byte "byte list"
| Logging_Data_Acked byte byte "16 word" byte byte "byte list"
| Command_Ack byte byte mav_cmd bool "32 word" byte "32 word"

record streamer =
  discarding :: bool
  st_running :: bool
  st_roster :: bool
  st_queue :: "queue_ptr option"
  st_state :: streamer_state
  seq_no :: nat
  definitions :: "byte list list"
  target_system :: byte
  target_component :: byte
  sync_timeout :: "16 word"
  send_cntr :: "64 word"
  skip_cntr :: "64 word"
  posted :: "mav_msg list"
  sent :: "(mav_msg \<times> 32 word \<times> 32 word) list"

definition port :: "32 word" where
  "port = 7788"

definition new_streamer :: streamer where
  "new_streamer = \<lparr>discarding = False, st_running = False, st_roster = False, st_queue = None,
     st_state = STATE_INIT, seq_no = 0, definitions = [], target_system = 0, target_component = 0,
     sync_timeout = 0, send_cntr = 0, skip_cntr = 0, posted = [], sent = []\<rparr>"

text \<open>\<open>compare_exchange_strong\<close>.\<close>

definition set_state :: "streamer_state \<Rightarrow> streamer_state \<Rightarrow> streamer \<Rightarrow> bool \<times> streamer" where
  "set_state old_state new_state st =
     (if st_state st = old_state then (True, st\<lparr>st_state := new_state\<rparr>) else (False, st))"

definition set_state_or_die :: "streamer_state \<Rightarrow> streamer_state \<Rightarrow> streamer \<Rightarrow> streamer res" where
  "set_state_or_die old_state new_state st =
     (case set_state old_state new_state st of
        (result, st) \<Rightarrow> bindE (assertE result) (\<lambda>_. Inr st))"

definition init_streamer :: "bool \<Rightarrow> queue_ptr option \<Rightarrow> streamer \<Rightarrow> bool \<times> streamer" where
  "init_streamer roster data_queue st =
     (if st_running st \<or> st_roster st \<or> st_queue st \<noteq> None then (False, st)
      else if \<not> roster \<or> data_queue = None then (False, st)
      else (True, st\<lparr>st_roster := True, st_queue := data_queue\<rparr>))"

definition sendmavmsg :: "mav_msg \<Rightarrow> 32 word \<Rightarrow> 32 word \<Rightarrow> streamer \<Rightarrow> streamer res" where
  "sendmavmsg m dsys dcomp st =
     bindE (requireE (st_roster st)) (\<lambda>_. Inr (st\<lparr>sent := sent st @ [(m, dsys, dcomp)]\<rparr>))"

section \<open>Message handlers\<close>

text \<open>The fields the handler reads.\<close>

record command_long =
  lc_command :: mav_cmd
  lc_confirmation :: byte
  lc_target_system :: byte
  lc_target_component :: byte

record sparse_address =
  group_id :: "32 word"
  instance_id :: "32 word"

definition same_target :: "sparse_address \<Rightarrow> streamer \<Rightarrow> bool" where
  "same_target sa st \<longleftrightarrow> ucast (target_system st) = group_id sa \<and> ucast (target_component st) = instance_id sa"

text \<open>The new state for a state that was loaded; a start in \<open>STATE_INIT\<close> takes the targets.\<close>

definition decide_command ::
    "command_long \<Rightarrow> sparse_address \<Rightarrow> streamer_state \<Rightarrow> streamer \<Rightarrow> streamer_state \<times> streamer" where
  "decide_command lc sa state st =
     (if lc_command lc = LOGGING_START then
        if state = STATE_INIT then
          (STATE_CONNECTED, st\<lparr>target_system := ucast (group_id sa), target_component := ucast (instance_id sa)\<rparr>)
        else if state = STATE_STOPPED then
          (if same_target sa st then STATE_RUNNING else STATE_UNKNOWN, st)
        else (STATE_UNKNOWN, st)
      else
        if state = STATE_RUNNING then
          (if same_target sa st then STATE_STOPPED else STATE_UNKNOWN, st)
        else (STATE_UNKNOWN, st))"

definition commit_command ::
    "command_long \<Rightarrow> sparse_address \<Rightarrow> streamer_state \<Rightarrow> streamer_state \<Rightarrow> streamer \<Rightarrow> streamer res" where
  "commit_command lc sa state new_state st =
     bindE (if new_state \<noteq> STATE_UNKNOWN then set_state_or_die state new_state st else Inr st) (\<lambda>st.
     if lc_confirmation lc \<noteq> 0 then
       sendmavmsg
         (Command_Ack (lc_target_system lc) (lc_target_component lc) (lc_command lc)
            (new_state \<noteq> STATE_UNKNOWN) port (ucast (group_id sa)) (instance_id sa))
         (group_id sa) (instance_id sa) st
     else Inr st)"

text \<open>The handler when nothing comes between.\<close>

definition proto_command_handler :: "command_long \<Rightarrow> sparse_address \<Rightarrow> streamer \<Rightarrow> streamer res" where
  "proto_command_handler lc sa st =
     (if lc_command lc \<noteq> LOGGING_START \<and> lc_command lc \<noteq> LOGGING_STOP then Inr st
      else
        let state = st_state st in
        case decide_command lc sa state st of
          (new_state, st) \<Rightarrow> commit_command lc sa state new_state st)"

definition commit_ack :: "16 word \<Rightarrow> streamer_state \<Rightarrow> streamer \<Rightarrow> streamer res" where
  "commit_ack sequence state st =
     (if state = STATE_ACK_WAIT then
        let new_state = (if sequence = word_of_nat (seq_no st) then STATE_ACK_RECV else STATE_RESEND_DEF) in
        set_state_or_die state new_state st
      else Inr st)"

definition proto_logging_ack_handler :: "16 word \<Rightarrow> streamer \<Rightarrow> streamer res" where
  "proto_logging_ack_handler sequence st = commit_ack sequence (st_state st) st"

section \<open>Sending\<close>

text \<open>
  \<open>fld\<close> is the length of the data field, \<open>junk\<close> what the memory of \<open>tempbuf\<close> held before: it is an
  uninitialised array of \<open>fld\<close> bytes. The message is sent later, by the scheduler.
\<close>

definition send_ulog :: "nat \<Rightarrow> (nat \<Rightarrow> byte) \<Rightarrow> byte list \<Rightarrow> streamer \<Rightarrow> (bool \<times> streamer) res" where
  "send_ulog fld junk dt st =
     (if fld < length dt then Inr (False, st)
      else
        bindE (requireE (st_roster st)) (\<lambda>_.
        bindE (memcpy_at (map junk [0..<fld]) 0 dt) (\<lambda>tempbuf.
        let msg = Logging_Data (target_system st) (target_component st) 0 (word_of_nat (length dt)) 255 tempbuf in
        Inr (True, st\<lparr>posted := posted st @ [msg]\<rparr>))))"

definition run_posted :: "streamer \<Rightarrow> streamer res" where
  "run_posted st =
     (case posted st of
        [] \<Rightarrow> Inr st
      | msg # rest \<Rightarrow>
          sendmavmsg msg (ucast (target_system st)) (ucast (target_component st)) (st\<lparr>posted := rest\<rparr>))"

definition send_ulog_ack :: "nat \<Rightarrow> byte list \<Rightarrow> 16 word \<Rightarrow> streamer \<Rightarrow> (bool \<times> streamer) res" where
  "send_ulog_ack fld dt sq st =
     (if fld < length dt then Inr (False, st)
      else
        bindE (sendmavmsg
          (Logging_Data_Acked (target_system st) (target_component st) sq (word_of_nat (length dt)) 255 dt)
          (ucast (target_system st)) (ucast (target_component st)) st) (\<lambda>st.
        Inr (True, st)))"

section \<open>The synchronisation loop\<close>

text \<open>Where the thread of \<open>sync_loop\<close> is.\<close>

datatype sync_pc = Collecting | Sending | Synced

text \<open>One iteration of the loop that collects what comes before the first A message.\<close>

definition collect_step :: "'q cq_ops \<Rightarrow> streamer \<Rightarrow> 'q \<Rightarrow> (sync_pc \<times> streamer \<times> 'q) res" where
  "collect_step Q st q =
     bindE (deref (st_queue st)) (\<lambda>_.
     if cq_empty Q q then Inr (Collecting, st, q)
     else
       bindE (deref (cq_front Q q)) (\<lambda>dp.
       bindE (check_ulog_data_begin dp 0) (\<lambda>begins.
       if begins then Inr (Sending, st\<lparr>discarding := True\<rparr>, q)
       else
         let q = snd (cq_dequeue Q q) in
         Inr (Collecting, st\<lparr>definitions := definitions st @ [dp]\<rparr>, q))))"

definition send_definition :: "nat \<Rightarrow> streamer_state \<Rightarrow> streamer \<Rightarrow> streamer res" where
  "send_definition fld state st =
     bindE (if seq_no st < length (definitions st) then Inr (definitions st ! seq_no st) else Inl Undefined)
       (\<lambda>dp.
     bindE (send_ulog_ack fld dp (word_of_nat (seq_no st)) st) (\<lambda>(ok, st).
     bindE (assertE ok) (\<lambda>_.
     set_state_or_die state STATE_ACK_WAIT (st\<lparr>sync_timeout := 0\<rparr>))))"

text \<open>The body of the second loop for the state it loaded.\<close>

definition sync_act :: "nat \<Rightarrow> streamer_state \<Rightarrow> streamer \<Rightarrow> streamer res" where
  "sync_act fld state st =
     (case state of
        STATE_CONNECTED \<Rightarrow>
          bindE (assertE (target_system st \<noteq> 0)) (\<lambda>_.
          bindE (assertE (target_component st \<noteq> 0)) (\<lambda>_. send_definition fld state st))
      | STATE_RESEND_DEF \<Rightarrow> send_definition fld state st
      | STATE_SEND_DEF \<Rightarrow> send_definition fld state st
      | STATE_ACK_RECV \<Rightarrow>
          bindE (set_state_or_die state STATE_SEND_DEF st) (\<lambda>st. Inr (st\<lparr>seq_no := seq_no st + 1\<rparr>))
      | STATE_STOPPED \<Rightarrow> Inr st
      | STATE_INIT \<Rightarrow> Inr st
      | STATE_ACK_WAIT \<Rightarrow>
          let st = st\<lparr>sync_timeout := sync_timeout st + 50\<rparr> in
          if sync_timeout st = 1000 then set_state_or_die state STATE_RESEND_DEF st else Inr st
      | _ \<Rightarrow> Inl Abort)"

definition sync_finish :: "streamer \<Rightarrow> streamer" where
  "sync_finish st = (snd (set_state (st_state st) STATE_RUNNING st))\<lparr>st_running := True\<rparr>"

text \<open>One turn of the second loop, or its end, when nothing comes between load and exchange.\<close>

definition sync_turn :: "nat \<Rightarrow> streamer \<Rightarrow> (sync_pc \<times> streamer) res" where
  "sync_turn fld st =
     (if seq_no st < length (definitions st) then
        bindE (sync_act fld (st_state st) st) (\<lambda>st. Inr (Sending, st))
      else Inr (Synced, sync_finish st))"

text \<open>One turn of \<open>discard_loop\<close>; what \<open>dequeue\<close> returns is not looked at.\<close>

definition discard_step :: "'q cq_ops \<Rightarrow> streamer \<Rightarrow> 'q \<Rightarrow> (streamer \<times> 'q) res" where
  "discard_step Q st q =
     (if \<not> discarding st \<or> st_running st then Inr (st, q)
      else
        bindE (deref (st_queue st)) (\<lambda>_.
        Inr (st\<lparr>skip_cntr := skip_cntr st + 1\<rparr>, snd (cq_dequeue Q q))))"

section \<open>The data loop\<close>

text \<open>One message, for the state \<open>state\<close> that was loaded when the loop began.\<close>

definition stream_one ::
    "'q cq_ops \<Rightarrow> nat \<Rightarrow> streamer_state \<Rightarrow> (nat \<Rightarrow> byte) \<Rightarrow> streamer \<Rightarrow> 'q \<Rightarrow> (streamer \<times> 'q) res" where
  "stream_one Q fld state junk st q =
     (case cq_dequeue Q q of (dp, q) \<Rightarrow>
      case dp of
        None \<Rightarrow> Inl Abort
      | Some bs \<Rightarrow>
          if state = STATE_STOPPED then Inr (st\<lparr>skip_cntr := skip_cntr st + 1\<rparr>, q)
          else
            bindE (send_ulog fld junk bs st) (\<lambda>(ok, st).
            if \<not> ok then Inr (st\<lparr>skip_cntr := skip_cntr st + 1\<rparr>, q)
            else Inr (st\<lparr>send_cntr := send_cntr st + 1\<rparr>, q)))"

text \<open>As many iterations as there are \<open>junk\<close>s; the flag says that the queue ran empty.\<close>

fun stream_loop ::
    "'q cq_ops \<Rightarrow> nat \<Rightarrow> streamer_state \<Rightarrow> (nat \<Rightarrow> byte) list \<Rightarrow> streamer \<Rightarrow> 'q \<Rightarrow> (bool \<times> streamer \<times> 'q) res" where
  "stream_loop Q fld state [] st q = Inr (cq_empty Q q, st, q)"
| "stream_loop Q fld state (junk # js) st q =
     (if cq_empty Q q then Inr (True, st, q)
      else bindE (stream_one Q fld state junk st q) (\<lambda>(st, q). stream_loop Q fld state js st q))"

definition stream_main ::
    "'q cq_ops \<Rightarrow> nat \<Rightarrow> (nat \<Rightarrow> byte) list \<Rightarrow> streamer \<Rightarrow> 'q \<Rightarrow> (bool \<times> streamer \<times> 'q) res" where
  "stream_main Q fld js st q =
     (if \<not> st_running st then Inr (True, st, q)
      else
        let state = st_state st in
        bindE (assertE (state = STATE_RUNNING \<or> state = STATE_STOPPED)) (\<lambda>_.
        bindE (deref (st_queue st)) (\<lambda>_. stream_loop Q fld state js st q)))"

end
