(* ===== verification/Telemetry.thy ===== *)
theory Telemetry
  imports Messages Id_Gen Logger Streamer
begin

text \<open>
  \<open>MuTelemetry\<close>, the class the application uses: its configuration, the two id generators,
  the two queues, the logger and the streamer. Each public operation is one definition on
  the record \<open>mu_telemetry\<close>; the clock, the configuration file, the operations of the queue
  and the date format are arguments. The four operations that send a message and return a
  \<open>bool\<close> return it beside the new object.
\<close>

section \<open>The object\<close>

record 'q mu_telemetry =
  with_network :: bool
  with_local_log :: bool
  log_dir :: string
  log_file :: string
  start_timestamp :: "64 word"
  msg_id :: "16 word id_gen"
  multi_id :: "16 word \<rightharpoonup> 8 word id_gen"
  log_queue :: 'q
  net_queue :: 'q
  mt_logger :: logger
  mt_streamer :: streamer
  components :: nat
  streaming :: "bool option"

definition new_mu_telemetry :: "'q \<Rightarrow> 'q mu_telemetry" where
  "new_mu_telemetry empty_queue =
     \<lparr>with_network = False, with_local_log = False, log_dir = [], log_file = [], start_timestamp = 0,
      msg_id = new_id_gen, multi_id = Map.empty, log_queue = empty_queue, net_queue = empty_queue,
      mt_logger = new_logger, mt_streamer = new_streamer, components = 0, streaming = None\<rparr>"

definition is_log_enabled :: "'q mu_telemetry \<Rightarrow> bool" where
  "is_log_enabled mt \<longleftrightarrow> with_local_log mt"

definition is_net_enabled :: "'q mu_telemetry \<Rightarrow> bool" where
  "is_net_enabled mt \<longleftrightarrow> with_network mt"

definition is_enabled :: "'q mu_telemetry \<Rightarrow> bool" where
  "is_enabled mt \<longleftrightarrow> with_network mt \<or> with_local_log mt"

definition to_io :: "'q cq_ops \<Rightarrow> byte list \<Rightarrow> 'q mu_telemetry \<Rightarrow> 'q mu_telemetry" where
  "to_io Q dp mt =
     (let mt = (if is_log_enabled mt then mt\<lparr>log_queue := cq_enqueue Q dp (log_queue mt)\<rparr> else mt) in
      if is_net_enabled mt then mt\<lparr>net_queue := cq_enqueue Q dp (net_queue mt)\<rparr> else mt)"

section \<open>Ids\<close>

definition get_msg_id :: "string \<Rightarrow> 'q mu_telemetry \<Rightarrow> 16 word \<times> 'q mu_telemetry" where
  "get_msg_id msg_name mt =
     (case get_id msg_name (msg_id mt) of (i, g) \<Rightarrow> (i, mt\<lparr>msg_id := g\<rparr>))"

text \<open>\<open>multi_id_[msg_id]\<close> makes a new generator when there is none.\<close>

definition get_multi_id :: "16 word \<Rightarrow> string \<Rightarrow> 'q mu_telemetry \<Rightarrow> byte \<times> 'q mu_telemetry" where
  "get_multi_id mid inst_name mt =
     (let mt = (if multi_id mt mid = None then mt\<lparr>multi_id := (multi_id mt)(mid \<mapsto> new_id_gen)\<rparr> else mt);
          gen = (case multi_id mt mid of None \<Rightarrow> new_id_gen | Some g \<Rightarrow> g) in
      case get_id inst_name gen of (i, g) \<Rightarrow> (i, mt\<lparr>multi_id := (multi_id mt)(mid \<mapsto> g)\<rparr>))"

text \<open>The overload that takes the name of the type.\<close>

definition get_multi_id_by_name :: "string \<Rightarrow> string \<Rightarrow> 'q mu_telemetry \<Rightarrow> byte \<times> 'q mu_telemetry" where
  "get_multi_id_by_name msg_name inst_name mt =
     (case get_msg_id msg_name mt of (mid, mt) \<Rightarrow> get_multi_id mid inst_name mt)"

definition get_ids :: "string \<Rightarrow> string \<Rightarrow> 'q mu_telemetry \<Rightarrow> (16 word \<times> byte) \<times> 'q mu_telemetry" where
  "get_ids msg_name inst_name mt =
     (case get_msg_id msg_name mt of (mid, mt) \<Rightarrow>
      case get_multi_id mid inst_name mt of (i, mt) \<Rightarrow> ((mid, i), mt))"

lemma get_multi_id_by_name_ids: "get_multi_id_by_name n a mt = (case get_ids n a mt of ((_, i), mt) \<Rightarrow> (i, mt))"
  by (simp add: get_multi_id_by_name_def get_ids_def split: prod.splits)

section \<open>Configuration and start\<close>

text \<open>
  What \<open>MuConfig\<close> answers: whether it could be read, and for a name \<open>None\<close> (no object),
  \<open>Some None\<close> (an object without such a value) or the value.
\<close>

record muconfig =
  is_ok :: bool
  get_bool :: "string \<Rightarrow> bool option option"
  get_string :: "string \<Rightarrow> string option option"

definition config_value :: "'a option option \<Rightarrow> 'a \<Rightarrow> 'a" where
  "config_value obj init = (case obj of Some (Some v) \<Rightarrow> v | _ \<Rightarrow> init)"

definition read_config :: "muconfig option \<Rightarrow> 'q mu_telemetry \<Rightarrow> bool \<times> 'q mu_telemetry" where
  "read_config config mt =
     (case config of
        None \<Rightarrow> (False, mt)
      | Some cfg \<Rightarrow>
          if is_ok cfg then
            let net = config_value (get_bool cfg ''mutelemetry.with_network'') False;
                local = config_value (get_bool cfg ''mutelemetry.with_local_log'') False;
                mt = (if local
                      then mt\<lparr>log_dir := config_value (get_string cfg ''mutelemetry.log_directory_path'') []\<rparr>
                      else mt) in
            (True, mt\<lparr>with_network := net, with_local_log := local\<rparr>)
          else (False, mt))"

definition create_header_and_flags :: "'q cq_ops \<Rightarrow> 'q mu_telemetry \<Rightarrow> bool \<times> 'q mu_telemetry" where
  "create_header_and_flags Q mt =
     (if \<not> is_enabled mt then (True, mt)
      else (True, to_io Q flags_message (to_io Q (header_message (start_timestamp mt)) mt)))"

text \<open>\<open>date\<close> is the extended ISO text boost makes of a number of microseconds.\<close>

definition log_name :: "(64 word \<Rightarrow> string) \<Rightarrow> string \<Rightarrow> 64 word \<Rightarrow> string" where
  "log_name date dir t =
     dir @ (if dir \<noteq> [] \<and> last dir \<noteq> CHR ''/'' then ''/'' else []) @ ''mutelemetry_'' @ date t @ ''.ulg''"

definition init_network :: "bool \<Rightarrow> 'q mu_telemetry \<Rightarrow> 'q mu_telemetry" where
  "init_network rt mt =
     (if with_network mt then
        case init_streamer True (Some Net_Queue) (mt_streamer mt) of
          (res, st) \<Rightarrow> mt\<lparr>with_network := res, mt_streamer := st, streaming := (if res then Some rt else None)\<rparr>
      else mt)"

definition init_local_log :: "(64 word \<Rightarrow> string) \<Rightarrow> bool \<Rightarrow> 'q mu_telemetry \<Rightarrow> 'q mu_telemetry" where
  "init_local_log date opens mt =
     (if with_local_log mt then
        let mt = mt\<lparr>log_file := log_name date (log_dir mt) (start_timestamp mt)\<rparr> in
        case init_logger opens (log_file mt) (Some Log_Queue) (mt_logger mt) of
          (res, lg) \<Rightarrow> mt\<lparr>with_local_log := res, mt_logger := (if res then start_logger lg else lg)\<rparr>
      else mt)"

text \<open>\<open>roster = False\<close> is the null pointer that is the default of the parameter.\<close>

definition init ::
    "'q cq_ops \<Rightarrow> (64 word \<Rightarrow> string) \<Rightarrow> muconfig option \<Rightarrow> bool \<Rightarrow> 64 word \<Rightarrow> bool \<Rightarrow> bool \<Rightarrow>
     'q mu_telemetry \<Rightarrow> (bool \<times> 'q mu_telemetry) res" where
  "init Q date config opens now roster rt mt =
     (if start_timestamp mt \<noteq> 0 then Inr (False, mt)
      else
        bindE (requireE roster) (\<lambda>_.
        let mt = mt\<lparr>components := components mt + 1, start_timestamp := now\<rparr>;
            mt = (case read_config config mt of
                    (ok, mt) \<Rightarrow> if ok then init_local_log date opens (init_network rt mt) else mt);
            mt = (if is_enabled mt then snd (create_header_and_flags Q mt) else mt) in
        Inr (is_enabled mt, mt)))"

section \<open>Registering and storing\<close>

text \<open>The end of every sender: the message goes out and the result is \<open>true\<close>.\<close>

definition sends ::
    "'q cq_ops \<Rightarrow> byte list res \<Rightarrow> 'q mu_telemetry \<Rightarrow> (bool \<times> 'q mu_telemetry) res" where
  "sends Q message mt = bindE message (\<lambda>bs. Inr (True, to_io Q bs mt))"

definition register_param_int ::
    "'q cq_ops \<Rightarrow> string \<Rightarrow> 32 word \<Rightarrow> 'q mu_telemetry \<Rightarrow> (bool \<times> 'q mu_telemetry) res" where
  "register_param_int Q key val mt =
     (if \<not> is_enabled mt then Inr (True, mt) else sends Q (param_message key (enc_le 4 val)) mt)"

definition register_param_float ::
    "'q cq_ops \<Rightarrow> string \<Rightarrow> 32 word \<Rightarrow> 'q mu_telemetry \<Rightarrow> (bool \<times> 'q mu_telemetry) res" where
  "register_param_float Q key bits mt =
     (if \<not> is_enabled mt then Inr (True, mt) else sends Q (param_message key (enc_le 4 bits)) mt)"

definition register_info ::
    "'q cq_ops \<Rightarrow> string \<Rightarrow> string \<Rightarrow> 'q mu_telemetry \<Rightarrow> (bool \<times> 'q mu_telemetry) res" where
  "register_info Q key val mt =
     (if \<not> is_enabled mt then Inr (True, mt) else sends Q (info_message key val) mt)"

definition register_info_multi ::
    "'q cq_ops \<Rightarrow> string \<Rightarrow> string \<Rightarrow> bool \<Rightarrow> 'q mu_telemetry \<Rightarrow> (bool \<times> 'q mu_telemetry) res" where
  "register_info_multi Q key val continued mt =
     (if \<not> is_enabled mt then Inr (True, mt) else sends Q (info_multi_message key val continued) mt)"

definition register_data_format ::
    "'q cq_ops \<Rightarrow> string \<Rightarrow> string \<Rightarrow> 'q mu_telemetry \<Rightarrow> (bool \<times> 'q mu_telemetry) res" where
  "register_data_format Q type_name flds mt =
     (if \<not> is_enabled mt then Inr (True, mt) else sends Q (format_message type_name flds) mt)"

definition store_data_intl ::
    "'q cq_ops \<Rightarrow> byte list \<Rightarrow> string \<Rightarrow> string \<Rightarrow> 64 word \<Rightarrow> 'q mu_telemetry \<Rightarrow> (bool \<times> 'q mu_telemetry) res" where
  "store_data_intl Q dt type_name annotation timestamp mt =
     (if \<not> is_enabled mt then Inr (True, mt)
      else
        case get_msg_id type_name mt of (mid, mt) \<Rightarrow>
        case get_multi_id mid annotation mt of (inst, mt) \<Rightarrow>
        sends Q (data_message dt type_name mid inst timestamp) mt)"

text \<open>
  The three \<open>store_data\<close>s differ in where the bytes come from: a \<open>Serializable\<close>, a function,
  or the caller; the first two are called for them before the clock is read.
\<close>

definition store_data_serialized ::
    "'q cq_ops \<Rightarrow> (unit \<Rightarrow> byte list) \<Rightarrow> string \<Rightarrow> string \<Rightarrow> 64 word \<Rightarrow> 'q mu_telemetry \<Rightarrow>
     (bool \<times> 'q mu_telemetry) res" where
  "store_data_serialized Q serialize type_name annotation now mt =
     (let dt = serialize () in store_data_intl Q dt type_name annotation now mt)"

definition store_data ::
    "'q cq_ops \<Rightarrow> byte list \<Rightarrow> string \<Rightarrow> string \<Rightarrow> 64 word \<Rightarrow> 'q mu_telemetry \<Rightarrow> (bool \<times> 'q mu_telemetry) res" where
  "store_data Q dt type_name annotation now mt = store_data_intl Q dt type_name annotation now mt"

definition store_message ::
    "'q cq_ops \<Rightarrow> string \<Rightarrow> ulog_level \<Rightarrow> 64 word \<Rightarrow> 'q mu_telemetry \<Rightarrow> (bool \<times> 'q mu_telemetry) res" where
  "store_message Q message level tstmp mt =
     (if \<not> is_enabled mt then Inr (True, mt) else sends Q (log_message message level tstmp) mt)"

end
