(* ===== verification/Parser_Props.thy ===== *)
theory Parser_Props
  imports Parser
begin

text \<open>
  What the parser keeps: the shape of its maps in each state (\<open>parser_ok\<close>), the order of
  its states, and the effect of each method on the object.
\<close>

section \<open>Effect of the methods\<close>

lemma parse_header_Inr:
  "parse_header mem p ps = Inr (ps', ns) \<Longrightarrow>
   (\<exists>t. ps' = ps\<lparr>start_time := t\<rparr>) \<and> ns \<in> {STATE_FLAGS, STATE_INVALID}"
  by (cases ps) (auto simp: parse_header_def res_simps split: option.splits)

lemma parse_flags_Inr:
  "parse_flags mem p ps = Inr (ps', ns) \<Longrightarrow> ps' = ps \<and> ns \<in> {STATE_DEFINITION, STATE_INVALID}"
  by (auto simp: parse_flags_def res_simps Let_def split: if_splits)

lemma parse_info_Inr:
  "parse_info mem m sz ps = Inr (ps', ns) \<Longrightarrow> (\<exists>i. ps' = ps\<lparr>info := i\<rparr>) \<and> ns = p_state ps"
  by (auto simp: parse_info_def res_simps Let_def)

lemma parse_multi_Inr: "parse_multi mem m sz ps = Inr (ps', ns) \<Longrightarrow> ps' = ps \<and> ns = p_state ps"
  by (auto simp: parse_multi_def)

lemma parse_format_Inr:
  "parse_format mem m sz ps = Inr (ps', ns) \<Longrightarrow>
   (ps' = ps \<and> ns = STATE_INVALID) \<or>
   (\<exists>fmt. ps' = ps\<lparr>formats_map := (formats_map ps)(fmt_name fmt \<mapsto> fmt)\<rparr> \<and> ns = p_state ps)"
  by (auto simp: parse_format_def res_simps split: option.splits)

lemma parse_param_Inr:
  "parse_param mem m sz ps = Inr (ps', ns) \<Longrightarrow>
   (\<exists>q. ps' = ps\<lparr>parameters := q\<rparr>) \<and> ns \<in> {p_state ps, STATE_INVALID}"
  by (cases ps) (auto simp: parse_param_def res_simps Let_def split: if_splits)

lemma parse_logged_Inr:
  "parse_logged mem m sz ps = Inr (ps', ns) \<Longrightarrow>
   (\<exists>l k. ps' = ps\<lparr>log_calls := l, message_logs := k\<rparr>) \<and> ns = STATE_DEFINITION_OR_DATA"
  by (auto simp: parse_logged_def res_simps Let_def)

lemma parse_remove_Inr:
  "parse_remove mem m sz ps = Inr (ps', ns) \<Longrightarrow>
   (\<exists>i. ps' = ps\<lparr>subscriptions := (subscriptions ps)(i := None)\<rparr>) \<and> ns = STATE_DEFINITION_OR_DATA"
  by (auto simp: parse_remove_def res_simps)

definition new_sub :: "parser \<Rightarrow> 16 word \<Rightarrow> byte \<Rightarrow> string \<Rightarrow> subscription" where
  "new_sub ps msg_id multi_id name =
     \<lparr>sub_msg_id = msg_id, sub_multi_id = multi_id, sub_message_name = name,
      sub_format = (if name \<in> dom (formats_map ps) then Some name else None)\<rparr>"

definition added :: "16 word \<Rightarrow> byte \<Rightarrow> string \<Rightarrow> parser \<Rightarrow> parser" where
  "added msg_id multi_id name ps =
     ps\<lparr>subscriptions := map_insert msg_id (new_sub ps msg_id multi_id name) (subscriptions ps),
        with_multi_id := (if 0 < multi_id then insert name (with_multi_id ps) else with_multi_id ps)\<rparr>"

lemma parse_add_eq:
  "parse_add mem m sz ps =
     bindE (rd_u8 mem m) (\<lambda>k. bindE (rd_u16 mem (m + 1)) (\<lambda>i.
     bindE (std_string mem (m + 3) (uint sz - 3)) (\<lambda>n. Inr (added i k n ps, STATE_DEFINITION_OR_DATA))))"
  unfolding parse_add_def Let_def added_def new_sub_def by (cases ps) (auto intro!: bindE_cong)

lemma parse_add_Inr:
  "parse_add mem m sz ps = Inr (ps', ns) \<Longrightarrow>
   (\<exists>i k n. ps' = added i k n ps) \<and> ns = STATE_DEFINITION_OR_DATA"
  unfolding parse_add_eq by (auto simp only: bindE_eq_Inr sum.inject prod.inject)

section \<open>The invariant\<close>

definition series_ok :: "nat \<Rightarrow> formats \<Rightarrow> timeseries \<Rightarrow> bool" where
  "series_ok stk F ts \<longleftrightarrow>
     length (timestamps ts) = 1 \<and> (\<forall>c \<in> set (ts_data ts). length (snd c) = 1) \<and>
     (\<exists>n fmt cs. F n = Some fmt \<and> append_vector stk F (fmt_fields fmt) [] [] = Inr cs \<and>
        map fst (ts_data ts) = map fst cs)"

definition sub_ok :: "formats \<Rightarrow> 16 word \<Rightarrow> subscription \<Rightarrow> bool" where
  "sub_ok F i s \<longleftrightarrow> sub_msg_id s = i \<and>
     sub_format s = (if sub_message_name s \<in> dom F then Some (sub_message_name s) else None)"

definition parser_ok :: "nat \<Rightarrow> parser \<Rightarrow> bool" where
  "parser_ok stk ps \<longleftrightarrow>
     (p_state ps \<in> {STATE_HEADER, STATE_FLAGS, STATE_DEFINITION} \<longrightarrow>
        subscriptions ps = Map.empty \<and> timeseries_map ps = Map.empty \<and> with_multi_id ps = {}) \<and>
     (\<forall>n f. formats_map ps n = Some f \<longrightarrow> fmt_name f = n) \<and>
     (\<forall>i s. subscriptions ps i = Some s \<longrightarrow> sub_ok (formats_map ps) i s) \<and>
     (\<forall>n ts. timeseries_map ps n = Some ts \<longrightarrow> series_ok stk (formats_map ps) ts)"

lemma parser_ok_new: "parser_ok stk new_parser"
  by (simp add: parser_ok_def new_parser_def)

text \<open>What \<open>parser_ok\<close> looks at besides the state.\<close>

definition maps_ok :: "nat \<Rightarrow> parser \<Rightarrow> bool" where
  "maps_ok stk ps \<longleftrightarrow>
     (\<forall>n f. formats_map ps n = Some f \<longrightarrow> fmt_name f = n) \<and>
     (\<forall>i s. subscriptions ps i = Some s \<longrightarrow> sub_ok (formats_map ps) i s) \<and>
     (\<forall>n ts. timeseries_map ps n = Some ts \<longrightarrow> series_ok stk (formats_map ps) ts)"

definition no_data :: "parser \<Rightarrow> bool" where
  "no_data ps \<longleftrightarrow> subscriptions ps = Map.empty \<and> timeseries_map ps = Map.empty \<and> with_multi_id ps = {}"

lemma parser_ok_iff:
  "parser_ok stk ps \<longleftrightarrow>
     maps_ok stk ps \<and> (p_state ps \<in> {STATE_HEADER, STATE_FLAGS, STATE_DEFINITION} \<longrightarrow> no_data ps)"
  by (auto simp: parser_ok_def maps_ok_def no_data_def)

lemma maps_ok_frame [simp]:
  "maps_ok stk (ps\<lparr>start_time := t\<rparr>) = maps_ok stk ps"
  "maps_ok stk (ps\<lparr>info := i\<rparr>) = maps_ok stk ps"
  "maps_ok stk (ps\<lparr>parameters := q\<rparr>) = maps_ok stk ps"
  "maps_ok stk (ps\<lparr>log_calls := l, message_logs := k\<rparr>) = maps_ok stk ps"
  "maps_ok stk (ps\<lparr>p_state := s\<rparr>) = maps_ok stk ps"
  by (simp_all add: maps_ok_def)

lemma no_data_frame [simp]:
  "no_data (ps\<lparr>start_time := t\<rparr>) = no_data ps"
  "no_data (ps\<lparr>info := i\<rparr>) = no_data ps"
  "no_data (ps\<lparr>parameters := q\<rparr>) = no_data ps"
  "no_data (ps\<lparr>p_state := s\<rparr>) = no_data ps"
  "no_data (ps\<lparr>formats_map := F\<rparr>) = no_data ps"
  by (simp_all add: no_data_def)

lemma map_insert_Some:
  "map_insert k v m i = Some w \<Longrightarrow> m i = Some w \<or> (i = k \<and> w = v)"
  by (auto simp: map_insert_def split: option.splits if_splits)

lemma maps_ok_added: "maps_ok stk ps \<Longrightarrow> maps_ok stk (added i k n ps)"
  by (auto simp: maps_ok_def added_def new_sub_def sub_ok_def dest!: map_insert_Some)

lemma maps_ok_removed: "maps_ok stk ps \<Longrightarrow> maps_ok stk (ps\<lparr>subscriptions := (subscriptions ps)(i := None)\<rparr>)"
  by (simp add: maps_ok_def)

lemma maps_ok_format:
  "maps_ok stk ps \<Longrightarrow> no_data ps \<Longrightarrow>
   maps_ok stk (ps\<lparr>formats_map := (formats_map ps)(fmt_name fmt \<mapsto> fmt)\<rparr>)"
  by (auto simp: maps_ok_def no_data_def)

section \<open>Data messages keep the series well-formed\<close>

lemma fill_singletons:
  "\<forall>c \<in> set dat. length (snd c) = 1 \<Longrightarrow> \<forall>c \<in> set (fill dat i vs). length (snd c) = 1"
proof (induction dat i vs rule: fill.induct)
  case (2 dat i v vs)
  then have "\<forall>c \<in> set (dat[i := (fst (dat ! i), [v])]). length (snd c) = 1"
    by (auto dest!: set_update_subset_insert [THEN subsetD])
  with 2 show ?case by simp
qed simp

lemma map_fst_fill: "map fst (fill dat i vs) = map fst dat"
  by (intro nth_equalityI) (simp_all add: fst_fill)

lemma append_vector_empty:
  assumes "append_vector d F flds pre [] = Inr cs"
  shows "leaf_count d F flds n = Inr (n + length cs)"
  using append_vector_leaves [OF assms, of n] by (auto simp: grown_def)

lemma parse_data_intl_fill:
  assumes "parse_data_intl d F mem flds (p, 0, dat) = Inr (p', i', dat')"
  obtains vs where "dat' = fill dat 0 vs" and "leaf_count d F flds n = Inr (n + length vs)"
    and "length vs \<le> length dat"
  using parse_data_intl_leaves [OF assms, of n] by (auto simp: walked_def)

text \<open>
  The channels of a series are those \<open>create_timeseries\<close> made, and after a D message every
  one of them holds one value: the walk that decodes and the walk that created agree.
\<close>

lemma new_series_filled:
  assumes "create_timeseries stk F fmt = Inr ts"
    and "parse_data_intl stk F mem (fmt_fields fmt) (p, 0, ts_data ts) = Inr (p', i', dat')"
  obtains cs vs where "append_vector stk F (fmt_fields fmt) [] [] = Inr cs"
    and "dat' = zip (map fst cs) (map (\<lambda>v. [v]) vs)" and "length vs = length cs"
proof -
  from assms(1) obtain cs where cs: "append_vector stk F (fmt_fields fmt) [] [] = Inr cs"
      and ts: "ts_data ts = cs"
    by (auto simp: create_timeseries_def res_simps)
  obtain vs where vs: "dat' = fill cs 0 vs" "leaf_count stk F (fmt_fields fmt) 0 = Inr (0 + length vs)"
    using parse_data_intl_fill [OF assms(2), of 0] unfolding ts by metis
  moreover have "leaf_count stk F (fmt_fields fmt) 0 = Inr (0 + length cs)"
    using append_vector_empty [OF cs] .
  ultimately have "length vs = length cs" by simp
  with vs(1) cs show thesis by (intro that) (auto simp: fill_all)
qed

lemma series_ok_refilled:
  assumes "series_ok stk F ts" and "parse_data_intl stk F mem flds (p, 0, ts_data ts) = Inr (p', i', dat')"
  shows "series_ok stk F (ts\<lparr>timestamps := [tv], ts_data := dat'\<rparr>)"
proof -
  obtain vs where dat': "dat' = fill (ts_data ts) 0 vs"
    using parse_data_intl_fill [OF assms(2)] by metis
  have "\<forall>c \<in> set dat'. length (snd c) = 1"
    unfolding dat' by (rule fill_singletons) (use assms(1) in \<open>simp add: series_ok_def\<close>)
  moreover have "map fst dat' = map fst (ts_data ts)" by (simp add: dat' map_fst_fill)
  ultimately show ?thesis using assms(1) by (simp add: series_ok_def)
qed

lemma series_ok_created:
  assumes "F n = Some fmt" and "create_timeseries stk F fmt = Inr ts"
    and "parse_data_intl stk F mem (fmt_fields fmt) (p, 0, ts_data ts) = Inr (p', i', dat')"
  shows "series_ok stk F (ts\<lparr>timestamps := [tv], ts_data := dat'\<rparr>)"
proof -
  obtain cs vs where cs: "append_vector stk F (fmt_fields fmt) [] [] = Inr cs"
    and dat': "dat' = zip (map fst cs) (map (\<lambda>v. [v]) vs)" and len: "length vs = length cs"
    using new_series_filled [OF assms(2,3)] by metis
  have "\<forall>c \<in> set dat'. length (snd c) = 1" unfolding dat' by (force dest: set_zip_rightD)
  moreover have "map fst dat' = map fst cs" using len by (simp add: dat')
  ultimately show ?thesis using assms(1) cs by (auto simp: series_ok_def)
qed

text \<open>The steps of a D message whose subscription is known.\<close>

lemma parse_data_message_cases:
  assumes "parse_data_message stk mem m ps = Inr (ps', ns)"
  obtains (unknown) i where "rd_u16 mem m = Inr i" and "subscriptions ps i = None"
      and "ps' = ps" and "ns = STATE_DEFINITION_OR_DATA"
    | (known) i sub nm ts tv fmt p' i' dat' md where "rd_u16 mem m = Inr i"
      and "subscriptions ps i = Some sub" and "series_name ps sub = Inr nm"
      and "(case timeseries_map ps nm of Some ts \<Rightarrow> Inr ts
            | None \<Rightarrow> bindE (deref_format ps (sub_format sub)) (create_timeseries stk (formats_map ps))) = Inr ts"
      and "deref_format ps (sub_format sub) = Inr fmt" and "rd_u64 mem (m + 2) = Inr tv"
      and "parse_data_intl stk (formats_map ps) mem (fmt_fields fmt) (m + 10, 0, ts_data ts) = Inr (p', i', dat')"
      and "get_latest_data (ts\<lparr>timestamps := [tv], ts_data := dat'\<rparr>) nm = Inr md"
      and "ps' = ps\<lparr>timeseries_map := (timeseries_map ps)(nm \<mapsto> ts\<lparr>timestamps := [tv], ts_data := dat'\<rparr>),
                    data_calls := data_calls ps @ [md]\<rparr>"
      and "ns = STATE_DEFINITION_OR_DATA"
proof -
  obtain i where i: "rd_u16 mem m = Inr i" using assms by (auto simp: parse_data_message_def res_simps)
  show thesis
  proof (cases "subscriptions ps i")
    case None
    with i assms show thesis by (intro unknown) (auto simp: parse_data_message_def)
  next
    case (Some sub)
    from assms obtain nm ts where
      nm: "series_name ps sub = Inr nm" and
      ts: "(case timeseries_map ps nm of Some ts \<Rightarrow> Inr ts
            | None \<Rightarrow> bindE (deref_format ps (sub_format sub)) (create_timeseries stk (formats_map ps))) = Inr ts"
      by (auto simp: parse_data_message_def i Some bindE_eq_Inr)
    from assms obtain tv fmt p' i' dat' md where
      "rd_u64 mem (m + 2) = Inr tv" "deref_format ps (sub_format sub) = Inr fmt"
      "parse_data_intl stk (formats_map ps) mem (fmt_fields fmt) (m + 10, 0, ts_data ts) = Inr (p', i', dat')"
      "get_latest_data (ts\<lparr>timestamps := [tv], ts_data := dat'\<rparr>) nm = Inr md"
      "ps' = ps\<lparr>timeseries_map := (timeseries_map ps)(nm \<mapsto> ts\<lparr>timestamps := [tv], ts_data := dat'\<rparr>),
                data_calls := data_calls ps @ [md]\<rparr>"
      "ns = STATE_DEFINITION_OR_DATA"
      by (auto simp: parse_data_message_def i Some nm ts Let_def bindE_eq_Inr)
    with i Some nm ts show thesis by (intro known)
  qed
qed

lemma parse_data_message_maps_ok:
  assumes ok: "maps_ok stk ps" and step: "parse_data_message stk mem m ps = Inr (ps', ns)"
  shows "maps_ok stk ps' \<and> ns = STATE_DEFINITION_OR_DATA"
  using step
proof (cases rule: parse_data_message_cases)
  case (unknown i)
  with ok show ?thesis by simp
next
  case (known i sub nm ts tv fmt p' i' dat' md)
  have "series_ok stk (formats_map ps) (ts\<lparr>timestamps := [tv], ts_data := dat'\<rparr>)"
  proof (cases "timeseries_map ps nm")
    case (Some old)
    with known(4) ok have "series_ok stk (formats_map ps) ts" by (auto simp: maps_ok_def)
    then show ?thesis using known(7) by (rule series_ok_refilled)
  next
    case None
    obtain n where n: "formats_map ps n = Some fmt"
      using known(5) by (auto simp: deref_format_def split: option.splits)
    from None known(4,5) have "create_timeseries stk (formats_map ps) fmt = Inr ts" by simp
    with n known(7) show ?thesis by (intro series_ok_created)
  qed
  with ok known(9,10) show ?thesis by (simp add: maps_ok_def)
qed

lemma parse_add_data_maps_ok:
  assumes "maps_ok stk ps" and "parse_add_data stk mem m sz ps = Inr (ps', ns)"
  shows "maps_ok stk ps' \<and> ns = STATE_DEFINITION_OR_DATA"
proof -
  obtain ps1 s1 where add: "parse_add mem m sz ps = Inr (ps1, s1)"
    using assms(2) by (auto simp: parse_add_data_def bindE_eq_Inr)
  then have s1: "s1 = STATE_DEFINITION_OR_DATA" and ok1: "maps_ok stk ps1"
    using parse_add_Inr [OF add] maps_ok_added [OF assms(1)] by auto
  from assms(2) obtain hdr where
    "(ps' = ps1 \<and> ns = s1) \<or> parse_data_message stk mem hdr ps1 = Inr (ps', ns)"
    by (auto simp: parse_add_data_def add s1 Let_def bindE_eq_Inr split: if_splits)
  then show ?thesis using ok1 s1 parse_data_message_maps_ok [OF ok1] by blast
qed

section \<open>Every call keeps the invariant\<close>

lemma parse_definition_ok:
  assumes ok: "maps_ok stk ps" and none: "no_data ps"
    and step: "parse_definition stk mem p ps = Inr (ps', ns)"
  shows "maps_ok stk ps' \<and>
    (ns = STATE_DEFINITION \<and> no_data ps' \<or> ns \<in> {STATE_DEFINITION_OR_DATA, STATE_INVALID})"
proof -
  from step have st: "p_state ps = STATE_DEFINITION"
    by (auto simp: parse_definition_def Let_def bindE_eq_Inr)
  from step obtain t sz where c: "(case type_of_code t of
        Some Type_I \<Rightarrow> parse_info mem (p + 3) sz ps
      | Some Type_M \<Rightarrow> parse_multi mem (p + 3) sz ps
      | Some Type_F \<Rightarrow> parse_format mem (p + 3) sz ps
      | Some Type_P \<Rightarrow> parse_param mem (p + 3) sz ps
      | Some Type_A \<Rightarrow> parse_add_data stk mem (p + 3) sz ps
      | _ \<Rightarrow> Inr (ps, STATE_INVALID)) = Inr (ps', ns)"
    by (auto simp: parse_definition_def Let_def bindE_eq_Inr)
  have "parse_info mem (p + 3) sz ps = Inr (ps', ns) \<or>
     parse_multi mem (p + 3) sz ps = Inr (ps', ns) \<or>
     parse_format mem (p + 3) sz ps = Inr (ps', ns) \<or>
     parse_param mem (p + 3) sz ps = Inr (ps', ns) \<or>
     parse_add_data stk mem (p + 3) sz ps = Inr (ps', ns) \<or>
     ps' = ps \<and> ns = STATE_INVALID"
  proof (cases "type_of_code t")
    case None
    with c show ?thesis by simp
  next
    case (Some y)
    with c show ?thesis by (cases y) auto
  qed
  then consider "parse_info mem (p + 3) sz ps = Inr (ps', ns)" | "parse_multi mem (p + 3) sz ps = Inr (ps', ns)"
    | "parse_format mem (p + 3) sz ps = Inr (ps', ns)" | "parse_param mem (p + 3) sz ps = Inr (ps', ns)"
    | "parse_add_data stk mem (p + 3) sz ps = Inr (ps', ns)" | "ps' = ps \<and> ns = STATE_INVALID"
    by blast
  then show ?thesis
  proof cases
    case 1 then show ?thesis using ok none st parse_info_Inr [OF 1] by auto
  next
    case 2 then show ?thesis using ok none st parse_multi_Inr [OF 2] by auto
  next
    case 3
    then consider "ps' = ps \<and> ns = STATE_INVALID"
      | fmt where "ps' = ps\<lparr>formats_map := (formats_map ps)(fmt_name fmt \<mapsto> fmt)\<rparr>" "ns = p_state ps"
      using parse_format_Inr [OF 3] by blast
    then show ?thesis using ok none st by cases (auto intro: maps_ok_format)
  next
    case 4 then show ?thesis using ok none st parse_param_Inr [OF 4] by auto
  next
    case 5 then show ?thesis using parse_add_data_maps_ok [OF ok 5] by simp
  next
    case 6 then show ?thesis using ok by simp
  qed
qed

lemma parse_data_ok:
  assumes ok: "maps_ok stk ps" and step: "parse_data stk mem p ps = Inr (ps', ns)"
  shows "maps_ok stk ps' \<and> ns \<in> {STATE_DEFINITION_OR_DATA, STATE_INVALID}"
proof -
  from step have st: "p_state ps = STATE_DEFINITION_OR_DATA"
    by (auto simp: parse_data_def Let_def bindE_eq_Inr)
  from step obtain t sz where c: "(case type_of_code t of
        Some Type_A \<Rightarrow> parse_add_data stk mem (p + 3) sz ps
      | Some Type_D \<Rightarrow> parse_data_message stk mem (p + 3) ps
      | Some Type_L \<Rightarrow> parse_logged mem (p + 3) sz ps
      | Some Type_I \<Rightarrow> parse_info mem (p + 3) sz ps
      | Some Type_M \<Rightarrow> parse_multi mem (p + 3) sz ps
      | Some Type_P \<Rightarrow> parse_param mem (p + 3) sz ps
      | Some Type_S \<Rightarrow> parse_sync mem (p + 3) sz ps
      | Some Type_O \<Rightarrow> parse_dropout mem (p + 3) sz ps
      | Some Type_R \<Rightarrow> parse_remove mem (p + 3) sz ps
      | _ \<Rightarrow> Inr (ps, STATE_INVALID)) = Inr (ps', ns)"
    by (auto simp: parse_data_def Let_def bindE_eq_Inr)
  have "parse_add_data stk mem (p + 3) sz ps = Inr (ps', ns) \<or>
     parse_data_message stk mem (p + 3) ps = Inr (ps', ns) \<or>
     parse_logged mem (p + 3) sz ps = Inr (ps', ns) \<or>
     parse_info mem (p + 3) sz ps = Inr (ps', ns) \<or>
     parse_multi mem (p + 3) sz ps = Inr (ps', ns) \<or>
     parse_param mem (p + 3) sz ps = Inr (ps', ns) \<or>
     parse_sync mem (p + 3) sz ps = Inr (ps', ns) \<or>
     parse_dropout mem (p + 3) sz ps = Inr (ps', ns) \<or>
     parse_remove mem (p + 3) sz ps = Inr (ps', ns) \<or>
     ps' = ps \<and> ns = STATE_INVALID"
  proof (cases "type_of_code t")
    case None
    with c show ?thesis by simp
  next
    case (Some y)
    with c show ?thesis by (cases y) auto
  qed
  then consider "parse_add_data stk mem (p + 3) sz ps = Inr (ps', ns)"
    | "parse_data_message stk mem (p + 3) ps = Inr (ps', ns)"
    | "parse_logged mem (p + 3) sz ps = Inr (ps', ns)" | "parse_info mem (p + 3) sz ps = Inr (ps', ns)"
    | "parse_multi mem (p + 3) sz ps = Inr (ps', ns)" | "parse_param mem (p + 3) sz ps = Inr (ps', ns)"
    | "parse_remove mem (p + 3) sz ps = Inr (ps', ns)"
    | "ps' = ps \<and> ns \<in> {STATE_DEFINITION_OR_DATA, STATE_INVALID}"
    unfolding parse_sync_def parse_dropout_def by blast
  then show ?thesis
  proof cases
    case 1 then show ?thesis using parse_add_data_maps_ok [OF ok 1] by simp
  next
    case 2 then show ?thesis using parse_data_message_maps_ok [OF ok 2] by simp
  next
    case 3 then show ?thesis using ok st parse_logged_Inr [OF 3] by auto
  next
    case 4 then show ?thesis using ok st parse_info_Inr [OF 4] by auto
  next
    case 5 then show ?thesis using ok st parse_multi_Inr [OF 5] by auto
  next
    case 6 then show ?thesis using ok st parse_param_Inr [OF 6] by auto
  next
    case 7 then show ?thesis using ok maps_ok_removed parse_remove_Inr [OF 7] by auto
  next
    case 8 then show ?thesis using ok by simp
  qed
qed

fun state_rank :: "parse_state \<Rightarrow> nat" where
  "state_rank STATE_HEADER = 0"
| "state_rank STATE_FLAGS = 1"
| "state_rank STATE_DEFINITION = 2"
| "state_rank STATE_DEFINITION_OR_DATA = 3"
| "state_rank STATE_INVALID = 4"

instantiation parse_state :: linorder
begin

definition less_eq_parse_state :: "parse_state \<Rightarrow> parse_state \<Rightarrow> bool" where
  "less_eq_parse_state a b \<longleftrightarrow> state_rank a \<le> state_rank b"

definition less_parse_state :: "parse_state \<Rightarrow> parse_state \<Rightarrow> bool" where
  "less_parse_state a b \<longleftrightarrow> state_rank a < state_rank b"

instance
proof
  fix a b :: parse_state
  show "a \<le> b \<Longrightarrow> b \<le> a \<Longrightarrow> a = b"
    by (cases a; cases b) (simp_all add: less_eq_parse_state_def)
qed (auto simp: less_eq_parse_state_def less_parse_state_def)

end

lemma parse_cases:
  assumes "parse stk mem p ps = Inr (ps', b)"
  obtains ps1 ns where "ps' = ps1\<lparr>p_state := ns\<rparr>" and "b = (ns \<noteq> STATE_INVALID)"
    and "(p_state ps = STATE_HEADER \<and> parse_header mem p ps = Inr (ps1, ns) \<and> ns = STATE_FLAGS) \<or>
         (p_state ps = STATE_FLAGS \<and> parse_flags mem p ps = Inr (ps1, ns) \<and> ns = STATE_DEFINITION) \<or>
         (p_state ps = STATE_DEFINITION \<and> parse_definition stk mem p ps = Inr (ps1, ns)) \<or>
         (p_state ps = STATE_DEFINITION_OR_DATA \<and> parse_data stk mem p ps = Inr (ps1, ns)) \<or>
         (p_state ps = STATE_INVALID \<and> ps1 = ps \<and> ns = STATE_INVALID)"
proof -
  from assms obtain ps1 ns where "ps' = ps1\<lparr>p_state := ns\<rparr>" and "b = (ns \<noteq> STATE_INVALID)"
    and "(case p_state ps of
              STATE_HEADER \<Rightarrow>
                bindE (parse_header mem p ps) (\<lambda>(ps, new_state).
                bindE (assertE (new_state = STATE_FLAGS)) (\<lambda>_. Inr (ps, new_state)))
            | STATE_FLAGS \<Rightarrow>
                bindE (parse_flags mem p ps) (\<lambda>(ps, new_state).
                bindE (assertE (new_state = STATE_DEFINITION)) (\<lambda>_. Inr (ps, new_state)))
            | STATE_DEFINITION \<Rightarrow> parse_definition stk mem p ps
            | STATE_DEFINITION_OR_DATA \<Rightarrow> parse_data stk mem p ps
            | STATE_INVALID \<Rightarrow> Inr (ps, STATE_INVALID)) = Inr (ps1, ns)"
    unfolding parse_def by (subst (asm) bindE_eq_Inr) auto
  then show thesis
    using that by (cases "p_state ps") (simp_all add: bindE_eq_Inr split_beta)
qed

lemma parse_step_ok:
  assumes ok: "parser_ok stk ps" and step: "parse stk mem p ps = Inr (ps', b)"
  shows "parser_ok stk ps' \<and> p_state ps \<le> p_state ps' \<and> b = (p_state ps' \<noteq> STATE_INVALID)"
  using step
proof (cases rule: parse_cases)
  case (1 ps1 ns)
  have maps: "maps_ok stk ps" using ok by (simp add: parser_ok_iff)
  from 1(3) consider
      "p_state ps = STATE_HEADER" "parse_header mem p ps = Inr (ps1, ns)" "ns = STATE_FLAGS"
    | "p_state ps = STATE_FLAGS" "parse_flags mem p ps = Inr (ps1, ns)" "ns = STATE_DEFINITION"
    | "p_state ps = STATE_DEFINITION" "parse_definition stk mem p ps = Inr (ps1, ns)"
    | "p_state ps = STATE_DEFINITION_OR_DATA" "parse_data stk mem p ps = Inr (ps1, ns)"
    | "p_state ps = STATE_INVALID" "ps1 = ps" "ns = STATE_INVALID"
    by blast
  then show ?thesis
  proof cases
    case header: 1
    then show ?thesis using ok 1(1,2) parse_header_Inr [OF header(2)]
      by (auto simp: parser_ok_iff less_eq_parse_state_def)
  next
    case flags: 2
    then show ?thesis using ok 1(1,2) parse_flags_Inr [OF flags(2)]
      by (auto simp: parser_ok_iff less_eq_parse_state_def)
  next
    case dfn: 3
    then have "no_data ps" using ok by (simp add: parser_ok_iff)
    then show ?thesis using dfn(1) maps 1(1,2) parse_definition_ok [OF maps _ dfn(2)]
      by (auto simp: parser_ok_iff less_eq_parse_state_def)
  next
    case data: 4
    then show ?thesis using 1(1,2) parse_data_ok [OF maps data(2)]
      by (auto simp: parser_ok_iff less_eq_parse_state_def)
  next
    case 5
    then show ?thesis using maps 1(1,2) by (simp add: parser_ok_iff less_eq_parse_state_def)
  qed
qed

text \<open>A run of the parser over buffers and offsets.\<close>

definition parse_call :: "nat \<Rightarrow> byte list \<times> nat \<Rightarrow> parser \<Rightarrow> parser res" where
  "parse_call stk b ps = bindE (parse stk (fst b) (snd b) ps) (\<lambda>(ps', _). Inr ps')"

lemma parse_call_Inr: "parse_call stk b ps = Inr ps' \<longleftrightarrow> (\<exists>v. parse stk (fst b) (snd b) ps = Inr (ps', v))"
  by (auto simp: parse_call_def res_simps)

lemma parse_call_invalid: "p_state ps = STATE_INVALID \<Longrightarrow> parse_call stk b ps = Inr ps"
  by (simp add: parse_call_def parse_def)

lemma calls_invalid: "p_state ps = STATE_INVALID \<Longrightarrow> foldE (parse_call stk) calls ps = Inr ps"
  by (induction calls) (simp_all add: parse_call_invalid)

interpretation parser_machine: guarded_machine "parse_call stk" "parser_ok stk" for stk
  by unfold_locales (auto simp: parse_call_Inr dest: parse_step_ok)

end
