(* ===== verification/Roundtrip.thy ===== *)
theory Roundtrip
  imports Messages Parser_Props
begin

text \<open>
  What a message of \<open>Messages\<close> does to the parser of \<open>Parser\<close>: for every sender, the effect
  of \<open>parse\<close> on its bytes. \<open>stored mem p bs\<close> says that the bytes are in memory at an offset.
\<close>

section \<open>Bytes in memory\<close>

definition stored :: "byte list \<Rightarrow> nat \<Rightarrow> byte list \<Rightarrow> bool" where
  "stored mem p bs \<longleftrightarrow> p + length bs \<le> length mem \<and> take (length bs) (drop p mem) = bs"

lemma stored_self: "stored bs 0 bs"
  by (simp add: stored_def)

lemma stored_split: "stored mem p bs \<longleftrightarrow> (\<exists>xs ys. mem = xs @ bs @ ys \<and> p = length xs)"
proof
  assume "stored mem p bs"
  then have "p + length bs \<le> length mem" "take (length bs) (drop p mem) = bs" by (simp_all add: stored_def)
  then have "mem = take p mem @ bs @ drop (length bs) (drop p mem)"
    by (metis append_take_drop_id)
  moreover have "p = length (take p mem)" using \<open>p + length bs \<le> length mem\<close> by simp
  ultimately show "\<exists>xs ys. mem = xs @ bs @ ys \<and> p = length xs" by blast
qed (auto simp: stored_def)

lemma stored_append: "stored mem p (as @ bs) \<longleftrightarrow> stored mem p as \<and> stored mem (p + length as) bs"
proof
  assume "stored mem p (as @ bs)"
  then obtain xs ys where "mem = xs @ as @ bs @ ys" "p = length xs" by (auto simp: stored_split)
  then show "stored mem p as \<and> stored mem (p + length as) bs" by (auto simp: stored_def)
next
  assume "stored mem p as \<and> stored mem (p + length as) bs"
  then show "stored mem p (as @ bs)"
    by (auto simp: stored_def take_add add.commute)
qed

lemma stored_Cons: "stored mem p (b # bs) \<longleftrightarrow> stored mem p [b] \<and> stored mem (Suc p) bs"
  using stored_append [of mem p "[b]" bs] by simp

lemma stored_rd: "stored mem p bs \<Longrightarrow> n = length bs \<Longrightarrow> rd mem p n = Inr bs"
  by (simp add: stored_def rd_def)

lemma stored_byte: "stored mem p [b] \<Longrightarrow> rd_u8 mem p = Inr b"
  using rd_le_at(1) [of p _ b] by (auto simp: stored_split enc_le_def)

lemma stored_le:
  "stored mem p (enc_le 2 (a :: 16 word)) \<Longrightarrow> rd_u16 mem p = Inr a"
  "stored mem p (enc_le 4 (b :: 32 word)) \<Longrightarrow> rd_u32 mem p = Inr b"
  "stored mem p (enc_le 8 (c :: 64 word)) \<Longrightarrow> rd_u64 mem p = Inr c"
  using rd_le_at(2-4) by (auto simp: stored_split)

lemma stored_string: "stored mem p (bytes_of s) \<Longrightarrow> n = int (length s) \<Longrightarrow> std_string mem p n = Inr s"
  by (simp add: std_string_def stored_rd comp_def)

lemma stored_nth: "stored mem p bs \<Longrightarrow> i < length bs \<Longrightarrow> rd_u8 mem (p + i) = Inr (bs ! i)"
proof -
  assume "stored mem p bs" and "i < length bs"
  then have "stored mem p (take i bs @ [bs ! i] @ drop (Suc i) bs)"
    by (simp add: id_take_nth_drop [symmetric])
  then have "stored mem (p + length (take i bs)) [bs ! i]" unfolding stored_append by blast
  with \<open>i < length bs\<close> have "stored mem (p + i) [bs ! i]" by simp
  then show ?thesis by (rule stored_byte)
qed

text \<open>A frame: its header and its payload.\<close>

lemma stored_frame:
  assumes "stored mem p (frame t b)"
  shows "hdr_type mem p = Inr t" and "hdr_size mem p = Inr (word_of_nat (length b))"
    and "stored mem (p + 3) b"
proof -
  from assms have "stored mem p (enc_le 2 (word_of_nat (length b) :: 16 word))"
    "stored mem (p + 2) [t]" "stored mem (p + 3) b"
    by (auto simp: frame_def stored_append stored_Cons [of _ _ _ b] numeral_3_eq_3)
  then show "hdr_type mem p = Inr t" "hdr_size mem p = Inr (word_of_nat (length b))" "stored mem (p + 3) b"
    using stored_byte [of mem "p + 2" t] by (simp_all add: hdr_type_def hdr_size_def stored_le)
qed

section \<open>Header and flags\<close>

lemma parse_header_message:
  assumes "stored mem p (header_message t)" and "p_state ps = STATE_HEADER"
  shows "parse stk mem p ps = Inr (ps\<lparr>start_time := t, p_state := STATE_FLAGS\<rparr>, True)"
proof -
  from assms(1) have "stored mem p ulog_magic" "stored mem (p + 7) [1]" "stored mem (p + 8) (enc_le 8 t)"
    by (simp_all add: header_message_def write_to_def ULogFileHeader_def stored_append
        stored_Cons [of _ _ 1 "enc_le 8 t"] add.commute [of p])
  then have "read_from (ULogFileHeader 0) mem p = Inr (Some (ULogFileHeader t))"
    using stored_byte [of mem "p + 7" 1]
    by (simp add: read_from_def stored_rd ULogFileHeader_def stored_le)
  with assms(2) show ?thesis
    by (simp add: parse_def parse_header_def ULogFileHeader_def)
qed

lemma flags_message_frame: "flags_message = frame 66 (replicate 40 0)"
  by code_simp

lemma scan_flags_zero:
  "\<forall>i \<in> set is. rd_u8 mem (f + i) = Inr 0 \<Longrightarrow> scan_flags mem f is = Inr False"
  by (induction "is") auto

lemma parse_flags_message:
  assumes "stored mem p flags_message" and "p_state ps = STATE_FLAGS"
  shows "parse stk mem p ps = Inr (ps\<lparr>p_state := STATE_DEFINITION\<rparr>, True)"
proof -
  note f = stored_frame [OF assms(1) [unfolded flags_message_frame]]
  have byte: "rd_u8 mem (p + 3 + i) = Inr 0" if "i < 40" for i
    using stored_nth [OF f(3), of i] that by simp
  have "rd_u8 mem (p + 3 + 8 + i) = Inr 0" if "i < 8" for i
    using byte [of "8 + i"] that by (simp add: add.assoc)
  then have "scan_flags mem (p + 3 + 8) [1..<8] = Inr False"
    by (intro scan_flags_zero ballI) simp
  with f(1) byte [of 8] assms(2) show ?thesis
    by (simp add: parse_def parse_flags_def Let_def)
qed

section \<open>Definitions\<close>

text \<open>The two states in which a definition of the kinds I, M and P is accepted.\<close>

definition accepting :: "parser \<Rightarrow> bool" where
  "accepting ps \<longleftrightarrow> p_state ps \<in> {STATE_DEFINITION, STATE_DEFINITION_OR_DATA}"

lemma parse_keyed:
  assumes "stored mem p (frame t b)" and "accepting ps"
  shows "t = 73 \<Longrightarrow> parse_info mem (p + 3) (word_of_nat (length b)) ps = Inr (ps', p_state ps) \<Longrightarrow>
           parse stk mem p ps = Inr (ps'\<lparr>p_state := p_state ps\<rparr>, True)"
    and "t = 80 \<Longrightarrow> parse_param mem (p + 3) (word_of_nat (length b)) ps = Inr (ps', p_state ps) \<Longrightarrow>
           parse stk mem p ps = Inr (ps'\<lparr>p_state := p_state ps\<rparr>, True)"
    and "t = 77 \<Longrightarrow> parse_multi mem (p + 3) (word_of_nat (length b)) ps = Inr (ps', p_state ps) \<Longrightarrow>
           parse stk mem p ps = Inr (ps'\<lparr>p_state := p_state ps\<rparr>, True)"
  using assms stored_frame [OF assms(1)]
  by (auto simp: accepting_def parse_def parse_definition_def parse_data_def Let_def)

lemma takeWhile_word: "c \<notin> set w \<Longrightarrow> takeWhile (\<lambda>x. x \<noteq> c) (w @ c # rest) = w"
  by (subst takeWhile_append2) auto

lemma stored_keyed:
  assumes "stored mem p (keyed_frame t [] key val)" and "length key < 255"
  shows "rd_u8 mem (p + 3) = Inr (word_of_nat (length key))"
    and "std_string mem (p + 3 + 1) (int (length key)) = Inr key"
    and "stored mem (p + 3 + 1 + length key) val"
    and "stored mem p (frame t ([word_of_nat (length key)] @ bytes_of key @ val))"
proof -
  have k: "keyed_frame t [] key val = frame t ([word_of_nat (length key)] @ bytes_of key @ val)"
    using assms(2) by (simp add: keyed_frame_def)
  with assms(1) show fr: "stored mem p (frame t ([word_of_nat (length key)] @ bytes_of key @ val))"
    by simp
  have "stored mem (p + 3) [word_of_nat (length key)]" and b: "stored mem (p + 3 + 1) (bytes_of key)"
    and "stored mem (p + 3 + 1 + length key) val"
    using stored_frame(3) [OF fr] unfolding stored_append by simp_all
  then show "rd_u8 mem (p + 3) = Inr (word_of_nat (length key))" "stored mem (p + 3 + 1 + length key) val"
    using stored_byte by blast+
  show "std_string mem (p + 3 + 1) (int (length key)) = Inr key" using b by (rule stored_string) simp
qed

lemma key_len_byte:
  "n < 256 \<Longrightarrow> uint (word_of_nat n :: byte) = int n" "n < 256 \<Longrightarrow> unat (word_of_nat n :: byte) = n"
  by (simp_all add: uint_nat unat_of_nat)

lemma size_word: "n < 65536 \<Longrightarrow> uint (word_of_nat n :: 16 word) = int n"
  by (simp add: uint_nat unat_of_nat)

lemma parse_param_key:
  assumes mem: "stored mem p (keyed_frame 80 [] (type @ CHR '' '' # name) (enc_le 4 v))"
    and len: "length (type @ CHR '' '' # name) < 251" and type: "CHR '' '' \<notin> set type"
    and t: "(type = ''int32_t'' \<and> ty = INT32) \<or> (type = ''float'' \<and> ty = FLOAT)" and acc: "accepting ps"
  shows "parse stk mem p ps =
    Inr (ps\<lparr>parameters := parameters ps @ [\<lparr>param_name = name, param_bits = v, param_type = ty\<rparr>]\<rparr>, True)"
proof -
  define key where "key = type @ CHR '' '' # name"
  have len': "length key < 255" "length key < 256" using len by (simp_all add: key_def)
  note k = stored_keyed [OF mem [folded key_def] len'(1)]
  have tw: "takeWhile (\<lambda>c. c \<noteq> CHR '' '') key = type" and sp: "CHR '' '' \<in> set key"
    and nm: "drop (Suc (length type)) key = name"
    using type by (simp_all add: key_def takeWhile_word)
  have v: "rd_u32 mem (p + 3 + 1 + length key) = Inr v" using k(3) by (rule stored_le)
  have "parse_param mem (p + 3) sz ps =
      Inr (ps\<lparr>parameters := parameters ps @ [\<lparr>param_name = name, param_bits = v, param_type = ty\<rparr>]\<rparr>, p_state ps)" for sz
    using t unfolding parse_param_def k(1) bindE_simps key_len_byte [OF len'(2)] k(2) Let_def tw nm v
    using sp by auto
  from parse_keyed(2) [OF k(4) acc refl this] show ?thesis by simp
qed

lemma parse_info_key:
  assumes mem: "stored mem p (keyed_frame 73 [] (info_key key val) (bytes_of val))"
    and len: "length val + length (info_key key val) < 255"
    and key: "CHR '' '' \<notin> set key" "key \<noteq> []" "NUL \<notin> set key" and acc: "accepting ps"
  shows "parse stk mem p ps = Inr (ps\<lparr>info := map_insert key val (info ps)\<rparr>, True)"
proof -
  define type where "type = ''char['' @ dec_nat (length val) @ '']''"
  define raw where "raw = info_key key val"
  have len': "length raw < 255" "length raw < 256" "length val + length raw < 255"
    using len by (simp_all add: raw_def)
  note k = stored_keyed [OF mem [folded raw_def] len'(1)]
  have "CHR '' '' \<notin> set type"
    using dec_nat_digits [of "length val"] by (auto simp: type_def is_digit_def)
  moreover have "raw = type @ CHR '' '' # key" using key(3) by (simp add: info_key_def c_str_id raw_def type_def)
  ultimately have parts: "split_string raw (CHR '' '') = [type, key]"
    using key(1,2) by (simp add: split_string_word split_string_last)
  have size: "uint (word_of_nat (length ([word_of_nat (length raw) :: byte] @ bytes_of raw @ bytes_of val)) :: 16 word)
      - int (length raw) - 1 = int (length val)"
    using len'(3) by (subst size_word) simp_all
  have "starts_with type ''char[''" unfolding type_def by (rule starts_with_append)
  then have "info_value mem (p + 3 + 1 + length raw) (int (length val)) raw type key = Inr val"
    using stored_string [OF k(3), of "int (length val)"] by (simp add: info_value_def)
  then have "parse_info mem (p + 3)
        (word_of_nat (length ([word_of_nat (length raw) :: byte] @ bytes_of raw @ bytes_of val))) ps =
      Inr (ps\<lparr>info := map_insert key val (info ps)\<rparr>, p_state ps)"
    unfolding parse_info_def k(1) bindE_simps key_len_byte [OF len'(2)] k(2) Let_def parts size
    by (simp add: index_op_def)
  from parse_keyed(1) [OF k(4) acc refl this] show ?thesis by simp
qed

lemma parse_format_frame:
  assumes "stored mem p (frame 70 (bytes_of txt))" and "length txt < 2 ^ 16"
    and "format_of_text txt = Inr (Some fmt)" and "p_state ps = STATE_DEFINITION"
  shows "parse stk mem p ps =
    Inr (ps\<lparr>formats_map := (formats_map ps)(fmt_name fmt \<mapsto> fmt)\<rparr>, True)"
proof -
  note f = stored_frame [OF assms(1)]
  have "uint (word_of_nat (length txt) :: 16 word) = int (length txt)"
    using assms(2) by (simp add: uint_nat unat_of_nat)
  then have "std_string mem (p + 3) (uint (word_of_nat (length txt) :: 16 word)) = Inr txt"
    using stored_string [OF f(3)] by simp
  with f(1,2) assms(3,4) show ?thesis
    by (simp add: parse_def parse_definition_def parse_format_def)
qed

section \<open>Logged strings and data\<close>

lemma parse_log_frame:
  assumes mem: "stored mem p (frame 76 ([lvl] @ enc_le 8 t @ bytes_of txt))" and len: "length txt < 2 ^ 15"
    and st: "p_state ps = STATE_DEFINITION_OR_DATA"
  shows "parse stk mem p ps =
    (let ml = \<lparr>ml_level = lvl, ml_timestamp = t, ml_msg = txt\<rparr> in
     Inr (ps\<lparr>log_calls := log_calls ps @ [ml], message_logs := message_logs ps @ [ml]\<rparr>, True))"
proof -
  note f = stored_frame [OF mem]
  have "stored mem (p + 3) [lvl]" "stored mem (p + 3 + 1) (enc_le 8 t)" "stored mem (p + 3 + 9) (bytes_of txt)"
    using f(3) unfolding stored_append by (simp_all add: add.commute)
  then have rd: "rd_u8 mem (p + 3) = Inr lvl" "rd_u64 mem (p + 3 + 1) = Inr t"
    "std_string mem (p + 3 + 9) (int (length txt)) = Inr txt"
    using stored_byte stored_le(3) stored_string by blast+
  have size: "uint (word_of_nat (length ([lvl] @ enc_le 8 t @ bytes_of txt)) :: 16 word) - 9 = int (length txt)"
    using len by (subst size_word) simp_all
  have "parse_logged mem (p + 3) (word_of_nat (length ([lvl] @ enc_le 8 t @ bytes_of txt))) ps =
    (let ml = \<lparr>ml_level = lvl, ml_timestamp = t, ml_msg = txt\<rparr> in
     Inr (ps\<lparr>log_calls := log_calls ps @ [ml], message_logs := message_logs ps @ [ml]\<rparr>, STATE_DEFINITION_OR_DATA))"
    unfolding parse_logged_def rd bindE_simps size Let_def ..
  with f(1,2) st show ?thesis
    by (simp add: parse_def parse_data_def Let_def)
qed

text \<open>The D message: a stamp and a payload that conforms to the format.\<close>

lemma parse_data_frame:
  assumes mem: "stored mem p (enc_le 2 mid @ enc_le 8 t @ payload)"
    and sub: "subscriptions ps mid = Some sub" "sub_format sub = Some n" "formats_map ps n = Some fmt"
    and name: "series_name ps sub = Inr nm"
    and conf: "conf_fields d (formats_map ps) (fmt_fields fmt) payload vs"
    and cs: "append_vector (Suc d) (formats_map ps) (fmt_fields fmt) [] [] = Inr cs"
    and old: "\<And>ts. timeseries_map ps nm = Some ts \<Longrightarrow> map fst (ts_data ts) = map fst cs"
  obtains ts where "parse_data_message (Suc d) mem p ps =
      Inr (ps\<lparr>timeseries_map := (timeseries_map ps)(nm \<mapsto> ts),
              data_calls := data_calls ps @ [\<lparr>md_name = nm, md_timestamp = t,
                                             structured_data = zip (map fst cs) vs\<rparr>]\<rparr>,
           STATE_DEFINITION_OR_DATA)"
    and "timestamps ts = [t]" and "ts_data ts = zip (map fst cs) (map (\<lambda>v. [v]) vs)"
proof -
  have "stored mem p (enc_le 2 mid)" "stored mem (p + 2) (enc_le 8 t)" and pay: "stored mem (p + 10) payload"
    using mem unfolding stored_append by (simp_all add: add.commute)
  then have rd: "rd_u16 mem p = Inr mid" "rd_u64 mem (p + 2) = Inr t" by (auto intro: stored_le)
  have len: "length vs = length cs"
    using conf_fields_leaves [OF conf, of 0] append_vector_empty [OF cs, of 0] by simp
  define ts0 where "ts0 = (case timeseries_map ps nm of Some ts \<Rightarrow> ts | None \<Rightarrow> \<lparr>timestamps = [], ts_data = cs\<rparr>)"
  have ts0: "(case timeseries_map ps nm of Some ts \<Rightarrow> Inr ts
      | None \<Rightarrow> bindE (deref_format ps (sub_format sub)) (create_timeseries (Suc d) (formats_map ps))) = Inr ts0"
    using sub cs by (simp add: ts0_def deref_format_def create_timeseries_def split: option.splits)
  have names: "map fst (ts_data ts0) = map fst cs"
    using old by (auto simp: ts0_def split: option.splits)
  then have len0: "length (ts_data ts0) = length vs" using len by (metis length_map)
  obtain xs ys where m: "mem = xs @ payload @ ys" "p + 10 = length xs" using pay by (auto simp: stored_split)
  have walk: "parse_data_intl (Suc d) (formats_map ps) mem (fmt_fields fmt) (p + 10, 0, ts_data ts0) =
      Inr (length xs + length payload, length vs, fill (ts_data ts0) 0 vs)"
    using conf_parse(1) [OF conf, of 0 "ts_data ts0" xs ys] len0 m by simp
  define ts where "ts = ts0\<lparr>timestamps := [t], ts_data := fill (ts_data ts0) 0 vs\<rparr>"
  have latest: "get_latest_data ts nm = Inr \<lparr>md_name = nm, md_timestamp = t, structured_data = zip (map fst cs) vs\<rparr>"
    using get_latest_data_filled [of ts t "ts_data ts0" vs nm] names len0 by (simp add: ts_def)
  show thesis
  proof (rule that [of ts])
    show "parse_data_message (Suc d) mem p ps =
      Inr (ps\<lparr>timeseries_map := (timeseries_map ps)(nm \<mapsto> ts),
              data_calls := data_calls ps @ [\<lparr>md_name = nm, md_timestamp = t,
                                             structured_data = zip (map fst cs) vs\<rparr>]\<rparr>,
           STATE_DEFINITION_OR_DATA)"
      using rd sub name ts0 walk latest
      by (simp add: parse_data_message_def deref_format_def ts_def)
    show "ts_data ts = zip (map fst cs) (map (\<lambda>v. [v]) vs)"
      using fill_all [of vs "ts_data ts0"] len0 names by (simp add: ts_def)
  qed (simp add: ts_def)
qed

text \<open>The buffer of \<open>store_data_intl\<close>: an A message with its D message behind it.\<close>

lemma parse_add_frame:
  assumes mem: "stored mem p (frame 65 ([inst] @ enc_le 2 mid @ bytes_of name))" and len: "length name \<le> 255"
  shows "parse_add mem (p + 3) (word_of_nat (3 + length name)) ps =
    Inr (added mid inst name ps, STATE_DEFINITION_OR_DATA)"
proof -
  note f = stored_frame [OF mem]
  have "stored mem (p + 3) [inst]" "stored mem (p + 3 + 1) (enc_le 2 mid)" "stored mem (p + 3 + 3) (bytes_of name)"
    using f(3) unfolding stored_append by (simp_all add: add.commute)
  then have rd: "rd_u8 mem (p + 3) = Inr inst" "rd_u16 mem (p + 3 + 1) = Inr mid"
    "std_string mem (p + 3 + 3) (int (length name)) = Inr name"
    using stored_byte stored_le(1) stored_string by blast+
  have size: "uint (word_of_nat (3 + length name) :: 16 word) - 3 = int (length name)"
    using len by (subst size_word) simp_all
  show ?thesis unfolding parse_add_eq rd bindE_simps size ..
qed

lemma parse_store_data:
  assumes mem: "stored mem p (frame 65 ([inst] @ enc_le 2 mid @ bytes_of name) @
                              frame 68 (enc_le 2 mid @ enc_le 8 t @ payload))"
    and len: "length name \<le> 255" and acc: "accepting ps"
  shows "parse stk mem p ps =
    bindE (parse_data_message stk mem (p + 9 + length name) (added mid inst name ps))
      (\<lambda>(ps', ns). Inr (ps'\<lparr>p_state := ns\<rparr>, ns \<noteq> STATE_INVALID))"
    and "stored mem (p + 9 + length name) (enc_le 2 mid @ enc_le 8 t @ payload)"
proof -
  have a: "stored mem p (frame 65 ([inst] @ enc_le 2 mid @ bytes_of name))"
    and d: "stored mem (p + (6 + length name)) (frame 68 (enc_le 2 mid @ enc_le 8 t @ payload))"
    using mem unfolding stored_append by simp_all
  note fa = stored_frame [OF a] and fd = stored_frame [OF d]
  have size: "length ([inst] @ enc_le 2 mid @ bytes_of name) = 3 + length name" by simp
  have unat: "unat (word_of_nat (3 + length name) :: 16 word) = 3 + length name"
    using len by (subst unat_of_nat) simp
  have at: "p + 3 + (3 + length name) = p + (6 + length name)" "p + (6 + length name) + 3 = p + 9 + length name"
    by simp_all
  have "parse_add_data stk mem (p + 3) (word_of_nat (3 + length name)) ps =
      parse_data_message stk mem (p + 9 + length name) (added mid inst name ps)"
    unfolding parse_add_data_def parse_add_frame [OF a len] bindE_simps prod.case Let_def unat at fd(1,2)
    by simp
  then show "parse stk mem p ps =
    bindE (parse_data_message stk mem (p + 9 + length name) (added mid inst name ps))
      (\<lambda>(ps', ns). Inr (ps'\<lparr>p_state := ns\<rparr>, ns \<noteq> STATE_INVALID))"
    using acc fa(1,2) [unfolded size]
    by (auto simp: accepting_def parse_def parse_definition_def parse_data_def Let_def)
  show "stored mem (p + 9 + length name) (enc_le 2 mid @ enc_le 8 t @ payload)"
    using fd(3) unfolding at .
qed

lemma added_fields [simp]:
  "formats_map (added i k n ps) = formats_map ps" "timeseries_map (added i k n ps) = timeseries_map ps"
  "data_calls (added i k n ps) = data_calls ps" "p_state (added i k n ps) = p_state ps"
  by (simp_all add: added_def)

lemma added_sub:
  "subscriptions ps i \<in> {None, Some (new_sub ps i k n)} \<Longrightarrow>
   subscriptions (added i k n ps) i = Some (new_sub ps i k n)"
  by (auto simp: added_def)

lemma added_other [simp]:
  "parameters (added i k n ps) = parameters ps" "info (added i k n ps) = info ps"
  "log_calls (added i k n ps) = log_calls ps" "start_time (added i k n ps) = start_time ps"
  by (simp_all add: added_def)

section \<open>Formats as they are read\<close>

text \<open>What the parser makes of a registered format: see \<open>register_data_format_read_back\<close>.\<close>

definition read_back :: "string \<Rightarrow> field list \<Rightarrow> field \<Rightarrow> format" where
  "read_back name fs f =
     \<lparr>fmt_name = name, fmt_fields = fs @ [f\<lparr>field_name := field_name f @ [NUL]\<rparr>], fmt_padding = 0\<rparr>"

lemma format_message_read:
  assumes name: "CHR '':'' \<notin> set name" "NUL \<notin> set name"
    and fields: "declares t (fs @ [f])" and size: "length (format_text name t) \<le> 1500"
  obtains s where "format_message name t = Inr (frame 70 (bytes_of s))"
    and "length s < 2 ^ 16" and "format_of_text s = Inr (Some (read_back name fs f))"
proof
  let ?t = "format_text name t"
  obtain ss s where ss: "t = sections_text (ss @ [s])" "list_all2 section_of ss fs" "section_of s f"
    using fields unfolding declares_def list_all2_append2 list_all2_Cons2 by auto
  have cut: "butlast ?t @ [NUL] = name @ '':uint64_t timestamp;'' @ sections_text ss @ s @ [NUL]"
    by (simp add: ss(1) format_text_def sections_text_def butlast_append)
  have "\<forall>w \<in> set ss. NUL \<notin> set w"
    using ss(2) section_of_no by (metis in_set_conv_nth list_all2_conv_all_nth)
  then have "NUL \<notin> set ?t"
    using name(2) section_of_no [OF ss(3)] by (auto simp: ss(1) format_text_def sections_text_def NUL_def)
  then show "format_message name t = Inr (frame 70 (bytes_of (butlast ?t @ [NUL])))"
    using size by (simp add: format_message_eq byte_of_char_def NUL_def)
  have "last (field_name f @ [NUL]) \<noteq> last ''timestamp''" by (simp add: NUL_def)
  then have "field_name f @ [NUL] \<noteq> ''timestamp''" by metis
  then show "format_of_text (butlast ?t @ [NUL]) = Inr (Some (read_back name fs f))"
    unfolding cut read_back_def using ss(2,3) name(1) by (intro format_of_text_sfx) (simp_all add: NUL_def)
  show "length (butlast ?t @ [NUL]) < 2 ^ 16" using size by simp
qed

end
