(* ===== verification/Telemetry_Props.thy ===== *)
theory Telemetry_Props
  imports Telemetry Roundtrip
begin

text \<open>
  What the operations of \<open>MuTelemetry\<close> leave in the queues and in the id generators, and how
  long the messages are.
\<close>

section \<open>Queues\<close>

lemma sends_Inr [simp]: "sends Q (Inr bs) mt = Inr (True, to_io Q bs mt)"
  by (simp add: sends_def)

lemma sends_Inl [simp]: "sends Q (Inl e) mt = Inl e"
  by (simp add: sends_def)

context conc_queue
begin

lemma to_io_content:
  "content (log_queue (to_io Q bs mt)) = content (log_queue mt) @ (if with_local_log mt then [bs] else [])"
  "content (net_queue (to_io Q bs mt)) = content (net_queue mt) @ (if with_network mt then [bs] else [])"
  by (simp_all add: to_io_def Let_def is_log_enabled_def is_net_enabled_def enqueue_content)

end

lemma to_io_frame [simp]:
  "with_local_log (to_io Q bs mt) = with_local_log mt" "with_network (to_io Q bs mt) = with_network mt"
  "msg_id (to_io Q bs mt) = msg_id mt" "multi_id (to_io Q bs mt) = multi_id mt"
  "start_timestamp (to_io Q bs mt) = start_timestamp mt"
  by (simp_all add: to_io_def Let_def)

lemma get_msg_id_frame [simp]:
  "with_local_log (snd (get_msg_id n mt)) = with_local_log mt"
  "with_network (snd (get_msg_id n mt)) = with_network mt"
  "log_queue (snd (get_msg_id n mt)) = log_queue mt" "net_queue (snd (get_msg_id n mt)) = net_queue mt"
  by (simp_all add: get_msg_id_def split: prod.splits)

lemma get_multi_id_frame [simp]:
  "with_local_log (snd (get_multi_id i n mt)) = with_local_log mt"
  "with_network (snd (get_multi_id i n mt)) = with_network mt"
  "log_queue (snd (get_multi_id i n mt)) = log_queue mt" "net_queue (snd (get_multi_id i n mt)) = net_queue mt"
  by (simp_all add: get_multi_id_def Let_def split: prod.splits)

lemma snd_get_ids:
  "snd (get_ids n a mt) = snd (get_multi_id (fst (get_msg_id n mt)) a (snd (get_msg_id n mt)))"
  by (simp add: get_ids_def split_beta)

lemma get_ids_frame [simp]:
  "with_local_log (snd (get_ids n a mt)) = with_local_log mt"
  "with_network (snd (get_ids n a mt)) = with_network mt"
  "log_queue (snd (get_ids n a mt)) = log_queue mt" "net_queue (snd (get_ids n a mt)) = net_queue mt"
  by (simp_all add: snd_get_ids)

lemma store_data_intl_ids:
  "store_data_intl Q dt name ann t mt =
     (if \<not> is_enabled mt then Inr (True, mt)
      else sends Q (data_message dt name (fst (fst (get_ids name ann mt))) (snd (fst (get_ids name ann mt))) t)
             (snd (get_ids name ann mt)))"
  by (simp add: store_data_intl_def get_ids_def split: prod.splits)

section \<open>Sizes\<close>

text \<open>Every message a sender can make: a frame, and no longer than the D message allows.\<close>

definition sized :: "byte list \<Rightarrow> bool" where
  "sized bs \<longleftrightarrow> 3 \<le> length bs \<and> length bs \<le> 1766"

lemma length_keyed_frame: "length (keyed_frame t pre key val) = 4 + length pre + length key mod 256 + length val"
proof -
  have "length key mod 256 \<le> length key" by (rule mod_less_eq_dividend)
  then show ?thesis by (simp add: keyed_frame_def min_def)
qed

lemma sized_messages:
  "sized (header_message t)"
  "sized flags_message"
  "param_message key v = Inr bs \<Longrightarrow> sized bs"
  "info_message key val = Inr bs \<Longrightarrow> sized bs"
  "info_multi_message key val c = Inr bs \<Longrightarrow> sized bs"
  "data_message dt name mid inst t = Inr bs \<Longrightarrow> sized bs"
  "log_message msg level t = Inr bs \<Longrightarrow> sized bs"
proof -
  show "sized (header_message t)" "sized flags_message"
    by (simp_all add: sized_def header_message_def flags_message_frame)
  show "param_message key v = Inr bs \<Longrightarrow> sized bs" "info_message key val = Inr bs \<Longrightarrow> sized bs"
    "info_multi_message key val c = Inr bs \<Longrightarrow> sized bs"
    by (auto simp: sized_def param_message_eq info_message_eq info_multi_message_eq length_keyed_frame
        split: if_splits)
  show "data_message dt name mid inst t = Inr bs \<Longrightarrow> sized bs"
    by (auto simp: sized_def data_message_eq split: if_splits)
  show "log_message msg level t = Inr bs \<Longrightarrow> sized bs"
    using length_c_str [of msg] by (auto simp: sized_def log_message_eq split: if_splits)
qed

lemma sized_format: "format_message name flds = Inr bs \<Longrightarrow> sized bs"
proof (cases "NUL \<in> set (format_text name flds)")
  case True
  then show "format_message name flds = Inr bs \<Longrightarrow> sized bs" using format_message_eq_NUL [OF True] by auto
next
  case False
  then show "format_message name flds = Inr bs \<Longrightarrow> sized bs"
    by (auto simp: sized_def format_message_eq split: if_splits)
qed

text \<open>The operations of the application, one constructor each, as a machine.\<close>

datatype api_call =
  Reg_Param_Int string "32 word" | Reg_Param_Float string "32 word" | Reg_Info string string
| Reg_Info_Multi string string bool | Reg_Format string string
| Store_Data "byte list" string string "64 word" | Store_Message string ulog_level "64 word"

fun api_step :: "'q cq_ops \<Rightarrow> api_call \<Rightarrow> 'q mu_telemetry \<Rightarrow> (bool \<times> 'q mu_telemetry) res" where
  "api_step Q (Reg_Param_Int key v) mt = register_param_int Q key v mt"
| "api_step Q (Reg_Param_Float key v) mt = register_param_float Q key v mt"
| "api_step Q (Reg_Info key val) mt = register_info Q key val mt"
| "api_step Q (Reg_Info_Multi key val c) mt = register_info_multi Q key val c mt"
| "api_step Q (Reg_Format name flds) mt = register_data_format Q name flds mt"
| "api_step Q (Store_Data dt name ann t) mt = store_data Q dt name ann t mt"
| "api_step Q (Store_Message msg level t) mt = store_message Q msg level t mt"

definition api_run :: "'q cq_ops \<Rightarrow> api_call \<Rightarrow> 'q mu_telemetry \<Rightarrow> 'q mu_telemetry res" where
  "api_run Q c mt = bindE (api_step Q c mt) (\<lambda>(_, mt). Inr mt)"

definition ids_ok :: "'q mu_telemetry \<Rightarrow> bool" where
  "ids_ok mt \<longleftrightarrow> id_gen_ok (msg_id mt) \<and> (\<forall>i g. multi_id mt i = Some g \<longrightarrow> id_gen_ok g)"

lemma ids_ok_get_ids: "ids_ok mt \<Longrightarrow> ids_ok (snd (get_ids n a mt))"
proof -
  assume ok: "ids_ok mt"
  let ?mt = "snd (get_msg_id n mt)" and ?i = "fst (get_msg_id n mt)"
  have one: "ids_ok ?mt"
    using ok get_id_ok [of "msg_id mt" n] by (auto simp: ids_ok_def get_msg_id_def split: prod.splits)
  let ?g = "case multi_id ?mt ?i of None \<Rightarrow> new_id_gen | Some g \<Rightarrow> g"
  have "id_gen_ok ?g" using one id_gen_ok_new by (auto simp: ids_ok_def split: option.splits)
  then have "id_gen_ok (snd (get_id a ?g))" by (rule get_id_ok)
  moreover have "multi_id (snd (get_multi_id ?i a ?mt)) = (multi_id ?mt)(?i \<mapsto> snd (get_id a ?g))"
    "msg_id (snd (get_multi_id ?i a ?mt)) = msg_id ?mt"
    by (auto simp: get_multi_id_def Let_def split: prod.splits option.splits)
  ultimately show ?thesis using one by (auto simp: ids_ok_def snd_get_ids)
qed

text \<open>What a call adds to the queues: nothing, or one sized message to each that is enabled.\<close>

definition grew :: "('q \<Rightarrow> byte list list) \<Rightarrow> 'q mu_telemetry \<Rightarrow> 'q mu_telemetry \<Rightarrow> bool" where
  "grew content mt mt' \<longleftrightarrow> with_local_log mt' = with_local_log mt \<and> with_network mt' = with_network mt \<and>
     (\<exists>bs. (\<forall>m \<in> set bs. sized m) \<and>
        content (log_queue mt') = content (log_queue mt) @ (if with_local_log mt then bs else []) \<and>
        content (net_queue mt') = content (net_queue mt) @ (if with_network mt then bs else []))"

lemma grew_refl: "grew content mt mt"
  by (auto simp: grew_def intro: exI [of _ "[]"])

lemma grew_trans:
  assumes one: "grew content mt mt1" and two: "grew content mt1 mt2"
  shows "grew content mt mt2"
proof -
  from one obtain bs where bs: "\<forall>m \<in> set bs. sized m"
    "content (log_queue mt1) = content (log_queue mt) @ (if with_local_log mt then bs else [])"
    "content (net_queue mt1) = content (net_queue mt) @ (if with_network mt then bs else [])"
    by (auto simp only: grew_def)
  from two obtain cs where cs: "\<forall>m \<in> set cs. sized m"
    "content (log_queue mt2) = content (log_queue mt1) @ (if with_local_log mt1 then cs else [])"
    "content (net_queue mt2) = content (net_queue mt1) @ (if with_network mt1 then cs else [])"
    by (auto simp only: grew_def)
  have "\<forall>m \<in> set (bs @ cs). sized m" using bs(1) cs(1) by auto
  with one two bs cs show ?thesis unfolding grew_def by (intro conjI exI [of _ "bs @ cs"]) auto
qed

context conc_queue
begin

lemma grew_sends:
  assumes "sends Q message mt = Inr (b, mt')" and "\<And>bs. message = Inr bs \<Longrightarrow> sized bs"
    and "with_local_log mt = with_local_log mt0" and "with_network mt = with_network mt0"
    and "log_queue mt = log_queue mt0" and "net_queue mt = net_queue mt0"
  shows "grew content mt0 mt'"
proof -
  from assms(1) obtain bs where "message = Inr bs" "mt' = to_io Q bs mt"
    by (auto simp: sends_def bindE_eq_Inr)
  with assms(2-6) show ?thesis
    by (auto simp: grew_def to_io_content intro!: exI [of _ "[bs]"])
qed

lemma grew_api: "api_step Q c mt = Inr (b, mt') \<Longrightarrow> grew content mt mt'"
proof (cases c)
  case (Store_Data dt name ann t)
  assume "api_step Q c mt = Inr (b, mt')"
  with Store_Data show ?thesis
    by (auto simp: store_data_def store_data_intl_ids split: if_splits
        intro: grew_refl elim!: grew_sends dest: sized_messages(6))
qed (auto simp: register_param_int_def register_param_float_def register_info_def register_info_multi_def
      register_data_format_def store_message_def split: if_splits
      intro: grew_refl elim!: grew_sends dest: sized_messages(3-7) sized_format)

lemma ids_ok_api: "ids_ok mt \<Longrightarrow> api_step Q c mt = Inr (b, mt') \<Longrightarrow> ids_ok mt'"
proof -
  assume ok: "ids_ok mt" and step: "api_step Q c mt = Inr (b, mt')"
  have io: "ids_ok (to_io Q bs mt) = ids_ok mt" for bs and mt :: "'q mu_telemetry"
    by (simp add: ids_ok_def)
  from step ok show ?thesis
    by (cases c) (auto simp: register_param_int_def register_param_float_def register_info_def
        register_info_multi_def register_data_format_def store_message_def store_data_def store_data_intl_ids
        sends_def bindE_eq_Inr io intro: ids_ok_get_ids split: if_splits)
qed

end

end
