(* ===== verification/Heard.thy ===== *)
theory Heard
  imports Telemetry_Props
begin

text \<open>
  The abstract specification of what a log means: what an observer is to learn from the calls of the application, one rule
  for each call that is used as the library expects (\<open>heard_as\<close>), and the proof that the messages and the parser implement it:
  reading the message of a call takes the parser from what it knew to what the rule says.
  This holds for any numbering of types and instances, as long as two types have two numbers: which numbers the senders
  choose is for Session (one caller) and Callers (many).
\<close>

section \<open>What an observer learns\<close>

text \<open>
  \<open>v_start\<close> is the start time of the log. \<open>v_used\<close> lists the type and the annotation of every record so far. Types keep the format they
  were declared with; the data phase begins with the first record.
\<close>

record view =
  v_start :: "64 word"
  v_formats :: formats
  v_used :: "(string \<times> string) list"
  v_params :: "parameter list"
  v_info :: "string \<rightharpoonup> string"
  v_logs :: "message_log list"
  v_data :: "message_data list"

definition empty_view :: "64 word \<Rightarrow> view" where
  "empty_view t = \<lparr>v_start = t, v_formats = Map.empty, v_used = [], v_params = [], v_info = Map.empty, v_logs = [], v_data = []\<rparr>"

definition types :: "view \<Rightarrow> string list" where
  "types v = map fst (v_used v)"

definition instances :: "view \<Rightarrow> string \<Rightarrow> string list" where
  "instances v name = map snd (filter (\<lambda>u. fst u = name) (v_used v))"

text \<open>
  The series a record is heard under. \<open>I\<close> numbers the instances of a type: a type with an instance other than 0 has a suffix,
  the number of the instance that came first.
\<close>

definition dotted :: "byte \<Rightarrow> string" where
  "dotted k = CHR ''.'' # pad_left (CHR ''0'') 2 (dec_nat (unat k))"

definition heard_name :: "(string \<Rightarrow> string \<Rightarrow> byte) \<Rightarrow> view \<Rightarrow> string \<Rightarrow> string" where
  "heard_name I v name =
     (if \<exists>a \<in> set (instances v name). I name a \<noteq> 0 then name @ dotted (I name (hd (instances v name))) else name)"

inductive heard_as :: "(string \<Rightarrow> string \<Rightarrow> byte) \<Rightarrow> nat \<Rightarrow> api_call \<Rightarrow> view \<Rightarrow> view \<Rightarrow> bool" for I d where
  heard_int: "NUL \<notin> set name \<Longrightarrow> length name < 243 \<Longrightarrow>
     heard_as I d (Reg_Param_Int (''int32_t '' @ name) w) v
       (v\<lparr>v_params := v_params v @ [\<lparr>param_name = name, param_bits = w, param_type = INT32\<rparr>]\<rparr>)"
| heard_float: "NUL \<notin> set name \<Longrightarrow> length name < 243 \<Longrightarrow>
     heard_as I d (Reg_Param_Float (''float '' @ name) w) v
       (v\<lparr>v_params := v_params v @ [\<lparr>param_name = name, param_bits = w, param_type = FLOAT\<rparr>]\<rparr>)"
| heard_info: "key \<noteq> [] \<Longrightarrow> CHR '' '' \<notin> set key \<Longrightarrow> NUL \<notin> set key \<Longrightarrow>
     length val + length (info_key key val) < 255 \<Longrightarrow>
     heard_as I d (Reg_Info key val) v (v\<lparr>v_info := map_insert key val (v_info v)\<rparr>)"
| heard_multi: "length val + length (info_key key val) < 255 \<Longrightarrow> heard_as I d (Reg_Info_Multi key val c) v v"
| heard_format: "v_used v = [] \<Longrightarrow> CHR '':'' \<notin> set name \<Longrightarrow> NUL \<notin> set name \<Longrightarrow>
     declares flds (fs @ [f]) \<Longrightarrow> length (format_text name flds) \<le> 1500 \<Longrightarrow>
     heard_as I d (Reg_Format name flds) v
       (v\<lparr>v_formats := (v_formats v)(name \<mapsto> read_back name fs f)\<rparr>)"
| heard_data: "v_formats v name = Some fmt \<Longrightarrow> CHR ''.'' \<notin> set name \<Longrightarrow> length name \<le> 255 \<Longrightarrow>
     length stamp = 8 \<Longrightarrow> length payload \<le> 1492 \<Longrightarrow>
     conf_fields d (v_formats v) (fmt_fields fmt) payload vs \<Longrightarrow>
     append_vector (Suc d) (v_formats v) (fmt_fields fmt) [] [] = Inr cs \<Longrightarrow>
     v' = v\<lparr>v_used := v_used v @ [(name, ann)]\<rparr> \<Longrightarrow> card (set (types v')) \<le> 65536 \<Longrightarrow>
     heard_as I d (Store_Data (stamp @ payload) name ann t) v
       (v'\<lparr>v_data := v_data v @ [\<lparr>md_name = heard_name I v' name, md_timestamp = t,
                                   structured_data = zip (map fst cs) vs\<rparr>]\<rparr>)"
| heard_message: "v_used v \<noteq> [] \<Longrightarrow> length msg < 1500 \<Longrightarrow>
     heard_as I d (Store_Message msg level t) v
       (v\<lparr>v_logs := v_logs v @ [\<lparr>ml_level = level_code level, ml_timestamp = t, ml_msg = c_str msg\<rparr>]\<rparr>)"

inductive_simps heard_message_iff: "heard_as I d (Store_Message msg level t) v v'"
inductive_simps heard_format_iff: "heard_as I d (Reg_Format name flds) v v'"

lemma views_frame [simp]:
  "types (v\<lparr>v_data := x\<rparr>) = types v" "instances (v\<lparr>v_data := x\<rparr>) = instances v"
  "types (v\<lparr>v_used := v_used v @ [(n, a)]\<rparr>) = types v @ [n]"
  "instances (v\<lparr>v_used := v_used v @ [(n, a)]\<rparr>) m = (if m = n then instances v m @ [a] else instances v m)"
  by (auto simp: types_def instances_def)

lemma types_views [simp]:
  "types (v\<lparr>v_params := x\<rparr>) = types v" "types (v\<lparr>v_info := y\<rparr>) = types v"
  "types (v\<lparr>v_formats := z\<rparr>) = types v" "types (v\<lparr>v_logs := l\<rparr>) = types v"
  by (simp_all add: types_def)

lemma instances_views [simp]:
  "instances (v\<lparr>v_params := x\<rparr>) = instances v" "instances (v\<lparr>v_info := y\<rparr>) = instances v"
  "instances (v\<lparr>v_formats := z\<rparr>) = instances v" "instances (v\<lparr>v_logs := l\<rparr>) = instances v"
  by (simp_all add: fun_eq_iff instances_def)

section \<open>The messages\<close>

text \<open>The message a call puts into the queue; \<open>T\<close> numbers the types.\<close>

fun wire_as :: "(string \<Rightarrow> 16 word) \<Rightarrow> (string \<Rightarrow> string \<Rightarrow> byte) \<Rightarrow> api_call \<Rightarrow> byte list res" where
  "wire_as T I (Reg_Param_Int key w) = param_message key (enc_le 4 w)"
| "wire_as T I (Reg_Param_Float key w) = param_message key (enc_le 4 w)"
| "wire_as T I (Reg_Info key val) = info_message key val"
| "wire_as T I (Reg_Info_Multi key val c) = info_multi_message key val c"
| "wire_as T I (Reg_Format name flds) = format_message name flds"
| "wire_as T I (Store_Data dt name ann t) = data_message dt name (T name) (I name ann) t"
| "wire_as T I (Store_Message msg level t) = log_message msg level t"

lemma param_key:
  assumes "NUL \<notin> set name" and "length name < 243"
  shows "param_message (''int32_t '' @ name) (enc_le 4 (w :: 32 word)) =
      Inr (keyed_frame 80 [] (''int32_t'' @ CHR '' '' # name) (enc_le 4 w))"
    and "param_message (''float '' @ name) (enc_le 4 (w :: 32 word)) =
      Inr (keyed_frame 80 [] (''float'' @ CHR '' '' # name) (enc_le 4 w))"
  using assms c_str_id [of "''int32_t '' @ name"] c_str_id [of "''float '' @ name"]
  by (simp_all add: param_message_eq NUL_def)

lemma heard_wire: "heard_as J d c v v' \<Longrightarrow> \<exists>bs. wire_as T I c = Inr bs"
proof (induction rule: heard_as.induct)
  case (heard_format v name flds fs f)
  then show ?case using format_message_read [of name flds fs f] by (metis wire_as.simps(5))
qed (simp_all add: param_key [simplified] info_message_eq info_multi_message_eq data_message_eq log_message_eq)

text \<open>The streamer takes the message of a record, and no other, for the beginning of the data.\<close>

fun is_record :: "api_call \<Rightarrow> bool" where
  "is_record (Store_Data dt name ann t) = True"
| "is_record _ = False"

lemma heard_frame:
  "heard_as I d c v v' \<Longrightarrow> v_start v' = v_start v"
  "heard_as I d c v v' \<Longrightarrow> v_used v \<noteq> [] \<or> is_record c \<Longrightarrow> v_formats v' = v_formats v \<and> v_used v' \<noteq> []"
  by (auto elim!: heard_as.cases)

lemma frame_begin: "check_ulog_data_begin (frame t payload @ rest) 0 = Inr (t = 65)"
proof -
  have "hdr_type (frame t payload @ rest) 0 = Inr t"
    by (simp add: hdr_type_def frame_def rd_le_def rd_def dec_le_def enc_le_def numeral_2_eq_2)
  then show ?thesis by (simp add: check_ulog_data_begin_def type_of_code_def all_types_def)
qed

lemmas frame_begin_nil = frame_begin [of _ _ "[]", simplified]

lemma heard_wire_begin:
  assumes "heard_as J d c v v'" and "wire_as T I c = Inr b"
  shows "check_ulog_data_begin b 0 = Inr (is_record c)"
  using assms(1)
proof (cases rule: heard_as.cases)
  case (heard_format name flds fs f)
  obtain s where "format_message name flds = Inr (frame 70 (bytes_of s))"
    using format_message_read [OF heard_format(4-7)] .
  then show ?thesis using assms(2) heard_format(1) frame_begin_nil [of 70 "bytes_of s"] by auto
next
  case (heard_data name fmt stamp payload vs cs v1 ann t)
  then have "b = frame 65 ([I name ann] @ enc_le 2 (T name) @ bytes_of name) @
      frame 68 (enc_le 2 (T name) @ enc_le 8 t @ payload)"
    using assms(2) by (simp add: data_message_eq)
  then show ?thesis using heard_data(1) by (simp only: frame_begin is_record.simps simp_thms)
next
  case (heard_int name w)
  then show ?thesis using assms(2) param_key(1) [of name w] by (auto simp: keyed_frame_def frame_begin_nil)
next
  case (heard_float name w)
  then show ?thesis using assms(2) param_key(2) [of name w] by (auto simp: keyed_frame_def frame_begin_nil)
next
  case (heard_info key val)
  then show ?thesis using assms(2) by (auto simp: info_message_eq keyed_frame_def frame_begin_nil)
next
  case (heard_multi val key c)
  then show ?thesis using assms(2) by (auto simp: info_multi_message_eq keyed_frame_def frame_begin_nil)
next
  case (heard_message msg level t)
  then show ?thesis using assms(2) by (auto simp: log_message_eq frame_begin_nil)
qed

section \<open>The parser\<close>

text \<open>What the parser has when it has heard what the view says.\<close>

definition known_sub :: "16 word \<Rightarrow> byte \<Rightarrow> string \<Rightarrow> subscription" where
  "known_sub i k name = \<lparr>sub_msg_id = i, sub_multi_id = k, sub_message_name = name, sub_format = Some name\<rparr>"

definition subs_track :: "(string \<Rightarrow> 16 word) \<Rightarrow> (string \<Rightarrow> string \<Rightarrow> byte) \<Rightarrow> view \<Rightarrow> parser \<Rightarrow> bool" where
  "subs_track T I v ps \<longleftrightarrow>
     (\<forall>n \<in> set (types v). CHR ''.'' \<notin> set n \<and> n \<in> dom (v_formats v) \<and>
        subscriptions ps (T n) = Some (known_sub (T n) (I n (hd (instances v n))) n)) \<and>
     (\<forall>i. i \<notin> T ` set (types v) \<longrightarrow> subscriptions ps i = None) \<and>
     with_multi_id ps = {n. \<exists>a \<in> set (instances v n). I n a \<noteq> 0}"

definition series_track :: "nat \<Rightarrow> view \<Rightarrow> parser \<Rightarrow> bool" where
  "series_track d v ps \<longleftrightarrow>
     (\<forall>nm ts. timeseries_map ps nm = Some ts \<longrightarrow>
        (\<exists>n fmt cs. n \<in> set (types v) \<and> nm \<in> insert n (range (\<lambda>k. n @ dotted k)) \<and> v_formats v n = Some fmt \<and>
           append_vector (Suc d) (v_formats v) (fmt_fields fmt) [] [] = Inr cs \<and>
           map fst (ts_data ts) = map fst cs))"

definition hears_as :: "(string \<Rightarrow> 16 word) \<Rightarrow> (string \<Rightarrow> string \<Rightarrow> byte) \<Rightarrow> nat \<Rightarrow> view \<Rightarrow> parser \<Rightarrow> bool" where
  "hears_as T I d v ps \<longleftrightarrow>
     p_state ps = (if v_used v = [] then STATE_DEFINITION else STATE_DEFINITION_OR_DATA) \<and>
     start_time ps = v_start v \<and> formats_map ps = v_formats v \<and> parameters ps = v_params v \<and> info ps = v_info v \<and>
     log_calls ps = v_logs v \<and> data_calls ps = v_data v \<and> subs_track T I v ps \<and> series_track d v ps"

lemma hears_accepting: "hears_as T I d v ps \<Longrightarrow> accepting ps"
  by (simp add: hears_as_def accepting_def)

text \<open>Only the numbers of what has been used matter.\<close>

lemma used_instances: "n \<in> set (types v) \<Longrightarrow> instances v n \<noteq> []"
  by (auto simp: types_def instances_def filter_empty_conv)

lemma instances_used: "a \<in> set (instances v n) \<longleftrightarrow> (n, a) \<in> set (v_used v)"
  by (force simp: instances_def)

lemma hears_as_cong:
  assumes "\<forall>n \<in> set (types v). T n = T' n" and "\<forall>(n, a) \<in> set (v_used v). I n a = I' n a"
  shows "hears_as T I d v ps = hears_as T' I' d v ps"
proof -
  have img: "T ` set (types v) = T' ` set (types v)" using assms(1) by (intro image_cong) auto
  have I: "I n a = I' n a" if "a \<in> set (instances v n)" for n a
    using assms(2) that unfolding instances_used by blast
  then have first: "I n (hd (instances v n)) = I' n (hd (instances v n))" if "n \<in> set (types v)" for n
    using used_instances [OF that] by simp
  have "{n. \<exists>a \<in> set (instances v n). I n a \<noteq> 0} = {n. \<exists>a \<in> set (instances v n). I' n a \<noteq> 0}"
    using I by auto
  moreover have "(\<forall>n \<in> set (types v). CHR ''.'' \<notin> set n \<and> n \<in> dom (v_formats v) \<and>
        subscriptions ps (T n) = Some (known_sub (T n) (I n (hd (instances v n))) n)) \<longleftrightarrow>
      (\<forall>n \<in> set (types v). CHR ''.'' \<notin> set n \<and> n \<in> dom (v_formats v) \<and>
        subscriptions ps (T' n) = Some (known_sub (T' n) (I' n (hd (instances v n))) n))"
    using assms(1) first by (intro ball_cong) simp_all
  ultimately have "subs_track T I v ps = subs_track T' I' v ps" by (simp only: subs_track_def img)
  then show ?thesis by (simp only: hears_as_def)
qed

lemma heard_name_cong: "(\<And>a. a \<in> set (instances v n) \<Longrightarrow> I n a = I' n a) \<Longrightarrow> heard_name I v n = heard_name I' v n"
  by (cases "instances v n") (auto simp: heard_name_def)

lemma length_dec_nat: "n < 1000 \<Longrightarrow> length (dec_nat n) \<le> 3"
proof -
  have one: "length (digits_in 10 m) \<le> 1" if "m < 10" for m
    using that by (subst digits_in.simps) simp
  have two: "length (digits_in 10 m) \<le> 2" if "m < 100" for m
    using one [of "m div 10"] that by (subst digits_in.simps) auto
  show "length (dec_nat n) \<le> 3" if "n < 1000"
    unfolding dec_nat_def using two [of "n div 10"] that by (subst digits_in.simps) auto
qed

lemma dot_02d_byte: "dot_02d (unat (k :: byte)) = Inr (dotted k)"
proof -
  have "unat k < 1000" by (rule less_trans [OF unsigned_less]) simp
  from length_dec_nat [OF this] show ?thesis by (simp add: dot_02d_def dotted_def pad_left_def Let_def)
qed

lemma dotted_0: "dotted 0 = ''.00''"
  using dot_02d_byte [of 0] by (simp add: dot_00)

lemma dotted_name:
  assumes "nm \<in> insert n (range (\<lambda>k. n @ dotted k))" and "nm \<in> insert m (range (\<lambda>k. m @ dotted k))"
    and "CHR ''.'' \<notin> set n" and "CHR ''.'' \<notin> set m"
  shows "n = m"
proof -
  have cut: "takeWhile (\<lambda>c. c \<noteq> CHR ''.'') (w @ s) = w" if "CHR ''.'' \<notin> set w" "s = [] \<or> hd s = CHR ''.''" for w s
  proof -
    have "takeWhile (\<lambda>c. c \<noteq> CHR ''.'') (w @ s) = w @ takeWhile (\<lambda>c. c \<noteq> CHR ''.'') s"
      using that(1) by (intro takeWhile_append2) metis
    then show ?thesis using that(2) by (cases s) simp_all
  qed
  have split: "\<exists>s. nm = w @ s \<and> (s = [] \<or> hd s = CHR ''.'')" if "nm \<in> insert w (range (\<lambda>k. w @ dotted k))" for w
    using that by (auto simp: dotted_def)
  obtain s t where "nm = n @ s" "nm = m @ t" and st: "s = [] \<or> hd s = CHR ''.''" "t = [] \<or> hd t = CHR ''.''"
    using split [OF assms(1)] split [OF assms(2)] by blast
  then show ?thesis using cut [OF assms(3) st(1)] cut [OF assms(4) st(2)] by simp
qed

text \<open>The calls other than \<open>store_data\<close> change what the view says at the same place.\<close>

lemma hears_updates:
  assumes "hears_as T I d v ps"
  shows "hears_as T I d (v\<lparr>v_params := v_params v @ x\<rparr>) (ps\<lparr>parameters := parameters ps @ x\<rparr>)"
    and "hears_as T I d (v\<lparr>v_info := map_insert k y (v_info v)\<rparr>) (ps\<lparr>info := map_insert k y (info ps)\<rparr>)"
    and "hears_as T I d (v\<lparr>v_logs := v_logs v @ l\<rparr>) (ps\<lparr>log_calls := log_calls ps @ l, message_logs := ml\<rparr>)"
  using assms by (simp_all only: hears_as_def subs_track_def series_track_def) simp_all

lemma hears_format:
  assumes "hears_as T I d v ps" and "v_used v = []"
  shows "hears_as T I d (v\<lparr>v_formats := (v_formats v)(n \<mapsto> f)\<rparr>) (ps\<lparr>formats_map := (formats_map ps)(n \<mapsto> f)\<rparr>)"
proof -
  have types: "types v = []" using assms(2) by (simp add: types_def)
  then have "subs_track T I (v\<lparr>v_formats := x\<rparr>) (ps\<lparr>formats_map := y\<rparr>) = subs_track T I v ps" for x y
    by (simp only: subs_track_def) simp
  moreover have "series_track d u p \<longleftrightarrow> timeseries_map p = Map.empty" if "types u = []" for u and p :: parser
    unfolding series_track_def that by (auto intro!: ext)
  ultimately show ?thesis using assms types by (simp add: hears_as_def)
qed

lemma parse_multi_frame:
  assumes "stored mem p (keyed_frame 77 pre key val)" and "accepting ps"
  shows "parse stk mem p ps = Inr (ps, True)"
  using parse_keyed(3) [OF assms(1) [unfolded keyed_frame_def] assms(2) refl] by (simp add: parse_multi_def)

text \<open>What a record adds to the parser before its payload is decoded.\<close>

lemma added_track:
  assumes hears: "hears_as T I d v ps" and v': "v' = v\<lparr>v_used := v_used v @ [(n, a)]\<rparr>"
    and inj: "inj_on T (set (types v'))" and fmt: "v_formats v n = Some fmt" and dot: "CHR ''.'' \<notin> set n"
  shows "subs_track T I v' (added (T n) (I n a) n ps)"
proof -
  let ?ps = "added (T n) (I n a) n ps"
  have types: "types v' = types v @ [n]" by (simp add: v')
  have track: "subs_track T I v ps" and fm: "formats_map ps = v_formats v" using hears by (simp_all add: hears_as_def)
  have far: "T m \<noteq> T n" if "m \<in> set (types v)" "m \<noteq> n" for m
    using inj_onD [OF inj, of m n] that types by auto
  have at: "subscriptions ?ps (T n) = Some (known_sub (T n) (I n (hd (instances v' n))) n)"
  proof (cases "n \<in> set (types v)")
    case True
    then show ?thesis
      using track used_instances [OF True] by (simp add: subs_track_def added_def v')
  next
    case False
    then have "T n \<notin> T ` set (types v)" using far by (metis image_iff)
    then have "subscriptions ps (T n) = None" using track by (simp add: subs_track_def)
    moreover have "instances v n = []" using False by (force simp: types_def instances_def filter_empty_conv)
    ultimately show ?thesis using fmt fm by (auto simp: added_def new_sub_def known_sub_def v')
  qed
  have other: "subscriptions ?ps i = subscriptions ps i" if "i \<noteq> T n" for i
    using that by (simp add: added_def map_insert_def split: option.splits)
  have multi: "with_multi_id ?ps = {m. \<exists>a \<in> set (instances v' m). I m a \<noteq> 0}"
    using track by (auto simp: subs_track_def added_def v' word_gt_0)
  have one: "CHR ''.'' \<notin> set m \<and> m \<in> dom (v_formats v') \<and>
      subscriptions ?ps (T m) = Some (known_sub (T m) (I m (hd (instances v' m))) m)" if "m \<in> set (types v')" for m
  proof (cases "m = n")
    case True
    then show ?thesis using at fmt dot by (auto simp: v')
  next
    case False
    then have m: "m \<in> set (types v)" using that types by simp
    then show ?thesis
      unfolding other [OF far [OF m False]] using track False by (simp add: subs_track_def v')
  qed
  have none: "subscriptions ?ps i = None" if "i \<notin> T ` set (types v')" for i
  proof -
    have "i \<noteq> T n" "i \<notin> T ` set (types v)" using that types by (auto simp: image_iff)
    with other track show ?thesis by (simp add: subs_track_def)
  qed
  show ?thesis unfolding subs_track_def using one none multi by blast
qed

lemma series_heard:
  assumes "subs_track T I v' ps" and "n \<in> set (types v')"
  shows "series_name ps (known_sub (T n) (I n (hd (instances v' n))) n) = Inr (heard_name I v' n)"
  using assms by (auto simp: series_name_def known_sub_def subs_track_def heard_name_def dot_02d_byte)

lemma series_old:
  assumes "series_track d v ps" and "subs_track T I v ps" and "timeseries_map ps (heard_name J v' n) = Some ts"
    and "CHR ''.'' \<notin> set n" and "v_formats v n = Some fmt"
    and "append_vector (Suc d) (v_formats v) (fmt_fields fmt) [] [] = Inr cs"
  shows "map fst (ts_data ts) = map fst cs"
proof -
  obtain m fmt' cs' where m: "m \<in> set (types v)" "heard_name J v' n \<in> insert m (range (\<lambda>k. m @ dotted k))" "v_formats v m = Some fmt'"
    "append_vector (Suc d) (v_formats v) (fmt_fields fmt') [] [] = Inr cs'" "map fst (ts_data ts) = map fst cs'"
    using assms(1,3) unfolding series_track_def by blast
  have "CHR ''.'' \<notin> set m" using assms(2) m(1) by (simp add: subs_track_def)
  then have "n = m"
    using m(2) assms(4) by (intro dotted_name [of "heard_name J v' n"]) (auto simp: heard_name_def)
  with m assms(5,6) show ?thesis by simp
qed

lemma series_track_insert:
  assumes "series_track d v ps" and "v_formats v n = Some fmt"
    and "append_vector (Suc d) (v_formats v) (fmt_fields fmt) [] [] = Inr cs" and "map fst (ts_data ts) = map fst cs"
    and "nm \<in> insert n (range (\<lambda>k. n @ dotted k))" and u: "types u = types v @ [n]" "v_formats u = v_formats v"
    and ps': "timeseries_map ps' = (timeseries_map ps)(nm \<mapsto> ts)"
  shows "series_track d u ps'"
  unfolding series_track_def
proof (intro allI impI)
  fix m ts'
  assume "timeseries_map ps' m = Some ts'"
  then consider "m = nm" "ts' = ts" | "timeseries_map ps m = Some ts'"
    unfolding ps' fun_upd_apply by (cases "m = nm") simp_all
  then show "\<exists>n fmt cs. n \<in> set (types u) \<and> m \<in> insert n (range (\<lambda>k. n @ dotted k)) \<and> v_formats u n = Some fmt \<and>
      append_vector (Suc d) (v_formats u) (fmt_fields fmt) [] [] = Inr cs \<and> map fst (ts_data ts') = map fst cs"
  proof cases
    case 1
    have "n \<in> set (types u)" by (simp add: u(1))
    then show ?thesis unfolding 1 u(2) using assms(2-5) by blast
  next
    case 2
    then obtain k fmt' cs' where "k \<in> set (types v)" "m \<in> insert k (range (\<lambda>j. k @ dotted j))" "v_formats v k = Some fmt'"
      "append_vector (Suc d) (v_formats v) (fmt_fields fmt') [] [] = Inr cs'" "map fst (ts_data ts') = map fst cs'"
      using assms(1) unfolding series_track_def by blast
    moreover from this(1) have "k \<in> set (types u)" by (simp add: u(1))
    ultimately show ?thesis unfolding u(2) by blast
  qed
qed
lemma heard_parsed_data:
  assumes hears: "hears_as T I d v ps" and fmt: "v_formats v n = Some fmt" and dot: "CHR ''.'' \<notin> set n"
    and len: "length n \<le> 255" and conf: "conf_fields d (v_formats v) (fmt_fields fmt) payload vs"
    and cs: "append_vector (Suc d) (v_formats v) (fmt_fields fmt) [] [] = Inr cs"
    and v': "v' = v\<lparr>v_used := v_used v @ [(n, a)]\<rparr>" and inj: "inj_on T (set (types v'))"
    and mem: "stored mem p (frame 65 ([I n a] @ enc_le 2 (T n) @ bytes_of n) @
                            frame 68 (enc_le 2 (T n) @ enc_le 8 t @ payload))"
  shows "\<exists>ps'. parse (Suc d) mem p ps = Inr (ps', True) \<and>
    hears_as T I d (v'\<lparr>v_data := v_data v @ [\<lparr>md_name = heard_name I v' n, md_timestamp = t,
                                        structured_data = zip (map fst cs) vs\<rparr>]\<rparr>) ps'"
proof -
  let ?ps = "added (T n) (I n a) n ps" and ?nm = "heard_name I v' n"
  let ?md = "\<lparr>md_name = ?nm, md_timestamp = t, structured_data = zip (map fst cs) vs\<rparr>"
  note p = parse_store_data [OF mem len hears_accepting [OF hears]]
  have types: "types v' = types v @ [n]" by (simp add: v')
  have track: "subs_track T I v' ?ps" by (rule added_track [OF hears v' inj fmt dot])
  then have sub: "subscriptions ?ps (T n) = Some (known_sub (T n) (I n (hd (instances v' n))) n)"
    using types by (simp add: subs_track_def)
  have fm: "formats_map ?ps = v_formats v" and data: "data_calls ?ps = data_calls ps" using hears by (simp_all add: hears_as_def)
  have old: "map fst (ts_data ts) = map fst cs" if "timeseries_map ?ps ?nm = Some ts" for ts
    using series_old [OF _ _ _ dot fmt cs, of ps T I I v' ts] that hears by (simp add: hears_as_def)
  have nm: "series_name ?ps (known_sub (T n) (I n (hd (instances v' n))) n) = Inr ?nm"
    using series_heard [OF track, of n] types by simp
  have known: "sub_format (known_sub (T n) (I n (hd (instances v' n))) n) = Some n" by (simp add: known_sub_def)
  have fmt': "formats_map ?ps n = Some fmt" and conf': "conf_fields d (formats_map ?ps) (fmt_fields fmt) payload vs"
    and cs': "append_vector (Suc d) (formats_map ?ps) (fmt_fields fmt) [] [] = Inr cs"
    unfolding fm by (fact fmt, fact conf, fact cs)
  obtain ts where ts: "parse_data_message (Suc d) mem (p + 9 + length n) ?ps =
      Inr (?ps\<lparr>timeseries_map := (timeseries_map ?ps)(?nm \<mapsto> ts), data_calls := data_calls ?ps @ [?md]\<rparr>,
           STATE_DEFINITION_OR_DATA)" and chans: "ts_data ts = zip (map fst cs) (map (\<lambda>v. [v]) vs)"
    using parse_data_frame [OF p(2) sub known fmt' nm conf' cs' old] by blast
  let ?ps' = "?ps\<lparr>timeseries_map := (timeseries_map ?ps)(?nm \<mapsto> ts), data_calls := data_calls ?ps @ [?md],
                 p_state := STATE_DEFINITION_OR_DATA\<rparr>"
  have "length vs = length cs"
    using conf_fields_leaves [OF conf, of 0] append_vector_empty [OF cs, of 0] by simp
  then have "map fst (ts_data ts) = map fst cs" by (simp add: chans)
  moreover have "series_track d v ps" using hears by (simp add: hears_as_def)
  ultimately have "series_track d (v'\<lparr>v_data := v_data v @ [?md]\<rparr>) ?ps'"
    using series_track_insert [OF _ fmt cs, of ps ts ?nm "v'\<lparr>v_data := v_data v @ [?md]\<rparr>" ?ps']
    by (simp add: v' heard_name_def)
  moreover have "subs_track T I (v'\<lparr>v_data := v_data v @ [?md]\<rparr>) ?ps'"
    using track by (simp only: subs_track_def) simp
  ultimately have "hears_as T I d (v'\<lparr>v_data := v_data v @ [?md]\<rparr>) ?ps'"
    using hears by (simp add: hears_as_def v')
  then show ?thesis using p(1) [of "Suc d"] ts by (intro exI [of _ ?ps']) simp
qed

text \<open>Reading the message of a call takes the parser from one view to the next.\<close>

lemma heard_parsed:
  assumes "heard_as I d c v v'" and "wire_as T I c = Inr bs" and "stored mem p bs" and hears: "hears_as T I d v ps"
    and inj: "is_record c \<Longrightarrow> inj_on T (set (types v'))"
  shows "\<exists>ps'. parse (Suc d) mem p ps = Inr (ps', True) \<and> hears_as T I d v' ps'"
  using assms(1-3)
proof (cases rule: heard_as.cases)
  case (heard_int name w)
  then have "bs = keyed_frame 80 [] (''int32_t'' @ CHR '' '' # name) (enc_le 4 w)"
    using assms(2) param_key(1) [of name w] by simp
  then have "parse (Suc d) mem p ps =
      Inr (ps\<lparr>parameters := parameters ps @ [\<lparr>param_name = name, param_bits = w, param_type = INT32\<rparr>]\<rparr>, True)"
    using heard_int(3,4) assms(3) hears_accepting [OF hears] by (intro parse_param_key) simp_all
  then show ?thesis using hears_updates(1) [OF hears] heard_int(2) by simp
next
  case (heard_float name w)
  then have "bs = keyed_frame 80 [] (''float'' @ CHR '' '' # name) (enc_le 4 w)"
    using assms(2) param_key(2) [of name w] by simp
  then have "parse (Suc d) mem p ps =
      Inr (ps\<lparr>parameters := parameters ps @ [\<lparr>param_name = name, param_bits = w, param_type = FLOAT\<rparr>]\<rparr>, True)"
    using heard_float(3,4) assms(3) hears_accepting [OF hears] by (intro parse_param_key) simp_all
  then show ?thesis using hears_updates(1) [OF hears] heard_float(2) by simp
next
  case (heard_info key val)
  then have "bs = keyed_frame 73 [] (info_key key val) (bytes_of val)" using assms(2) by (simp add: info_message_eq)
  then have "parse (Suc d) mem p ps = Inr (ps\<lparr>info := map_insert key val (info ps)\<rparr>, True)"
    using heard_info assms(3) hears_accepting [OF hears] by (intro parse_info_key) simp_all
  then show ?thesis using hears_updates(2) [OF hears] heard_info(2) by simp
next
  case (heard_multi val key c)
  then have "bs = keyed_frame 77 [of_bool c] (info_key key val) (bytes_of val)"
    using assms(2) by (simp add: info_multi_message_eq)
  then show ?thesis
    using parse_multi_frame [of mem p _ _ _ ps] assms(3) hears_accepting [OF hears] hears heard_multi(2) by blast
next
  case (heard_format name flds fs f)
  obtain s where s: "format_message name flds = Inr (frame 70 (bytes_of s))"
    "length s < 2 ^ 16" "format_of_text s = Inr (Some (read_back name fs f))"
    using format_message_read [OF heard_format(4-7)] .
  have "p_state ps = STATE_DEFINITION" using hears heard_format(3) by (simp add: hears_as_def)
  then have "parse (Suc d) mem p ps = Inr (ps\<lparr>formats_map := (formats_map ps)(name \<mapsto> read_back name fs f)\<rparr>, True)"
    using parse_format_frame [OF _ s(2,3), of mem p ps "Suc d"] assms(2,3) heard_format(1) s(1)
    by (simp add: read_back_def)
  then show ?thesis using hears_format [OF hears heard_format(3)] heard_format(2) by simp
next
  case (heard_data name fmt stamp payload vs cs v1 ann t)
  have "bs = frame 65 ([I name ann] @ enc_le 2 (T name) @ bytes_of name) @
             frame 68 (enc_le 2 (T name) @ enc_le 8 t @ payload)"
    using assms(2) heard_data(1,5-7) by (simp add: data_message_eq)
  moreover have "inj_on T (set (types v1))" using inj heard_data(1,2) by simp
  ultimately show ?thesis
    using heard_parsed_data [OF hears heard_data(3-5,8-10)] assms(3) heard_data(2) by simp
next
  case (heard_message msg level t)
  have bs: "bs = frame 76 ([level_code level] @ enc_le 8 t @ bytes_of (c_str msg))"
    using assms(2) heard_message(1,4) by (simp add: log_message_eq)
  have st: "p_state ps = STATE_DEFINITION_OR_DATA" using hears heard_message(3) by (simp add: hears_as_def)
  have "length (c_str msg) < 2 ^ 15" using length_c_str [of msg] heard_message(4) by simp
  from parse_log_frame [OF assms(3) [unfolded bs] this st] show ?thesis
    using hears_updates(3) [OF hears] heard_message(2) by (simp add: Let_def)
qed


end
