(* ===== verification/Session.thy ===== *)
theory Session
  imports Heard
begin

text \<open>
  Sessions of one caller: the numbers its types and instances get follow from the records so far, so that a call of
  the interface that is used as expected is accepted, puts its message into the queues, and the parser that reads the
  messages ends in the view the calls lead to (\<open>session_refined\<close>).
\<close>

section \<open>Ids\<close>

text \<open>The ids of the types and of their instances follow from the records so far.\<close>

definition type_id :: "view \<Rightarrow> string \<Rightarrow> 16 word" where
  "type_id v name = fst (get_id name (get_all (types v) new_id_gen))"

definition ids_track :: "view \<Rightarrow> 'q mu_telemetry \<Rightarrow> bool" where
  "ids_track v mt \<longleftrightarrow> msg_id mt = get_all (types v) new_id_gen \<and>
     (\<forall>n \<in> set (types v). multi_id mt (type_id v n) = Some (get_all (instances v n) new_id_gen)) \<and>
     (\<forall>i. i \<notin> type_id v ` set (types v) \<longrightarrow> multi_id mt i = None)"

lemma type_id_used:
  "types v' = types v @ [n] \<Longrightarrow> type_id v' n = type_id v n"
  "types v' = types v @ [n] \<Longrightarrow> m \<in> set (types v) \<Longrightarrow> type_id v' m = type_id v m"
  by (simp_all add: type_id_def get_all_snoc_self get_all_snoc_known)

lemma type_id_distinct:
  "card (set (types v)) \<le> 65536 \<Longrightarrow> m \<in> set (types v) \<Longrightarrow> n \<in> set (types v) \<Longrightarrow>
   type_id v m = type_id v n \<longleftrightarrow> m = n"
  using get_all_distinct [where 'w = 16, of "types v" m n] by (auto simp: type_id_def)

lemma instances_new: "n \<notin> set (types v) \<Longrightarrow> instances v n = []"
  by (force simp: types_def instances_def filter_empty_conv)

lemma multi_id_get_ids:
  assumes "ids_track v mt" and "types v' = types v @ [n]" and "card (set (types v')) \<le> 65536"
  shows "multi_id mt (type_id v n) = (if n \<in> set (types v) then Some (get_all (instances v n) new_id_gen) else None)"
proof (cases "n \<in> set (types v)")
  case True
  with assms(1) show ?thesis by (simp add: ids_track_def)
next
  case False
  have "type_id v n \<noteq> type_id v m" if "m \<in> set (types v)" for m
    using type_id_distinct [OF assms(3), of m n] that False assms(2) type_id_used [OF assms(2)] by auto
  then show ?thesis using assms(1) False by (auto simp: ids_track_def)
qed

lemma get_ids_track:
  assumes track: "ids_track v mt" and v': "v' = v\<lparr>v_used := v_used v @ [(n, a)]\<rparr>"
    and room: "card (set (types v')) \<le> 65536"
  shows "fst (get_ids n a mt) = (type_id v n, fst (get_id a (get_all (instances v n) new_id_gen)))"
    and "ids_track v' (snd (get_ids n a mt))"
proof -
  have types: "types v' = types v @ [n]" by (simp add: v')
  let ?g = "get_all (instances v n) (new_id_gen :: 8 word id_gen)"
  have msg: "msg_id mt = get_all (types v) new_id_gen" using track by (simp add: ids_track_def)
  have ids: "get_ids n a mt =
      ((type_id v n, fst (get_id a ?g)),
       mt\<lparr>msg_id := get_all (types v') new_id_gen,
          multi_id := (multi_id mt)(type_id v n \<mapsto> get_all (instances v n @ [a]) new_id_gen)\<rparr>)"
    using multi_id_get_ids [OF track types room] instances_new [of n v]
    by (cases "n \<in> set (types v)")
      (simp_all add: get_ids_def get_msg_id_def get_multi_id_def msg types type_id_def get_all_snoc Let_def split_beta)
  then show "fst (get_ids n a mt) = (type_id v n, fst (get_id a ?g))" by simp
  have "type_id v' m = type_id v n \<longleftrightarrow> m = n" if "m \<in> set (types v')" for m
    using type_id_distinct [OF room that, of n] types type_id_used(1) [OF types] by simp
  then show "ids_track v' (snd (get_ids n a mt))"
    using track types unfolding ids ids_track_def by (auto simp: v' get_all_snoc type_id_used [OF types, unfolded v'])
qed

section \<open>The rules with these numbers\<close>

definition inst_id :: "view \<Rightarrow> string \<Rightarrow> string \<Rightarrow> byte" where
  "inst_id v name ann = fst (get_id ann (get_all (instances v name) new_id_gen))"

abbreviation heard :: "nat \<Rightarrow> api_call \<Rightarrow> view \<Rightarrow> view \<Rightarrow> bool" where
  "heard d c v v' \<equiv> heard_as (inst_id v') d c v v'"

abbreviation wire :: "view \<Rightarrow> api_call \<Rightarrow> byte list res" where
  "wire v \<equiv> wire_as (type_id v) (inst_id v)"

abbreviation hears :: "nat \<Rightarrow> view \<Rightarrow> parser \<Rightarrow> bool" where
  "hears d v \<equiv> hears_as (type_id v) (inst_id v) d v"

lemmas hears_def = hears_as_def

text \<open>A whole session.\<close>

fun session :: "nat \<Rightarrow> api_call list \<Rightarrow> view \<Rightarrow> view \<Rightarrow> bool" where
  "session d [] v v' \<longleftrightarrow> v' = v"
| "session d (c # cs) v v' \<longleftrightarrow> (\<exists>u. heard d c v u \<and> session d cs u v')"

lemma type_id_views [simp]:
  "type_id (v\<lparr>v_params := x\<rparr>) = type_id v" "type_id (v\<lparr>v_info := y\<rparr>) = type_id v"
  "type_id (v\<lparr>v_formats := z\<rparr>) = type_id v" "type_id (v\<lparr>v_logs := l\<rparr>) = type_id v"
  "type_id (v\<lparr>v_data := k\<rparr>) = type_id v"
  by (simp_all add: fun_eq_iff type_id_def types_def)

lemma inst_id_views [simp]:
  "inst_id (v\<lparr>v_params := x\<rparr>) = inst_id v" "inst_id (v\<lparr>v_info := y\<rparr>) = inst_id v"
  "inst_id (v\<lparr>v_formats := z\<rparr>) = inst_id v" "inst_id (v\<lparr>v_logs := l\<rparr>) = inst_id v"
  "inst_id (v\<lparr>v_data := k\<rparr>) = inst_id v"
  by (simp_all add: fun_eq_iff inst_id_def)

lemma inst_id_used:
  assumes "v' = v\<lparr>v_used := v_used v @ [(n, a)]\<rparr>"
  shows "inst_id v' n a = inst_id v n a" and "b \<in> set (instances v m) \<Longrightarrow> inst_id v' m b = inst_id v m b"
  by (auto simp: assms inst_id_def get_all_snoc_self get_all_snoc_known)

text \<open>The first instance of a type has the number 0, the second one has not.\<close>

lemma card_le_1: "card (set h) \<le> 1 \<longleftrightarrow> h = [] \<or> (\<exists>m. set h = {m})"
  by (cases h) (auto simp: card_le_Suc0_iff_eq)

lemma number_counts:
  "(fst (get_id a (get_all ns (new_id_gen :: 8 word id_gen))) \<noteq> 0 \<or> 2 \<le> card (set ns)) \<longleftrightarrow> 2 \<le> card (set (ns @ [a]))"
proof (cases "card (set ns) \<le> 1")
  case True
  then consider "set ns \<subseteq> {a}" | m where "set ns = {m}" "a \<noteq> m"
    unfolding card_le_1 by auto
  then show ?thesis
  proof cases
    case 1
    then have "insert a (set ns) = {a}" by auto
    then have "card (insert a (set ns)) = 1" by (simp only: card_insert_disjoint) simp
    then show ?thesis using True get_all_single [OF 1, where 'w = 8] by simp
  next
    case 2
    then show ?thesis using get_all_second [OF 2, where 'w = 8] by simp
  qed
next
  case False
  have "card (set ns) \<le> card (set (ns @ [a]))" by (intro card_mono) auto
  with False show ?thesis by simp
qed

lemma numbers_nonzero:
  "(\<exists>b \<in> set ns. fst (get_id b (get_all ns (new_id_gen :: 8 word id_gen))) \<noteq> 0) \<longleftrightarrow> 2 \<le> card (set ns)"
proof (induction ns rule: rev_induct)
  case Nil
  then show ?case by simp
next
  case (snoc a ns)
  let ?num = "\<lambda>b ns. fst (get_id b (get_all ns (new_id_gen :: 8 word id_gen)))"
  have "?num b (ns @ [a]) = ?num b ns" if "b \<in> set ns" for b using that by (rule get_all_snoc_known)
  then have "(\<exists>b \<in> set (ns @ [a]). ?num b (ns @ [a]) \<noteq> 0) \<longleftrightarrow> (\<exists>b \<in> set ns. ?num b ns \<noteq> 0) \<or> ?num a ns \<noteq> 0"
    by (auto simp: get_all_snoc_self)
  then show ?case unfolding snoc.IH using number_counts [of a ns] by blast
qed

lemma get_all_first: "fst (get_id a (get_all (a # ns) (new_id_gen :: 8 word id_gen))) = 0"
proof -
  have "ids (get_all (a # ns) (new_id_gen :: 8 word id_gen)) a = Some 0"
    unfolding get_all_eq_multi multi_ids.alloc_all.simps
    by (rule multi_ids.alloc_all_stable) (simp add: get_id_def new_id_gen_def)
  then show ?thesis by (simp add: get_id_laws(3))
qed

lemma heard_name_seq:
  "heard_name (inst_id v) v n = (if card (set (instances v n)) \<le> 1 then n else n @ ''.00'')"
proof (cases "instances v n")
  case Nil
  then show ?thesis by (simp add: heard_name_def)
next
  case (Cons a as)
  have "inst_id v n (hd (instances v n)) = 0"
    unfolding inst_id_def Cons list.sel by (rule get_all_first)
  moreover have "(\<exists>b \<in> set (instances v n). inst_id v n b \<noteq> 0) \<longleftrightarrow> 2 \<le> card (set (instances v n))"
    unfolding inst_id_def by (rule numbers_nonzero)
  ultimately show ?thesis unfolding heard_name_def by (simp add: dotted_0 not_le)
qed

lemma heard_record:
  assumes "v_formats v name = Some fmt" and "CHR ''.'' \<notin> set name" and "length name \<le> 255"
    and "length stamp = 8" and "length payload \<le> 1492"
    and "conf_fields d (v_formats v) (fmt_fields fmt) payload vs"
    and "append_vector (Suc d) (v_formats v) (fmt_fields fmt) [] [] = Inr cs"
    and "v' = v\<lparr>v_used := v_used v @ [(name, ann)]\<rparr>" and "card (set (types v')) \<le> 65536"
  shows "heard d (Store_Data (stamp @ payload) name ann t) v
    (v'\<lparr>v_data := v_data v @ [\<lparr>md_name = heard_name (inst_id v') v' name, md_timestamp = t, structured_data = zip (map fst cs) vs\<rparr>]\<rparr>)"
  using heard_data [OF assms, of "inst_id v'" t] by simp

text \<open>Reading the message of a call takes the parser from one view to the next.\<close>

lemma hears_used:
  assumes "v' = v\<lparr>v_used := v_used v @ [(n, a)]\<rparr>"
  shows "hears d v ps = hears_as (type_id v') (inst_id v') d v ps"
proof -
  have types: "types v' = types v @ [n]" by (simp add: assms)
  show ?thesis
    by (rule hears_as_cong) (auto simp: type_id_used [OF types] inst_id_used(2) [OF assms] instances_used)
qed

lemma heard_parsed_seq:
  assumes heard: "heard d c v v'" and wire: "wire v c = Inr bs" and mem: "stored mem p bs" and hears: "hears d v ps"
  shows "\<exists>ps'. parse (Suc d) mem p ps = Inr (ps', True) \<and> hears d v' ps'"
proof (cases "is_record c")
  case True
  then obtain dt n a t where c: "c = Store_Data dt n a t" by (cases c) auto
  obtain md u where v': "v' = u\<lparr>v_data := md\<rparr>" and u: "u = v\<lparr>v_used := v_used v @ [(n, a)]\<rparr>" "card (set (types u)) \<le> 65536"
    using heard unfolding c by (auto elim: heard_as.cases)
  have types: "types u = types v @ [n]" by (simp add: u)
  have "inj_on (type_id u) (set (types u))"
    using type_id_distinct [OF u(2)] by (auto intro: inj_onI)
  moreover have "wire_as (type_id v') (inst_id v') c = Inr bs"
    using wire by (simp add: c v' type_id_used [OF types] inst_id_used [OF u(1)])
  moreover have "hears_as (type_id v') (inst_id v') d v ps"
    using hears hears_used [OF u(1)] by (simp add: v')
  ultimately show ?thesis using heard_parsed [OF heard _ mem] by (simp add: v')
next
  case False
  with heard have same: "v_used v' = v_used v" by (auto elim: heard_as.cases)
  then have "type_id v' = type_id v" "inst_id v' = inst_id v"
    by (simp_all add: fun_eq_iff type_id_def inst_id_def types_def instances_def)
  then show ?thesis using heard_parsed [OF heard _ mem] wire hears hears_as_cong False by simp
qed

lemma ids_track_frame: "ids_track v (to_io Q bs mt) = ids_track v mt"
  by (simp add: ids_track_def)

lemma ids_track_views [simp]:
  "ids_track (v\<lparr>v_params := x\<rparr>) = ids_track v" "ids_track (v\<lparr>v_info := y\<rparr>) = ids_track v"
  "ids_track (v\<lparr>v_formats := z\<rparr>) = ids_track v" "ids_track (v\<lparr>v_logs := l\<rparr>) = ids_track v"
  "ids_track (v\<lparr>v_data := k\<rparr>) = ids_track v"
  by (auto simp: fun_eq_iff ids_track_def type_id_def types_def instances_def)


text \<open>What some calls leave in the queues.\<close>

definition queued :: "('q \<Rightarrow> byte list list) \<Rightarrow> byte list list \<Rightarrow> 'q mu_telemetry \<Rightarrow> 'q mu_telemetry \<Rightarrow> bool" where
  "queued content bs mt mt' \<longleftrightarrow> with_local_log mt' = with_local_log mt \<and> with_network mt' = with_network mt \<and>
     content (log_queue mt') = content (log_queue mt) @ (if with_local_log mt then bs else []) \<and>
     content (net_queue mt') = content (net_queue mt) @ (if with_network mt then bs else [])"

lemma queued_refl: "queued content [] mt mt"
  by (simp add: queued_def)

lemma queued_trans: "queued content as mt mt1 \<Longrightarrow> queued content bs mt1 mt2 \<Longrightarrow> queued content (as @ bs) mt mt2"
  by (auto simp: queued_def)

lemma queued_enabled: "queued content bs mt mt' \<Longrightarrow> is_enabled mt' = is_enabled mt"
  by (simp add: queued_def is_enabled_def)

context conc_queue
begin

text \<open>A call that is used as expected is accepted and puts its message into the queues that are in use.\<close>

lemma heard_queued:
  assumes "heard d c v v'" and "ids_track v mt" and "is_enabled mt" and "wire v c = Inr b"
  shows "\<exists>mt'. api_run Q c mt = Inr mt' \<and> queued content [b] mt mt' \<and> ids_track v' mt'"
  using assms
proof (cases rule: heard_as.cases)
  case (heard_data name fmt stamp payload vs cs v1 ann t)
  note ids = get_ids_track [OF assms(2) heard_data(10,11)]
  have "api_run Q c mt = Inr (to_io Q b (snd (get_ids name ann mt)))"
    using assms(3,4) heard_data(1) ids(1)
    by (simp add: api_run_def store_data_def store_data_intl_ids inst_id_def sends_def bindE_assoc)
  moreover obtain md where "v' = v1\<lparr>v_data := md\<rparr>" using heard_data(2) by blast
  ultimately show ?thesis
    using ids(2) by (simp add: to_io_content ids_track_frame queued_def)
qed (simp_all add: api_run_def register_param_int_def register_param_float_def register_info_def queued_def
      register_info_multi_def register_data_format_def store_message_def to_io_content ids_track_frame)

end

section \<open>Sessions\<close>

text \<open>Where the messages of a file begin.\<close>

fun offsets :: "nat \<Rightarrow> byte list list \<Rightarrow> nat list" where
  "offsets p [] = []"
| "offsets p (b # bs) = p # offsets (p + length b) bs"

fun stored_all :: "(byte list \<times> nat) list \<Rightarrow> byte list list \<Rightarrow> bool" where
  "stored_all [] [] \<longleftrightarrow> True"
| "stored_all ((mem, p) # locs) (b # bs) \<longleftrightarrow> stored mem p b \<and> stored_all locs bs"
| "stored_all _ _ \<longleftrightarrow> False"

lemma stored_all_offsets: "stored mem p (concat bs) \<Longrightarrow> stored_all (map (Pair mem) (offsets p bs)) bs"
  by (induction bs arbitrary: p) (auto simp: stored_append)

text \<open>The header and the flags bring a new parser to the empty view.\<close>

lemma opening_parsed:
  assumes "stored_all locs [header_message t, flags_message]"
  shows "\<exists>ps. foldE (parse_call stk) locs new_parser = Inr ps \<and> hears d (empty_view t) ps"
proof -
  obtain mem p mem' p' where locs: "locs = [(mem, p), (mem', p')]"
    and st: "stored mem p (header_message t)" "stored mem' p' flags_message"
    using assms by (auto elim!: stored_all.elims)
  let ?ps = "new_parser\<lparr>start_time := t, p_state := STATE_DEFINITION\<rparr>"
  have "foldE (parse_call stk) locs new_parser = Inr ?ps"
    using parse_header_message [OF st(1), of new_parser stk]
      parse_flags_message [OF st(2), of "new_parser\<lparr>start_time := t, p_state := STATE_FLAGS\<rparr>" stk]
    by (simp add: locs parse_call_def new_parser_def)
  moreover have "hears d (empty_view t) ?ps"
    by (simp add: hears_def empty_view_def new_parser_def subs_track_def series_track_def types_def instances_def)
  ultimately show ?thesis by blast
qed

lemma ids_track_empty: "msg_id mt = new_id_gen \<Longrightarrow> multi_id mt = Map.empty \<Longrightarrow> ids_track (empty_view t) mt"
  by (simp add: ids_track_def empty_view_def types_def)

lemma stored_all_split:
  "stored_all locs (as @ bs) \<Longrightarrow> stored_all (take (length as) locs) as \<and> stored_all (drop (length as) locs) bs"
proof (induction as arbitrary: locs)
  case Nil
  then show ?case by simp
next
  case (Cons a as)
  then show ?case by (cases locs) auto
qed

context conc_queue
begin

lemma session_refined:
  assumes "session d cs v v'" and "ids_track v mt" and "is_enabled mt"
  shows "\<exists>mt' bs. foldE (api_run Q) cs mt = Inr mt' \<and> queued content bs mt mt' \<and> ids_track v' mt' \<and>
    list_all2 (\<lambda>c b. check_ulog_data_begin b 0 = Inr (is_record c)) cs bs \<and>
    (\<forall>locs ps. stored_all locs bs \<longrightarrow> hears d v ps \<longrightarrow>
       (\<exists>ps'. foldE (parse_call (Suc d)) locs ps = Inr ps' \<and> hears d v' ps'))"
  using assms
proof (induction cs arbitrary: v mt)
  case Nil
  then show ?case by (intro exI [of _ mt] exI [of _ "[]"]) (auto simp: queued_refl elim: stored_all.elims)
next
  case (Cons c cs)
  then obtain u where u: "heard d c v u" "session d cs u v'" by auto
  then obtain b where b: "wire v c = Inr b" using heard_wire by blast
  obtain mt1 where mt1: "api_run Q c mt = Inr mt1" "queued content [b] mt mt1" "ids_track u mt1"
    using heard_queued [OF u(1) Cons.prems(2,3) b] by blast
  obtain mt' bs where mt': "foldE (api_run Q) cs mt1 = Inr mt'" "queued content bs mt1 mt'" "ids_track v' mt'"
    "list_all2 (\<lambda>c b. check_ulog_data_begin b 0 = Inr (is_record c)) cs bs"
    and rest: "\<And>locs ps. stored_all locs bs \<Longrightarrow> hears d u ps \<Longrightarrow>
       \<exists>ps'. foldE (parse_call (Suc d)) locs ps = Inr ps' \<and> hears d v' ps'"
    using Cons.IH [OF u(2) mt1(3)] Cons.prems(3) queued_enabled [OF mt1(2)] by blast
  have "\<exists>ps'. foldE (parse_call (Suc d)) locs ps = Inr ps' \<and> hears d v' ps'"
    if locs: "stored_all locs (b # bs)" and hears: "hears d v ps" for locs ps
  proof -
    obtain mem p ls where ls: "locs = (mem, p) # ls" "stored mem p b" "stored_all ls bs"
      using locs by (cases locs) auto
    obtain ps1 where "parse (Suc d) mem p ps = Inr (ps1, True)" "hears d u ps1"
      using heard_parsed_seq [OF u(1) b ls(2) hears] by blast
    with rest [OF ls(3)] show ?thesis by (simp add: ls(1) parse_call_def)
  qed
  then show ?case
    using mt1(1) mt' heard_wire_begin [OF u(1) b] queued_trans [OF mt1(2) mt'(2)]
    by (intro exI [of _ mt'] exI [of _ "b # bs"]) simp
qed

end

end
