(* ===== verification/Logger_Props.thy ===== *)
theory Logger_Props
  imports Logger
begin

text \<open>
  The pool of the logger: every buffer is current or free, the free ones are empty, sizes
  and flags agree with the contents (\<open>logger_ok\<close>); no byte is lost, doubled or reordered on
  its way from the queue through the current buffer to the file (\<open>log_stream\<close>).
\<close>

section \<open>Buffers\<close>

lemma buffer_data_concat [simp]: "buffer_data b = concat (buffer b)"
proof -
  have "foldl (\<lambda>r i. r @ buffer b ! i) [] [0..<n] = concat (take n (buffer b))"
    if "n \<le> length (buffer b)" for n
    using that by (induction n) (auto simp: take_Suc_conv_app_nth)
  from this [of "length (buffer b)"] show ?thesis by (simp add: buffer_data_def)
qed

definition buffer_ok :: "data_buffer \<Rightarrow> bool" where
  "buffer_ok b \<longleftrightarrow> data_size b = length (concat (buffer b)) \<and>
     (is_full b \<longleftrightarrow> max_data_size \<le> data_size b) \<and> data_size b < 2 * max_data_size"

lemma buffer_ok_new [simp]: "buffer_ok new_data_buffer"
  by (simp add: buffer_ok_def new_data_buffer_def max_data_size_def)

lemma buffer_ok_clear [simp]: "buffer_ok (buffer_clear b)" "data_size (buffer_clear b) = 0"
  by (simp_all add: buffer_ok_def buffer_clear_def max_data_size_def)

lemma buffer_add_fields [simp]:
  "buffer (snd (buffer_add t bs b)) = buffer b @ [bs]"
  "data_size (snd (buffer_add t bs b)) = data_size b + length bs"
  "is_full (snd (buffer_add t bs b)) = (is_full b \<or> max_data_size \<le> data_size b + length bs)"
  by (auto simp: buffer_add_def Let_def)

lemma buffer_ok_add:
  "buffer_ok b \<Longrightarrow> \<not> is_full b \<Longrightarrow> length bs \<le> max_data_size \<Longrightarrow> buffer_ok (snd (buffer_add t bs b))"
  by (auto simp: buffer_ok_def)

lemma buffer_ok_empty: "buffer_ok b \<Longrightarrow> data_size b = 0 \<Longrightarrow> concat (buffer b) = [] \<and> \<not> is_full b"
  by (auto simp: buffer_ok_def max_data_size_def)

section \<open>The pool\<close>

definition pool_ok :: "logger \<Rightarrow> nat \<Rightarrow> bool" where
  "pool_ok lg i \<longleftrightarrow> length (mem_pool lg) = 8 \<and> curr_idx lg = Some i \<and>
     distinct (i # pool_stack lg) \<and> set (i # pool_stack lg) = {..<8} \<and>
     (\<forall>b \<in> set (mem_pool lg). buffer_ok b) \<and>
     (\<forall>j \<in> set (pool_stack lg). data_size (mem_pool lg ! j) = 0)"

lemma pool_ok_index: "pool_ok lg i \<Longrightarrow> i < length (mem_pool lg) \<and> i < 8"
  by (auto simp: pool_ok_def)

lemma pool_ok_get [simp]: "pool_ok lg i \<Longrightarrow> pool_get lg i = Inr (mem_pool lg ! i)"
  by (simp add: pool_get_def pool_ok_index)

lemma pool_ok_buffer: "pool_ok lg i \<Longrightarrow> j < 8 \<Longrightarrow> buffer_ok (mem_pool lg ! j)"
  by (auto simp: pool_ok_def)

lemma pool_ok_new: "pool_ok new_logger 0"
proof -
  have "set (0 # rev [1..<8]) = {..<8 :: nat}" by (simp del: upt.simps upt_conv_Cons) auto
  moreover have "distinct (0 # rev [1..<8 :: nat])" by simp
  moreover have "\<forall>j \<in> set (rev [1..<8 :: nat]). data_size (replicate 8 new_data_buffer ! j) = 0"
    by (auto simp del: upt.simps simp: new_data_buffer_def)
  ultimately show ?thesis by (simp add: pool_ok_def new_logger_def del: upt.simps)
qed

lemma pool_ok_stack: "pool_ok lg i \<Longrightarrow> length (pool_stack lg) = 7"
proof -
  assume "pool_ok lg i"
  then have "card (set (i # pool_stack lg)) = 8" "distinct (i # pool_stack lg)"
    by (simp_all add: pool_ok_def)
  then show ?thesis using distinct_card by force
qed

lemma pool_ok_frame [simp]:
  "pool_ok (lg\<lparr>out := f\<rparr>) i = pool_ok lg i"
  "pool_ok (lg\<lparr>lg_queue := q\<rparr>) i = pool_ok lg i"
  "pool_ok (lg\<lparr>lg_running := r\<rparr>) i = pool_ok lg i"
  "pool_ok (lg\<lparr>lg_filename := n\<rparr>) i = pool_ok lg i"
  by (simp_all add: pool_ok_def)

lemma pool_ok_add:
  assumes ok: "pool_ok lg i" and "\<not> is_full (mem_pool lg ! i)" and "length bs \<le> max_data_size"
  shows "pool_ok (lg\<lparr>mem_pool := (mem_pool lg)[i := snd (buffer_add t bs (mem_pool lg ! i))]\<rparr>) i"
proof -
  have "buffer_ok (snd (buffer_add t bs (mem_pool lg ! i)))"
    using assms pool_ok_buffer [OF ok] pool_ok_index [OF ok] by (intro buffer_ok_add) auto
  moreover have "data_size ((mem_pool lg)[i := b] ! j) = 0" if "j \<in> set (pool_stack lg)" for j b
    using that ok by (cases "j = i") (auto simp: pool_ok_def)
  ultimately show ?thesis using ok
    by (auto simp: pool_ok_def dest!: set_update_subset_insert [THEN subsetD])
qed

text \<open>Swapping and recycling: the old buffer is written and goes on top of the stack.\<close>

definition swapped :: "logger \<Rightarrow> nat \<Rightarrow> nat \<Rightarrow> logger" where
  "swapped lg i j =
     lg\<lparr>curr_idx := Some j, pool_stack := i # tl (pool_stack lg),
        mem_pool := (mem_pool lg)[i := buffer_clear (mem_pool lg ! i)]\<rparr>"

lemma pool_ok_swapped:
  assumes ok: "pool_ok lg i" and j: "pool_stack lg = j # rest"
  shows "pool_ok (swapped lg i j) j"
proof -
  have "set (j # i # rest) = {..<8}" "distinct (j # i # rest)"
    using ok j by (auto simp: pool_ok_def)
  moreover have "data_size ((mem_pool lg)[i := buffer_clear (mem_pool lg ! i)] ! k) = 0"
    if "k \<in> set (i # rest)" for k
    using that ok j pool_ok_index [OF ok] by (cases "k = i") (auto simp: pool_ok_def)
  moreover have "\<forall>b \<in> set ((mem_pool lg)[i := buffer_clear (mem_pool lg ! i)]). buffer_ok b"
    using ok by (auto simp: pool_ok_def dest!: set_update_subset_insert [THEN subsetD])
  ultimately show ?thesis
    using ok j by (auto simp: pool_ok_def swapped_def)
qed

lemma swap_current_ok:
  assumes ok: "pool_ok lg i"
  obtains j rest where "pool_stack lg = j # rest"
    and "swap_current True i lg = Inr (Some (lg\<lparr>curr_idx := Some j, pool_stack := rest\<rparr>))"
    and "swap_current False i lg = Inr None"
proof -
  from pool_ok_stack [OF ok] obtain j rest where st: "pool_stack lg = j # rest"
    by (cases "pool_stack lg") auto
  with ok have "j < 8" "length (mem_pool lg) = 8" "data_size (mem_pool lg ! j) = 0" "curr_idx lg = Some i"
    by (auto simp: pool_ok_def)
  with st show thesis
    by (intro that [OF st]) (simp_all add: swap_current_def Let_def pool_get_def)
qed

section \<open>Writing a buffer\<close>

lemma file_write_all:
  "f_open f \<Longrightarrow> \<not> f_bad f \<Longrightarrow> file_write None bs f = f\<lparr>f_bytes := f_bytes f @ bs\<rparr>"
  by (cases f) (simp add: file_write_def)

lemma start_io_worker_write:
  assumes "i < length (mem_pool lg)" and "f_open (out lg)" and "\<not> f_bad (out lg)" and "device io = None"
  shows "start_io_worker io i do_flush lg =
    (let lg' = lg\<lparr>mem_pool := (mem_pool lg)[i := buffer_clear (mem_pool lg ! i)],
                 pool_stack := i # pool_stack lg,
                 out := (out lg)\<lparr>f_bytes := f_bytes (out lg) @ concat (buffer (mem_pool lg ! i))\<rparr>\<rparr> in
     Inr (if do_flush then flush_file (flushes io) lg' else lg'))"
  using assms
  by (cases lg)
    (auto simp: start_io_worker.simps pool_get_def write_file_def file_write_all Let_def)

lemma start_io_worker_fail:
  assumes "i < length (mem_pool lg)" and "f_open (out lg)" and "concat (buffer (mem_pool lg ! i)) \<noteq> []"
    and "device io = Some n \<or> f_bad (out lg)"
  obtains lg' where "start_io_worker io i do_flush lg = Inr lg'" and "lg_queue lg' = None"
    and "\<not> f_open (out lg')" and "curr_idx lg' = curr_idx lg" and "lg_running lg' = lg_running lg"
  using assms
  by (cases "f_bad (out lg)")
    (auto simp: start_io_worker.simps release.simps pool_get_def write_file_def file_write_def Let_def
      file_close_def simp del: concat_eq_Nil_conv)

section \<open>Conservation\<close>

definition pending :: "logger \<Rightarrow> byte list" where
  "pending lg = (case curr_idx lg of None \<Rightarrow> [] | Some i \<Rightarrow> concat (buffer (mem_pool lg ! i)))"

definition log_stream :: "logger \<Rightarrow> byte list list \<Rightarrow> byte list" where
  "log_stream lg qs = f_bytes (out lg) @ pending lg @ concat qs"

text \<open>A logger that is set up and has met no error.\<close>

definition logger_ok :: "logger \<Rightarrow> bool" where
  "logger_ok lg \<longleftrightarrow> (\<exists>i. pool_ok lg i) \<and> lg_queue lg \<noteq> None \<and> f_open (out lg) \<and> \<not> f_bad (out lg)"

definition tick_ok :: "tick \<Rightarrow> bool" where
  "tick_ok t \<longleftrightarrow> device (io_out t) = None \<and> flushes (io_out t) \<and>
     (\<forall>bs \<in> set (arrived t). length bs \<le> max_data_size)"

lemma pending_curr [simp]: "curr_idx lg = Some i \<Longrightarrow> pending lg = concat (buffer (mem_pool lg ! i))"
  by (simp add: pending_def)

lemma pool_ok_curr: "pool_ok lg i \<Longrightarrow> curr_idx lg = Some i"
  by (simp add: pool_ok_def)

text \<open>The swap and the write behind it, without an error.\<close>

lemma swap_and_write:
  assumes ok: "pool_ok lg i" and fl: "f_open (out lg)" "\<not> f_bad (out lg)"
    and io: "device io = None" "flushes io"
  obtains j lg1 lg2 where "swap_current True i lg = Inr (Some lg1)"
    and "start_io_worker io i do_flush lg1 = Inr lg2" and "pool_ok lg2 j" and "lg_queue lg2 = lg_queue lg"
    and "lg_running lg2 = lg_running lg"
    and "f_open (out lg2)" and "\<not> f_bad (out lg2)" and "\<not> is_full (mem_pool lg2 ! j)"
    and "f_bytes (out lg2) = f_bytes (out lg) @ pending lg" and "pending lg2 = []"
    and "do_flush \<Longrightarrow> f_flushed (out lg2) = length (f_bytes (out lg2))"
proof -
  obtain j rest where st: "pool_stack lg = j # rest"
    and sw: "swap_current True i lg = Inr (Some (lg\<lparr>curr_idx := Some j, pool_stack := rest\<rparr>))"
    using swap_current_ok [OF ok] by metis
  define lg1 where "lg1 = lg\<lparr>curr_idx := Some j, pool_stack := rest\<rparr>"
  define lg2 where "lg2 = (swapped lg i j)
    \<lparr>out := (out lg)\<lparr>f_bytes := f_bytes (out lg) @ pending lg,
       f_flushed := (if do_flush then length (f_bytes (out lg) @ pending lg) else f_flushed (out lg))\<rparr>\<rparr>"
  have idx: "i < length (mem_pool lg)" using pool_ok_index [OF ok] by simp
  have "start_io_worker io i do_flush lg1 = Inr lg2"
    using start_io_worker_write [of i lg1 io do_flush] idx fl io st pool_ok_curr [OF ok]
    by (cases lg) (auto simp: lg1_def lg2_def swapped_def flush_file_def Let_def)
  moreover have pool: "pool_ok lg2 j" unfolding lg2_def using pool_ok_swapped [OF ok st] by simp
  moreover have "data_size (mem_pool lg2 ! j) = 0"
    using ok st by (auto simp: lg2_def swapped_def pool_ok_def nth_list_update)
  then have "concat (buffer (mem_pool lg2 ! j)) = []" "\<not> is_full (mem_pool lg2 ! j)"
    using pool_ok_buffer [OF pool] pool_ok_index [OF pool] buffer_ok_empty by blast+
  moreover have "pending lg2 = []"
    using \<open>concat (buffer (mem_pool lg2 ! j)) = []\<close> pool_ok_curr [OF pool] by simp
  ultimately show thesis
    using sw fl by (intro that [of lg1 lg2 j]) (auto simp: lg1_def lg2_def swapped_def)
qed

definition arrivals :: "tick list \<Rightarrow> byte list list" where
  "arrivals ts = concat (map arrived ts)"

context conc_queue
begin

lemma take_one_ok:
  assumes ok: "pool_ok lg i" and room: "\<not> is_full (mem_pool lg ! i)" and queue: "lg_queue lg \<noteq> None"
    and small: "\<forall>bs \<in> set (content q). length bs \<le> max_data_size" and ne: "\<not> cq_empty Q q"
  obtains lg' q' bs where "take_one Q t i lg q = Inr (Again, lg', q')" and "pool_ok lg' i"
    and "lg_queue lg' = lg_queue lg" and "out lg' = out lg" and "lg_running lg' = lg_running lg"
    and "content q = bs # content q'" and "pending lg' = pending lg @ bs"
proof -
  obtain bs q' where c: "content q = bs # content q'" and dq: "cq_dequeue Q q = (Some bs, q')"
    using dequeue_cases [OF ne] by metis
  with small have bs: "length bs \<le> max_data_size" by simp
  let ?lg = "lg\<lparr>mem_pool := (mem_pool lg)[i := snd (buffer_add (t_now t) bs (mem_pool lg ! i))]\<rparr>"
  have "take_one Q t i lg q = Inr (Again, ?lg, q')"
    using queue dq bs ok by (auto simp: take_one_def)
  moreover have "pool_ok ?lg i" using ok room bs by (rule pool_ok_add)
  moreover have "pending ?lg = pending lg @ bs"
    using pool_ok_curr [OF ok] pool_ok_index [OF ok] by simp
  ultimately show thesis using c by (intro that) auto
qed

text \<open>One iteration: it never fails, and the stream of bytes is what it was.\<close>

lemma loop_body_ok:
  assumes ok: "logger_ok lg" and t: "tick_ok t"
    and small: "\<forall>bs \<in> set (content q). length bs \<le> max_data_size"
  obtains e lg' q' where "loop_body Q t lg q = Inr (e, lg', q')" and "logger_ok lg'"
    and "lg_running lg' = lg_running lg"
    and "\<forall>bs \<in> set (content q'). length bs \<le> max_data_size"
    and "log_stream lg' (content q') = log_stream lg (content q @ arrived t)"
    and "e = Drained \<Longrightarrow> content q' = []"
    and "locks t \<Longrightarrow> cas_ok t \<Longrightarrow> e = Drained \<or> (e = Again \<and> Suc (length (content q')) = length (content q @ arrived t))"
proof -
  let ?q = "fold (cq_enqueue Q) (arrived t) q"
  have cq: "content ?q = content q @ arrived t" by (rule enqueue_all)
  have small': "\<forall>bs \<in> set (content ?q). length bs \<le> max_data_size"
    using small t by (auto simp: cq tick_ok_def)
  obtain i where pool: "pool_ok lg i" and fl: "f_open (out lg)" "\<not> f_bad (out lg)" "lg_queue lg \<noteq> None"
    using ok by (auto simp: logger_ok_def)
  have body: "loop_body Q t lg q =
      (if cq_empty Q ?q then Inr (Drained, lg, ?q)
       else if is_full (mem_pool lg ! i) then
         (if \<not> locks t then Inr (Again, lg, ?q)
          else
            bindE (swap_current (cas_ok t) i lg) (\<lambda>r.
            case r of
              None \<Rightarrow> Inr (Return, lg, ?q)
            | Some lg \<Rightarrow>
                bindE (start_io_worker (io_out t) i False lg) (\<lambda>lg.
                bindE (deref (curr_idx lg)) (\<lambda>io_idx. take_one Q t io_idx lg ?q))))
       else take_one Q t i lg ?q)"
    using fl pool pool_ok_curr [OF pool] by (auto simp: loop_body_def Let_def)
  consider (drained) "cq_empty Q ?q"
    | (busy) "\<not> cq_empty Q ?q" "is_full (mem_pool lg ! i)" "\<not> locks t"
    | (lost) "\<not> cq_empty Q ?q" "is_full (mem_pool lg ! i)" "locks t" "\<not> cas_ok t"
    | (swap) "\<not> cq_empty Q ?q" "is_full (mem_pool lg ! i)" "locks t" "cas_ok t"
    | (room) "\<not> cq_empty Q ?q" "\<not> is_full (mem_pool lg ! i)"
    by blast
  then show thesis
  proof cases
    case drained
    then have "loop_body Q t lg q = Inr (Drained, lg, ?q)" by (simp add: body)
    with drained ok small' cq show thesis by (intro that [of Drained lg ?q]) (auto simp: empty_iff)
  next
    case busy
    then have "loop_body Q t lg q = Inr (Again, lg, ?q)" by (simp add: body)
    with busy ok small' cq show thesis by (intro that [of Again lg ?q]) auto
  next
    case lost
    obtain j rest where "swap_current False i lg = Inr None" using swap_current_ok [OF pool] by metis
    with lost have "loop_body Q t lg q = Inr (Return, lg, ?q)" by (simp add: body)
    with lost ok small' cq show thesis by (intro that [of Return lg ?q]) auto
  next
    case swap
    have io: "device (io_out t) = None" "flushes (io_out t)" using t by (simp_all add: tick_ok_def)
    obtain j lg1 lg2 where sw: "swap_current True i lg = Inr (Some lg1)"
      "start_io_worker (io_out t) i False lg1 = Inr lg2" and p2: "pool_ok lg2 j"
      and lg2: "lg_queue lg2 = lg_queue lg" "lg_running lg2 = lg_running lg" "f_open (out lg2)"
        "\<not> f_bad (out lg2)" "\<not> is_full (mem_pool lg2 ! j)"
        "f_bytes (out lg2) = f_bytes (out lg) @ pending lg" "pending lg2 = []"
      using swap_and_write [OF pool fl(1,2) io, of False] by metis
    have queue2: "lg_queue lg2 \<noteq> None" using lg2(1) fl(3) by simp
    obtain lg' q' bs where one: "take_one Q t j lg2 ?q = Inr (Again, lg', q')" "pool_ok lg' j"
      "lg_queue lg' = lg_queue lg2" "out lg' = out lg2" "lg_running lg' = lg_running lg2"
      "content ?q = bs # content q'" "pending lg' = pending lg2 @ bs"
      using take_one_ok [OF p2 lg2(5) queue2 small' swap(1)] by metis
    have body': "loop_body Q t lg q = Inr (Again, lg', q')"
      using swap sw one(1) pool_ok_curr [OF p2] by (simp add: body)
    show thesis
    proof (rule that [OF body'])
      show "logger_ok lg'" using one(2-4) lg2(3,4) queue2 by (auto simp: logger_ok_def)
      show "log_stream lg' (content q') = log_stream lg (content q @ arrived t)"
        unfolding cq [symmetric] one(6) by (simp add: log_stream_def one(4,7) lg2(6,7))
    qed (use one lg2 small' cq in auto)
  next
    case room
    obtain lg' q' bs where one: "take_one Q t i lg ?q = Inr (Again, lg', q')" "pool_ok lg' i"
      "lg_queue lg' = lg_queue lg" "out lg' = out lg" "lg_running lg' = lg_running lg"
      "content ?q = bs # content q'" "pending lg' = pending lg @ bs"
      using take_one_ok [OF pool room(2) fl(3) small' room(1)] by metis
    have body': "loop_body Q t lg q = Inr (Again, lg', q')"
      using room one(1) by (simp add: body)
    show thesis
    proof (rule that [OF body'])
      show "logger_ok lg'" using one(2-4) fl by (auto simp: logger_ok_def)
      show "log_stream lg' (content q') = log_stream lg (content q @ arrived t)"
        unfolding cq [symmetric] one(6) by (simp add: log_stream_def one(4,7))
    qed (use one small' cq in auto)
  qed
qed

text \<open>
  The loop: it stops after some of the ticks, with the stream extended by what arrived in
  them; with the lock and the exchange always won it drains the queue, if it is given one
  iteration more than there are messages.
\<close>

lemma drain_ok:
  assumes "logger_ok lg" and "\<forall>t \<in> set ts. tick_ok t"
    and "\<forall>bs \<in> set (content q). length bs \<le> max_data_size"
  obtains e lg' q' k where "drain Q ts lg q = Inr (e, lg', q')" and "logger_ok lg'"
    and "lg_running lg' = lg_running lg" and "k \<le> length ts"
    and "\<forall>bs \<in> set (content q'). length bs \<le> max_data_size"
    and "log_stream lg' (content q') = log_stream lg (content q @ arrivals (take k ts))"
    and "e = Drained \<Longrightarrow> content q' = []"
    and "\<forall>t \<in> set ts. locks t \<and> cas_ok t \<Longrightarrow>
         length (content q @ arrivals ts) < length ts \<Longrightarrow> e = Drained"
  using assms
proof (induction ts arbitrary: lg q thesis)
  case Nil
  then show thesis by (intro Nil.prems(1) [of Again lg q 0]) (auto simp: arrivals_def)
next
  case (Cons t ts)
  have t: "tick_ok t" and ts: "\<forall>t \<in> set ts. tick_ok t" using Cons.prems(3) by simp_all
  obtain e lg1 q1 where b: "loop_body Q t lg q = Inr (e, lg1, q1)" "logger_ok lg1"
    "lg_running lg1 = lg_running lg" "\<forall>bs \<in> set (content q1). length bs \<le> max_data_size"
    "log_stream lg1 (content q1) = log_stream lg (content q @ arrived t)"
    "e = Drained \<Longrightarrow> content q1 = []"
    "locks t \<Longrightarrow> cas_ok t \<Longrightarrow> e = Drained \<or> (e = Again \<and> Suc (length (content q1)) = length (content q @ arrived t))"
    using loop_body_ok [OF Cons.prems(2) t Cons.prems(4)] by metis
  show thesis
  proof (cases "e = Again")
    case False
    show thesis
    proof (rule Cons.prems(1) [of e lg1 q1 1])
      show "drain Q (t # ts) lg q = Inr (e, lg1, q1)" using False b(1) by simp
      show "log_stream lg1 (content q1) = log_stream lg (content q @ arrivals (take 1 (t # ts)))"
        using b(5) by (simp add: arrivals_def)
    qed (use b False in auto)
  next
    case True
    obtain e' lg2 q2 k where r: "drain Q ts lg1 q1 = Inr (e', lg2, q2)" "logger_ok lg2"
      "lg_running lg2 = lg_running lg1" "k \<le> length ts"
      "\<forall>bs \<in> set (content q2). length bs \<le> max_data_size"
      "log_stream lg2 (content q2) = log_stream lg1 (content q1 @ arrivals (take k ts))"
      "e' = Drained \<Longrightarrow> content q2 = []"
      "\<forall>t \<in> set ts. locks t \<and> cas_ok t \<Longrightarrow> length (content q1 @ arrivals ts) < length ts \<Longrightarrow> e' = Drained"
      using Cons.IH [OF _ b(2) ts b(4)] by metis
    show thesis
    proof (rule Cons.prems(1) [of e' lg2 q2 "Suc k"])
      show "drain Q (t # ts) lg q = Inr (e', lg2, q2)" using True b(1) r(1) by simp
      show "log_stream lg2 (content q2) = log_stream lg (content q @ arrivals (take (Suc k) (t # ts)))"
        using r(6) b(5) by (simp add: arrivals_def log_stream_def)
      show "e' = Drained" if "\<forall>t \<in> set (t # ts). locks t \<and> cas_ok t"
        "length (content q @ arrivals (t # ts)) < length (t # ts)"
        using that b(7) True by (intro r(8)) (auto simp: arrivals_def)
    qed (use b r in auto)
  qed
qed

lemma loop_body_write_error:
  assumes pool: "pool_ok lg i" and st: "lg_queue lg \<noteq> None" "f_open (out lg)"
    and full: "is_full (mem_pool lg ! i)" and ne: "content q @ arrived t \<noteq> []"
    and "locks t" and "cas_ok t" and err: "device (io_out t) = Some n"
  shows "loop_body Q t lg q = Inl Undefined"
proof -
  let ?q = "fold (cq_enqueue Q) (arrived t) q"
  obtain j rest where sw: "swap_current True i lg = Inr (Some (lg\<lparr>curr_idx := Some j, pool_stack := rest\<rparr>))"
    and pst: "pool_stack lg = j # rest" using swap_current_ok [OF pool] by metis
  let ?lg1 = "lg\<lparr>curr_idx := Some j, pool_stack := rest\<rparr>"
  have "concat (buffer (mem_pool lg ! i)) \<noteq> []"
    using full pool_ok_buffer [OF pool] pool_ok_index [OF pool]
    by (auto simp: buffer_ok_def max_data_size_def simp del: concat_eq_Nil_conv length_concat)
  then obtain lg2 where lg2: "start_io_worker (io_out t) i False ?lg1 = Inr lg2" "lg_queue lg2 = None"
    "curr_idx lg2 = Some j"
    using start_io_worker_fail [of i ?lg1 "io_out t" n False] st err pool_ok_index [OF pool] by auto
  have "\<not> cq_empty Q ?q" using ne by (simp add: empty_iff enqueue_all)
  then show ?thesis
    using assms sw lg2 pool_ok_curr [OF pool] by (auto simp: loop_body_def Let_def take_one_def)
qed

end

lemma write_old_ok:
  assumes ok: "logger_ok lg" and t: "tick_ok t"
  obtains lg' where "write_old t lg = Inr lg'" and "logger_ok lg'" and "lg_running lg' = lg_running lg"
    and "log_stream lg' qs = log_stream lg qs"
    and "locks t \<Longrightarrow> cas_ok t \<Longrightarrow> \<exists>i. curr_idx lg = Some i \<and> can_start_io (t_now t) (mem_pool lg ! i) \<Longrightarrow>
         pending lg' = [] \<and> f_flushed (out lg') = length (f_bytes (out lg'))"
proof -
  obtain i where pool: "pool_ok lg i" and fl: "f_open (out lg)" "\<not> f_bad (out lg)" "lg_queue lg \<noteq> None"
    using ok by (auto simp: logger_ok_def)
  have io: "device (io_out t) = None" "flushes (io_out t)" using t by (simp_all add: tick_ok_def)
  note curr = pool_ok_curr [OF pool]
  have body: "write_old t lg =
     (if can_start_io (t_now t) (mem_pool lg ! i) then
       if \<not> locks t then Inr lg
       else
         bindE (swap_current (cas_ok t) i lg) (\<lambda>r.
         case r of
           None \<Rightarrow> Inr lg
         | Some lg \<Rightarrow> start_io_worker (io_out t) i True lg)
     else Inr lg)"
    using pool curr by (simp add: write_old_def)
  show thesis
  proof (cases "can_start_io (t_now t) (mem_pool lg ! i) \<and> locks t \<and> cas_ok t")
    case False
    obtain j rest where "swap_current False i lg = Inr None" using swap_current_ok [OF pool] by metis
    with False have "write_old t lg = Inr lg" by (cases "cas_ok t") (auto simp: body)
    with ok False curr show thesis by (intro that [of lg]) auto
  next
    case True
    obtain j lg1 lg2 where sw: "swap_current True i lg = Inr (Some lg1)"
      "start_io_worker (io_out t) i True lg1 = Inr lg2" and p2: "pool_ok lg2 j"
      and lg2: "lg_queue lg2 = lg_queue lg" "lg_running lg2 = lg_running lg" "f_open (out lg2)"
        "\<not> f_bad (out lg2)" "f_bytes (out lg2) = f_bytes (out lg) @ pending lg" "pending lg2 = []"
        "f_flushed (out lg2) = length (f_bytes (out lg2))"
      using swap_and_write [OF pool fl(1,2) io, of True] by metis
    have "write_old t lg = Inr lg2" using True sw by (simp add: body)
    moreover have "logger_ok lg2" using p2 lg2 fl(3) by (auto simp: logger_ok_def)
    ultimately show thesis using lg2 by (intro that [of lg2]) (auto simp: log_stream_def)
  qed
qed

context conc_queue
begin

lemma main_loop_ok:
  assumes ok: "logger_ok lg" and ts: "\<forall>t \<in> set ts. tick_ok t" and t: "tick_ok t"
    and small: "\<forall>bs \<in> set (content q). length bs \<le> max_data_size"
  obtains e lg' q' k where "main_loop Q ts t lg q = Inr (e, lg', q')" and "logger_ok lg'"
    and "k \<le> length ts" and "lg_running lg' = lg_running lg"
    and "log_stream lg' (content q') = log_stream lg (content q @ arrivals (take k ts))"
    and "lg_running lg \<Longrightarrow> \<forall>t \<in> set ts. locks t \<and> cas_ok t \<Longrightarrow>
         length (content q @ arrivals ts) < length ts \<Longrightarrow> e = Return \<and> content q' = []"
proof (cases "lg_running lg")
  case False
  then have "main_loop Q ts t lg q = Inr (Return, lg, q)" by (simp add: main_loop_def)
  with ok False show thesis by (intro that [of Return lg q 0]) (auto simp: arrivals_def)
next
  case True
  obtain e lg1 q1 k where d: "drain Q ts lg q = Inr (e, lg1, q1)" "logger_ok lg1"
    "lg_running lg1 = lg_running lg" "k \<le> length ts"
    "log_stream lg1 (content q1) = log_stream lg (content q @ arrivals (take k ts))"
    "e = Drained \<Longrightarrow> content q1 = []"
    "\<forall>t \<in> set ts. locks t \<and> cas_ok t \<Longrightarrow> length (content q @ arrivals ts) < length ts \<Longrightarrow> e = Drained"
    using drain_ok [OF ok ts small] by metis
  show thesis
  proof (cases "e = Drained")
    case False
    with d True show thesis by (intro that [of e lg1 q1 k]) (auto simp: main_loop_def)
  next
    case drained: True
    obtain lg2 where w: "write_old t lg1 = Inr lg2" "logger_ok lg2" "lg_running lg2 = lg_running lg1"
      "log_stream lg2 (content q1) = log_stream lg1 (content q1)"
      using write_old_ok [OF d(2) t] by metis
    with d True drained show thesis by (intro that [of Return lg2 q1 k]) (auto simp: main_loop_def)
  qed
qed

end

section \<open>After an error, and at the end\<close>

lemma main_loop_released:
  "lg_running lg \<Longrightarrow> lg_queue lg = None \<Longrightarrow> main_loop Q (t # ts) t' lg q = Inl Undefined"
  by (simp add: main_loop_def loop_body_def Let_def)

lemma write_old_error:
  assumes pool: "pool_ok lg i" and st: "f_open (out lg)"
    and old: "can_start_io (t_now t) (mem_pool lg ! i)"
    and "locks t" and "cas_ok t" and err: "device (io_out t) = Some n"
  obtains lg' where "write_old t lg = Inr lg'" and "lg_queue lg' = None" and "lg_running lg' = lg_running lg"
proof -
  obtain j rest where sw: "swap_current True i lg = Inr (Some (lg\<lparr>curr_idx := Some j, pool_stack := rest\<rparr>))"
    using swap_current_ok [OF pool] by metis
  let ?lg1 = "lg\<lparr>curr_idx := Some j, pool_stack := rest\<rparr>"
  have "concat (buffer (mem_pool lg ! i)) \<noteq> []"
    using old pool_ok_buffer [OF pool] pool_ok_index [OF pool]
    by (auto simp: buffer_ok_def can_start_io_def has_data_def simp del: concat_eq_Nil_conv length_concat)
  then obtain lg2 where lg2: "start_io_worker (io_out t) i True ?lg1 = Inr lg2" "lg_queue lg2 = None"
    "lg_running lg2 = lg_running lg"
    using start_io_worker_fail [of i ?lg1 "io_out t" n True] st err pool_ok_index [OF pool] by auto
  with assms sw pool_ok_curr [OF pool] show thesis by (intro that [of lg2]) (auto simp: write_old_def)
qed

lemma destroy_ok:
  assumes ok: "logger_ok lg" and io: "device io = None"
  obtains lg' where "destroy io lg = Inr lg'" and "f_bytes (out lg') = f_bytes (out lg) @ pending lg"
    and "\<not> f_open (out lg')" and "lg_queue lg' = None" and "\<not> lg_running lg'"
    and "flushes io \<Longrightarrow> f_flushed (out lg') = length (f_bytes (out lg'))"
proof -
  obtain i where pool: "pool_ok lg i" and fl: "f_open (out lg)" "\<not> f_bad (out lg)"
    using ok by (auto simp: logger_ok_def)
  note curr = pool_ok_curr [OF pool] and idx = pool_ok_index [OF pool]
  let ?lg = "stop_logger lg"
  have st: "f_open (out ?lg)" "\<not> f_bad (out ?lg)" "curr_idx ?lg = Some i" "mem_pool ?lg = mem_pool lg"
    "out ?lg = out lg" "pool_get ?lg i = Inr (mem_pool lg ! i)" "\<not> lg_running ?lg"
    using fl curr idx by (auto simp: stop_logger_def pool_get_def)
  show thesis
  proof (cases "has_data (mem_pool lg ! i)")
    case True
    with st idx io have "\<exists>lg'. destroy io lg = Inr lg' \<and> f_bytes (out lg') = f_bytes (out lg) @ pending lg \<and>
        \<not> f_open (out lg') \<and> lg_queue lg' = None \<and> \<not> lg_running lg' \<and>
        (flushes io \<longrightarrow> f_flushed (out lg') = length (f_bytes (out lg')))"
      by (auto simp: destroy_def release.simps start_io_worker_write Let_def flush_file_def file_close_def
          curr stop_logger_def)
    then show thesis by (auto intro: that)
  next
    case False
    then have "data_size (mem_pool lg ! i) = 0" by (simp add: has_data_def)
    then have empty: "concat (buffer (mem_pool lg ! i)) = []"
      using pool_ok_buffer [OF pool] idx buffer_ok_empty by blast
    with False st have "\<exists>lg'. destroy io lg = Inr lg' \<and> f_bytes (out lg') = f_bytes (out lg) @ pending lg \<and>
        \<not> f_open (out lg') \<and> lg_queue lg' = None \<and> \<not> lg_running lg' \<and>
        (flushes io \<longrightarrow> f_flushed (out lg') = length (f_bytes (out lg')))"
      by (auto simp: destroy_def release.simps Let_def file_close_def curr)
    then show thesis by (auto intro: that)
  qed
qed

end
