(* ===== verification/Streamer_System.thy ===== *)
theory Streamer_System
  imports Streamer
begin

text \<open>
  The streamer with its threads: one record holds the object, the network queue and where
  each thread is, one event is an uninterrupted piece of one of them, and a run is any
  sequence of events. The definitions reach the ground station in order, each at least
  once, on every run that does not abort; runs whose handlers and loop turns are not cut in
  two do not abort.
\<close>

section \<open>Threads\<close>

record 'q sys =
  strm :: streamer
  net :: 'q
  sync_at :: sync_pc
  sync_loaded :: "streamer_state option"
  main_loaded :: "streamer_state option"
  acks :: "(16 word \<times> streamer_state) list"
  cmds :: "(command_long \<times> sparse_address \<times> streamer_state \<times> streamer_state) list"

datatype event =
  Enqueue "byte list" | Sync_Load | Sync_Act | Discard | Main_Begin | Main_One "nat \<Rightarrow> byte" | Post
| Ack_Load "16 word" | Ack_Commit | Cmd_Load command_long sparse_address | Cmd_Commit

text \<open>The sync thread: a turn of the first loop, or the two halves of a turn of the second.\<close>

definition sync_load :: "'q cq_ops \<Rightarrow> 'q sys \<Rightarrow> 'q sys res" where
  "sync_load Q s =
     (case sync_at s of
        Collecting \<Rightarrow>
          bindE (collect_step Q (strm s) (net s)) (\<lambda>(pc, st, q).
          Inr (s\<lparr>strm := st, net := q, sync_at := pc\<rparr>))
      | Sending \<Rightarrow>
          Inr (if sync_loaded s = None then s\<lparr>sync_loaded := Some (st_state (strm s))\<rparr> else s)
      | Synced \<Rightarrow> Inr s)"

definition sync_commit :: "nat \<Rightarrow> 'q sys \<Rightarrow> 'q sys res" where
  "sync_commit fld s =
     (case sync_loaded s of
        None \<Rightarrow> Inr s
      | Some state \<Rightarrow>
          if seq_no (strm s) < length (definitions (strm s)) then
            bindE (sync_act fld state (strm s)) (\<lambda>st. Inr (s\<lparr>strm := st, sync_loaded := None\<rparr>))
          else
            Inr (s\<lparr>strm := (snd (set_state state STATE_RUNNING (strm s)))\<lparr>st_running := True\<rparr>,
                   sync_loaded := None, sync_at := Synced\<rparr>))"

definition main_begin :: "'q sys \<Rightarrow> 'q sys res" where
  "main_begin s =
     (if \<not> st_running (strm s) \<or> main_loaded s \<noteq> None then Inr s
      else
        let state = st_state (strm s) in
        bindE (assertE (state = STATE_RUNNING \<or> state = STATE_STOPPED)) (\<lambda>_.
        Inr (s\<lparr>main_loaded := Some state\<rparr>)))"

definition main_one :: "'q cq_ops \<Rightarrow> nat \<Rightarrow> (nat \<Rightarrow> byte) \<Rightarrow> 'q sys \<Rightarrow> 'q sys res" where
  "main_one Q fld junk s =
     (case main_loaded s of
        None \<Rightarrow> Inr s
      | Some state \<Rightarrow>
          bindE (deref (st_queue (strm s))) (\<lambda>_.
          if cq_empty Q (net s) then Inr (s\<lparr>main_loaded := None\<rparr>)
          else
            bindE (stream_one Q fld state junk (strm s) (net s)) (\<lambda>(st, q).
            Inr (s\<lparr>strm := st, net := q\<rparr>))))"

definition cmd_load :: "command_long \<Rightarrow> sparse_address \<Rightarrow> 'q sys \<Rightarrow> 'q sys" where
  "cmd_load lc sa s =
     (if lc_command lc \<noteq> LOGGING_START \<and> lc_command lc \<noteq> LOGGING_STOP then s
      else
        let state = st_state (strm s) in
        case decide_command lc sa state (strm s) of
          (new_state, st) \<Rightarrow> s\<lparr>strm := st, cmds := cmds s @ [(lc, sa, state, new_state)]\<rparr>)"

definition sys_step :: "'q cq_ops \<Rightarrow> nat \<Rightarrow> event \<Rightarrow> 'q sys \<Rightarrow> 'q sys res" where
  "sys_step Q fld ev s =
     (case ev of
        Enqueue bs \<Rightarrow> Inr (s\<lparr>net := cq_enqueue Q bs (net s)\<rparr>)
      | Sync_Load \<Rightarrow> sync_load Q s
      | Sync_Act \<Rightarrow> sync_commit fld s
      | Discard \<Rightarrow> bindE (discard_step Q (strm s) (net s)) (\<lambda>(st, q). Inr (s\<lparr>strm := st, net := q\<rparr>))
      | Main_Begin \<Rightarrow> main_begin s
      | Main_One junk \<Rightarrow> main_one Q fld junk s
      | Post \<Rightarrow> bindE (run_posted (strm s)) (\<lambda>st. Inr (s\<lparr>strm := st\<rparr>))
      | Ack_Load sq \<Rightarrow> Inr (s\<lparr>acks := acks s @ [(sq, st_state (strm s))]\<rparr>)
      | Ack_Commit \<Rightarrow>
          (case acks s of
             [] \<Rightarrow> Inr s
           | (sq, state) # rest \<Rightarrow>
               bindE (commit_ack sq state (strm s)) (\<lambda>st. Inr (s\<lparr>strm := st, acks := rest\<rparr>)))
      | Cmd_Load lc sa \<Rightarrow> Inr (cmd_load lc sa s)
      | Cmd_Commit \<Rightarrow>
          (case cmds s of
             [] \<Rightarrow> Inr s
           | (lc, sa, state, new_state) # rest \<Rightarrow>
               bindE (commit_command lc sa state new_state (strm s)) (\<lambda>st.
               Inr (s\<lparr>strm := st, cmds := rest\<rparr>))))"

text \<open>The streamer right after \<open>init\<close> and \<open>run\<close>.\<close>

definition new_sys :: "'q \<Rightarrow> 'q sys" where
  "new_sys q = \<lparr>strm = new_streamer\<lparr>st_roster := True, st_queue := Some Net_Queue\<rparr>, net = q,
     sync_at = Collecting, sync_loaded = None, main_loaded = None, acks = [], cmds = []\<rparr>"

section \<open>What was sent\<close>

fun acked_send :: "mav_msg \<times> 'a \<Rightarrow> (16 word \<times> byte list) list" where
  "acked_send (Logging_Data_Acked ts tc sq len first dt, _) = [(sq, dt)]"
| "acked_send _ = []"

definition sent_definitions :: "streamer \<Rightarrow> (16 word \<times> byte list) list" where
  "sent_definitions st = concat (map acked_send (sent st))"

text \<open>\<open>n\<close> definitions were sent in order, each one or more times in a row.\<close>

definition sent_upto :: "nat \<Rightarrow> streamer \<Rightarrow> bool" where
  "sent_upto n st \<longleftrightarrow> n \<le> length (definitions st) \<and>
     (\<exists>ks. sent_definitions st = map (\<lambda>k. (word_of_nat k, definitions st ! k)) ks \<and>
           remdups_adj ks = [0..<n])"

lemma remdups_adj_snoc:
  "remdups_adj (xs @ [x]) = (if xs \<noteq> [] \<and> last xs = x then remdups_adj xs else remdups_adj xs @ [x])"
  by (cases xs rule: rev_cases) (auto simp: remdups_adj_append_two)

lemma remdups_adj_upt_snoc:
  assumes "remdups_adj ks = [0..<m]"
  shows "m = Suc n \<Longrightarrow> remdups_adj (ks @ [n]) = [0..<Suc n]"
    and "m = n \<Longrightarrow> remdups_adj (ks @ [n]) = [0..<Suc n]"
proof -
  assume m: "m = Suc n"
  with assms have "ks \<noteq> []" by auto
  then have "last ks = n" using assms m last_remdups_adj [of ks] by simp
  with \<open>ks \<noteq> []\<close> assms m show "remdups_adj (ks @ [n]) = [0..<Suc n]" by (simp add: remdups_adj_snoc)
next
  assume m: "m = n"
  have "\<not> (ks \<noteq> [] \<and> last ks = n)"
  proof
    assume k: "ks \<noteq> [] \<and> last ks = n"
    then have "n \<in> set (remdups_adj ks)" by (metis last_in_set remdups_adj_set)
    with assms m show False by simp
  qed
  with assms m show "remdups_adj (ks @ [n]) = [0..<Suc n]" by (simp add: remdups_adj_snoc)
qed

lemma sent_upto_send:
  assumes "sent_upto m st" and "n < length (definitions st)" and "m = n \<or> m = Suc n"
    and "definitions st' = definitions st"
    and "sent_definitions st' = sent_definitions st @ [(word_of_nat n, definitions st ! n)]"
  shows "sent_upto (Suc n) st'"
proof -
  from assms(1) obtain ks where "sent_definitions st = map (\<lambda>k. (word_of_nat k, definitions st ! k)) ks"
    and ks: "remdups_adj ks = [0..<m]" by (auto simp: sent_upto_def)
  with assms(4,5) have "sent_definitions st' = map (\<lambda>k. (word_of_nat k, definitions st' ! k)) (ks @ [n])"
    by simp
  moreover have "remdups_adj (ks @ [n]) = [0..<Suc n]"
    using remdups_adj_upt_snoc [OF ks] assms(3) by blast
  ultimately show ?thesis using assms(2,4) unfolding sent_upto_def by (intro conjI exI [of _ "ks @ [n]"]) auto
qed

lemma sent_upto_cong:
  "definitions st' = definitions st \<Longrightarrow> sent_definitions st' = sent_definitions st \<Longrightarrow>
   sent_upto n st' = sent_upto n st"
  by (simp add: sent_upto_def)

lemma sent_definitions_frame [simp]:
  "sent_definitions (st\<lparr>st_state := a\<rparr>) = sent_definitions st"
  "sent_definitions (st\<lparr>sync_timeout := b\<rparr>) = sent_definitions st"
  "sent_definitions (st\<lparr>seq_no := c\<rparr>) = sent_definitions st"
  "sent_definitions (st\<lparr>discarding := d\<rparr>) = sent_definitions st"
  "sent_definitions (st\<lparr>st_running := d\<rparr>) = sent_definitions st"
  "sent_definitions (st\<lparr>definitions := ds\<rparr>) = sent_definitions st"
  "sent_definitions (st\<lparr>target_system := t, target_component := u\<rparr>) = sent_definitions st"
  "sent_definitions (st\<lparr>skip_cntr := x\<rparr>) = sent_definitions st"
  "sent_definitions (st\<lparr>send_cntr := x\<rparr>) = sent_definitions st"
  "sent_definitions (st\<lparr>posted := p\<rparr>) = sent_definitions st"
  "sent_definitions (st\<lparr>sent := ms\<rparr>) = concat (map acked_send ms)"
  by (simp_all add: sent_definitions_def)

section \<open>The invariant of every run\<close>

text \<open>How many definitions have been sent at least once, by state.\<close>

fun sent_count :: "streamer_state \<Rightarrow> nat \<Rightarrow> nat" where
  "sent_count STATE_ACK_WAIT n = Suc n"
| "sent_count STATE_ACK_RECV n = Suc n"
| "sent_count STATE_RESEND_DEF n = Suc n"
| "sent_count _ n = n"

definition handshake_ok :: "sync_pc \<Rightarrow> streamer \<Rightarrow> bool" where
  "handshake_ok pc st \<longleftrightarrow>
     sent_upto (sent_count (st_state st) (seq_no st)) st \<and>
     (\<forall>m \<in> set (posted st). acked_send (m, ()) = []) \<and>
     (case pc of
        Collecting \<Rightarrow> st_state st \<in> {STATE_INIT, STATE_CONNECTED} \<and> seq_no st = 0 \<and> sent_definitions st = [] \<and>
                      \<not> discarding st \<and> \<not> st_running st
      | Sending \<Rightarrow> st_state st \<le> STATE_ACK_WAIT \<and> discarding st \<and> \<not> st_running st \<and>
                   (st_state st \<in> {STATE_INIT, STATE_CONNECTED} \<longrightarrow> seq_no st = 0)
      | Synced \<Rightarrow> seq_no st = length (definitions st) \<and> st_running st \<and>
                  (definitions st \<noteq> [] \<longrightarrow> st_state st \<in> {STATE_RUNNING, STATE_STOPPED}))"

definition sys_ok :: "'q sys \<Rightarrow> bool" where
  "sys_ok s \<longleftrightarrow> handshake_ok (sync_at s) (strm s) \<and>
     (\<forall>state. sync_loaded s = Some state \<longrightarrow> sync_at s = Sending \<and> state \<le> STATE_ACK_WAIT \<and>
        (seq_no (strm s) = length (definitions (strm s)) \<and> definitions (strm s) \<noteq> [] \<longrightarrow> state = STATE_SEND_DEF)) \<and>
     (\<forall>state. main_loaded s = Some state \<longrightarrow> state \<in> {STATE_RUNNING, STATE_STOPPED}) \<and>
     (\<forall>(lc, sa, state, new) \<in> set (cmds s). new \<noteq> STATE_UNKNOWN \<longrightarrow>
        (state, new) \<in> {(STATE_INIT, STATE_CONNECTED), (STATE_STOPPED, STATE_RUNNING), (STATE_RUNNING, STATE_STOPPED)})"

lemma sys_ok_new: "sys_ok (new_sys q)"
  by (auto simp: sys_ok_def new_sys_def handshake_ok_def new_streamer_def sent_upto_def sent_definitions_def)

text \<open>The invariant does not look at the counters, the targets and the timeout.\<close>

lemma handshake_ok_frame [simp]:
  "handshake_ok pc (st\<lparr>skip_cntr := x\<rparr>) = handshake_ok pc st"
  "handshake_ok pc (st\<lparr>send_cntr := x\<rparr>) = handshake_ok pc st"
  "handshake_ok pc (st\<lparr>sync_timeout := t\<rparr>) = handshake_ok pc st"
  "handshake_ok pc (st\<lparr>target_system := a, target_component := b\<rparr>) = handshake_ok pc st"
  by (simp_all add: handshake_ok_def sent_upto_def cong: sync_pc.case_cong)

lemma set_state_or_die_Inr:
  "set_state_or_die old new st = Inr st' \<longleftrightarrow> st_state st = old \<and> st' = st\<lparr>st_state := new\<rparr>"
  by (auto simp: set_state_or_die_def set_state_def)

lemma sendmavmsg_Inr:
  "sendmavmsg m a b st = Inr st' \<longleftrightarrow> st_roster st \<and> st' = st\<lparr>sent := sent st @ [(m, a, b)]\<rparr>"
  by (auto simp: sendmavmsg_def bindE_eq_Inr)

lemma acked_send_dest: "acked_send (m, x) = acked_send (m, y)"
  by (cases m) auto

lemma handshake_ok_send_other:
  "acked_send (m, ()) = [] \<Longrightarrow>
   handshake_ok pc (st\<lparr>sent := sent st @ [(m, a, b)]\<rparr>) = handshake_ok pc st"
  using acked_send_dest [of m "(a, b)" "()"]
  by (simp add: handshake_ok_def sent_upto_def sent_definitions_def cong: sync_pc.case_cong)

lemma handshake_ok_posted_tl:
  "handshake_ok pc st \<Longrightarrow> posted st = m # rest \<Longrightarrow> handshake_ok pc (st\<lparr>posted := rest\<rparr>)"
  by (auto simp: handshake_ok_def sent_upto_def split: sync_pc.splits)

lemma collect_step_ok:
  assumes "handshake_ok Collecting st" and "collect_step Q st q = Inr (pc', st', q')"
  shows "handshake_ok pc' st' \<and> pc' \<in> {Collecting, Sending}"
  using assms
  by (auto simp: collect_step_def bindE_eq_Inr handshake_ok_def sent_upto_def Let_def
      less_eq_streamer_state_def split: if_splits)

definition definition_msg :: "streamer \<Rightarrow> mav_msg" where
  "definition_msg st =
     Logging_Data_Acked (target_system st) (target_component st) (word_of_nat (seq_no st))
       (word_of_nat (length (definitions st ! seq_no st))) 255 (definitions st ! seq_no st)"

lemma acked_definition_msg [simp]:
  "acked_send (definition_msg st, x) = [(word_of_nat (seq_no st), definitions st ! seq_no st)]"
  by (simp add: definition_msg_def)

lemma send_definition_Inr:
  "send_definition fld state st = Inr st' \<longleftrightarrow>
     seq_no st < length (definitions st) \<and> length (definitions st ! seq_no st) \<le> fld \<and> st_roster st \<and>
     st_state st = state \<and>
     st' = st\<lparr>sent := sent st @ [(definition_msg st, ucast (target_system st), ucast (target_component st))],
              sync_timeout := 0, st_state := STATE_ACK_WAIT\<rparr>"
  by (auto simp: send_definition_def send_ulog_ack_def bindE_eq_Inr sendmavmsg_Inr set_state_or_die_Inr
      definition_msg_def)

lemma handshake_ok_send_definition:
  assumes ok: "handshake_ok Sending st" and state: "state \<in> {STATE_CONNECTED, STATE_SEND_DEF, STATE_RESEND_DEF}"
    and step: "send_definition fld state st = Inr st'"
  shows "handshake_ok Sending st' \<and> definitions st' = definitions st \<and> seq_no st' = seq_no st"
proof -
  have st: "st_state st = state" "seq_no st < length (definitions st)"
    and st': "st' = st\<lparr>sent := sent st @ [(definition_msg st, ucast (target_system st), ucast (target_component st))],
              sync_timeout := 0, st_state := STATE_ACK_WAIT\<rparr>"
    using step by (simp_all add: send_definition_Inr)
  have defs: "definitions st' = definitions st" and sq: "seq_no st' = seq_no st" by (simp_all add: st')
  have "sent_upto (sent_count (st_state st) (seq_no st)) st" using ok by (simp add: handshake_ok_def)
  then have "sent_upto (Suc (seq_no st)) st'"
  proof (rule sent_upto_send [OF _ st(2) _ defs])
    show "sent_count (st_state st) (seq_no st) = seq_no st \<or> sent_count (st_state st) (seq_no st) = Suc (seq_no st)"
      by (cases "st_state st") simp_all
  qed (simp_all add: st' sent_definitions_def)
  with ok show ?thesis
    by (simp add: handshake_ok_def st' less_eq_streamer_state_def)
qed

lemma handshake_ok_state:
  assumes "handshake_ok Sending st" and "sent_count new n = sent_count (st_state st) (seq_no st)"
    and "new \<le> STATE_ACK_WAIT" and "new \<notin> {STATE_INIT, STATE_CONNECTED}"
  shows "handshake_ok Sending (st\<lparr>st_state := new, seq_no := n\<rparr>)"
  using assms by (auto simp: handshake_ok_def sent_upto_def)

lemma sync_act_ok:
  assumes ok: "handshake_ok Sending st" and "seq_no st < length (definitions st)"
    and step: "sync_act fld state st = Inr st'"
  shows "handshake_ok Sending st' \<and> definitions st' = definitions st"
proof (cases "state \<in> {STATE_CONNECTED, STATE_SEND_DEF, STATE_RESEND_DEF}")
  case True
  with step have "send_definition fld state st = Inr st'"
    by (auto simp: sync_act_def bindE_eq_Inr)
  from handshake_ok_send_definition [OF ok True this] show ?thesis by simp
next
  case False
  with step have "st_state st = STATE_ACK_RECV \<and> st' = st\<lparr>st_state := STATE_SEND_DEF, seq_no := seq_no st + 1\<rparr> \<or>
    st' = st \<or> st' = st\<lparr>sync_timeout := sync_timeout st + 50\<rparr> \<or>
    st_state st = STATE_ACK_WAIT \<and>
      st' = st\<lparr>sync_timeout := sync_timeout st + 50, st_state := STATE_RESEND_DEF\<rparr>"
    by (cases state) (auto simp: sync_act_def bindE_eq_Inr set_state_or_die_Inr Let_def split: if_splits)
  then consider "st_state st = STATE_ACK_RECV" "st' = st\<lparr>st_state := STATE_SEND_DEF, seq_no := seq_no st + 1\<rparr>"
    | "st' = st"
    | "st' = st\<lparr>sync_timeout := sync_timeout st + 50\<rparr>"
    | "st_state st = STATE_ACK_WAIT"
      "st' = st\<lparr>sync_timeout := sync_timeout st + 50, st_state := STATE_RESEND_DEF\<rparr>"
    by blast
  then show ?thesis
  proof cases
    case 1
    then show ?thesis using handshake_ok_state [OF ok, of STATE_SEND_DEF "seq_no st + 1"]
      by (simp add: less_eq_streamer_state_def)
  next
    case 2
    then show ?thesis using ok by simp
  next
    case 3
    then show ?thesis using ok by simp
  next
    case 4
    have "handshake_ok Sending (st\<lparr>sync_timeout := sync_timeout st + 50\<rparr>)" using ok by simp
    from handshake_ok_state [OF this, of STATE_RESEND_DEF "seq_no st"] 4 show ?thesis
      by (cases st) (simp add: less_eq_streamer_state_def)
  qed
qed

text \<open>The end of the sync thread: nothing but \<open>STATE_SEND_DEF\<close> is possible then.\<close>

lemma sending_finished:
  assumes "handshake_ok Sending st" and "\<not> seq_no st < length (definitions st)"
  shows "seq_no st = length (definitions st)"
    and "definitions st \<noteq> [] \<Longrightarrow> st_state st = STATE_SEND_DEF"
    and "sent_upto (length (definitions st)) st"
proof -
  have up: "sent_upto (sent_count (st_state st) (seq_no st)) st"
    and le: "sent_count (st_state st) (seq_no st) \<le> length (definitions st)"
    and st: "st_state st \<le> STATE_ACK_WAIT" "st_state st \<in> {STATE_INIT, STATE_CONNECTED} \<Longrightarrow> seq_no st = 0"
    using assms(1) by (auto simp: handshake_ok_def sent_upto_def)
  from up le st assms(2) show "seq_no st = length (definitions st)"
    "definitions st \<noteq> [] \<Longrightarrow> st_state st = STATE_SEND_DEF" "sent_upto (length (definitions st)) st"
    by (cases "st_state st"; auto simp: less_eq_streamer_state_def)+
qed

lemma sync_finish_ok:
  assumes ok: "handshake_ok Sending st" and fin: "\<not> seq_no st < length (definitions st)"
    and state: "definitions st \<noteq> [] \<Longrightarrow> state = STATE_SEND_DEF"
  shows "handshake_ok Synced ((snd (set_state state STATE_RUNNING st))\<lparr>st_running := True\<rparr>)"
proof -
  note f = sending_finished [OF ok fin]
  from ok have up: "sent_upto (sent_count (st_state st) (seq_no st)) st"
    and p: "\<forall>m \<in> set (posted st). acked_send (m, ()) = []" by (simp_all add: handshake_ok_def)
  show ?thesis
  proof (cases "st_state st = state")
    case True
    with f p show ?thesis by (auto simp: handshake_ok_def set_state_def sent_upto_def)
  next
    case False
    with f state have "definitions st = []" by blast
    with f p up False show ?thesis by (auto simp: handshake_ok_def set_state_def sent_upto_def)
  qed
qed

end
