(* ===== verification/Startup.thy ===== *)
theory Startup
  imports Telemetry_Props Logger_Props Streamer_System
begin

text \<open>
  What \<open>init\<close> leaves of a new object: the flags that say which outputs are in use, the header and the
  flags message in their queues, a logger that is ready for its loop and a streamer that is ready
  for its threads.
\<close>

lemma init_logger_ready:
  "logger_ok (start_logger (snd (init_logger True name (Some Log_Queue) new_logger)))"
  "lg_running (start_logger (snd (init_logger True name (Some Log_Queue) new_logger)))"
  "f_bytes (out (start_logger (snd (init_logger True name (Some Log_Queue) new_logger)))) = []"
  "pending (start_logger (snd (init_logger True name (Some Log_Queue) new_logger))) = []"
proof -
  have eq: "start_logger (snd (init_logger True name (Some Log_Queue) new_logger)) =
      new_logger\<lparr>lg_filename := name, out := open_file True, lg_queue := Some Log_Queue, lg_running := True\<rparr>"
    by (simp add: init_logger_def start_logger_def Let_def open_file_def new_logger_def)
  show "logger_ok (start_logger (snd (init_logger True name (Some Log_Queue) new_logger)))"
    unfolding eq logger_ok_def using pool_ok_new by (auto simp: open_file_def)
  show "lg_running (start_logger (snd (init_logger True name (Some Log_Queue) new_logger)))"
    "f_bytes (out (start_logger (snd (init_logger True name (Some Log_Queue) new_logger)))) = []"
    "pending (start_logger (snd (init_logger True name (Some Log_Queue) new_logger))) = []"
    unfolding eq by (simp_all add: open_file_def pending_def new_logger_def new_data_buffer_def)
qed

lemma to_io_parts [simp]:
  "mt_logger (to_io Q bs mt) = mt_logger mt" "mt_streamer (to_io Q bs mt) = mt_streamer mt"
  by (simp_all add: to_io_def Let_def)

lemma init_streamer_ready:
  "init_streamer True (Some Net_Queue) new_streamer = (True, strm (new_sys q))"
  by (simp add: init_streamer_def new_sys_def new_streamer_def)

lemma init_network_frame [simp]:
  "mt_logger (init_network rt m) = mt_logger m" "log_queue (init_network rt m) = log_queue m"
  "net_queue (init_network rt m) = net_queue m" "msg_id (init_network rt m) = msg_id m"
  "multi_id (init_network rt m) = multi_id m" "start_timestamp (init_network rt m) = start_timestamp m"
  by (simp_all add: init_network_def split: prod.splits)

lemma init_local_log_frame [simp]:
  "with_network (init_local_log date opens m) = with_network m" "mt_streamer (init_local_log date opens m) = mt_streamer m"
  "log_queue (init_local_log date opens m) = log_queue m" "net_queue (init_local_log date opens m) = net_queue m"
  "msg_id (init_local_log date opens m) = msg_id m" "multi_id (init_local_log date opens m) = multi_id m"
  "start_timestamp (init_local_log date opens m) = start_timestamp m"
  by (simp_all add: init_local_log_def Let_def split: prod.splits)

lemma read_config_frame:
  assumes "read_config config m = (ok, m')" and "\<not> is_enabled m"
  shows "mt_logger m' = mt_logger m" "mt_streamer m' = mt_streamer m" "log_queue m' = log_queue m"
    "net_queue m' = net_queue m" "msg_id m' = msg_id m" "multi_id m' = multi_id m"
    "start_timestamp m' = start_timestamp m" "\<not> ok \<Longrightarrow> \<not> is_enabled m'"
  using assms by (auto simp: read_config_def is_enabled_def Let_def split: option.splits if_splits)

lemma init_starts:
  assumes Q: "conc_queue Q content" and q: "content q0 = []"
    and init: "init Q date config opens now True rt (new_mu_telemetry q0) = Inr (b, mt)"
    and on: "is_enabled mt"
  shows "content (log_queue mt) = (if with_local_log mt then [header_message now, flags_message] else [])"
    and "content (net_queue mt) = (if with_network mt then [header_message now, flags_message] else [])"
    and "msg_id mt = new_id_gen" and "multi_id mt = Map.empty"
    and "with_local_log mt \<Longrightarrow>
      \<exists>name. mt_logger mt = start_logger (snd (init_logger opens name (Some Log_Queue) new_logger))"
    and "with_network mt \<Longrightarrow> mt_streamer mt = strm (new_sys q0)"
proof -
  let ?mt0 = "(new_mu_telemetry q0)\<lparr>components := Suc 0, start_timestamp := now\<rparr>"
  obtain ok m where r: "read_config config ?mt0 = (ok, m)" by fastforce
  have "\<not> is_enabled ?mt0" by (simp add: new_mu_telemetry_def is_enabled_def)
  note rc = read_config_frame [OF r this]
  define mt1 where "mt1 = (if ok then init_local_log date opens (init_network rt m) else m)"
  have mt: "mt = (if is_enabled mt1 then snd (create_header_and_flags Q mt1) else mt1)"
    using init r by (auto simp: init_def Let_def mt1_def new_mu_telemetry_def bindE_eq_Inr)
  then have on1: "is_enabled mt1" using on by (auto split: if_splits)
  then have ok using rc(8) by (auto simp: mt1_def split: if_splits)
  have mt': "mt = to_io Q flags_message (to_io Q (header_message (start_timestamp mt1)) mt1)"
    using on1 by (auto simp: mt create_header_and_flags_def is_enabled_def)
  have mt1: "mt1 = init_local_log date opens (init_network rt m)" using \<open>ok\<close> by (simp add: mt1_def)
  have qs: "log_queue mt1 = q0" "net_queue mt1 = q0" "start_timestamp mt1 = now"
    "msg_id mt1 = new_id_gen" "multi_id mt1 = Map.empty"
    using rc by (simp_all add: mt1 new_mu_telemetry_def)
  show "content (log_queue mt) = (if with_local_log mt then [header_message now, flags_message] else [])"
    "content (net_queue mt) = (if with_network mt then [header_message now, flags_message] else [])"
    "msg_id mt = new_id_gen" "multi_id mt = Map.empty"
    using qs q conc_queue.to_io_content [OF Q] by (simp_all add: mt')
  show "\<exists>name. mt_logger mt = start_logger (snd (init_logger opens name (Some Log_Queue) new_logger))"
    if log: "with_local_log mt"
  proof -
    let ?name = "log_name date (log_dir (init_network rt m)) (start_timestamp m)"
    obtain r l where l: "init_logger opens ?name (Some Log_Queue) new_logger = (r, l)" by fastforce
    have "mt_logger m = new_logger" using rc(1) by (simp add: new_mu_telemetry_def)
    then have "mt_logger mt = start_logger l"
      using log l by (auto simp: mt' mt1 init_local_log_def Let_def split: if_splits)
    with l show ?thesis by (intro exI [of _ ?name]) simp
  qed
  show "mt_streamer mt = strm (new_sys q0)" if "with_network mt"
    using that rc(2) init_streamer_ready
    by (auto simp: mt' mt1 init_network_def new_mu_telemetry_def split: prod.splits if_splits)
qed

end
