(* ===== verification/Telemetry_Claims.thy ===== *)
theory Telemetry_Claims
  imports Telemetry_Props
begin

text \<open>
  From the application through the queue to the parser: what is registered and stored is
  what the parser of the same library reads from the bytes that were queued.
\<close>

section \<open>Examples\<close>

text \<open>An object that logs, a format with one byte, a parser that knows it.\<close>

definition sample_mt :: "byte list list mu_telemetry" where
  "sample_mt = (new_mu_telemetry [])\<lparr>with_local_log := True\<rparr>"

definition sample_field :: field where
  "sample_field = \<lparr>field_type = UINT8, field_name = ''a'', other_type_id = [], array_size = 1\<rparr>"

definition sample_format :: format where
  "sample_format = \<lparr>fmt_name = ''T'', fmt_fields = [sample_field], fmt_padding = 0\<rparr>"

definition sample_parser :: parser where
  "sample_parser = new_parser\<lparr>p_state := STATE_DEFINITION, formats_map := [''T'' \<mapsto> sample_format]\<rparr>"

lemmas sample_defs = sample_mt_def sample_field_def sample_format_def sample_parser_def new_mu_telemetry_def
  new_parser_def

lemma sample_ids: "fst (get_ids ''T'' [] sample_mt) = (0, 0)"
  by (simp add: sample_mt_def new_mu_telemetry_def get_ids_def get_msg_id_def get_multi_id_def get_id_def new_id_gen_def)

text \<open>A format with a single byte: its payload and its channel.\<close>

lemma one_byte_conf:
  assumes "field_type f = UINT8" and "array_size f = 1" and "\<not> is_padding f"
  shows "conf_fields 0 F [f] [b] [double_of_int (uint b)]"
proof -
  have "conf_elems 0 F f 1 ([b] @ []) (double_of_int (uint b) # [])"
    using conf_scalar [of f "[b]" "double_of_int (uint b)" 0 F 0 "[]" "[]"] assms(1)
    by (simp add: conf_none rd_le_def rd_def dec_le_def)
  then have "conf_fields 0 F (f # []) ([b] @ []) ([double_of_int (uint b)] @ [])"
    using assms(2,3) by (intro conf_field conf_nil) simp_all
  then show ?thesis by simp
qed

lemma one_byte_channel:
  assumes "field_type f = UINT8" and "array_size f = 1" and "\<not> is_padding f"
  shows "append_vector (Suc 0) F [f] [] [] = Inr [(''/'' @ field_name f, [])]"
  using assms by (simp add: walk_def indices_def channel_elem_def element_suffix_def)

lemma sample_conf: "conf_fields 0 F (fmt_fields sample_format) [7] [double_of_int 7]"
  using one_byte_conf [of sample_field F 7]
  by (simp add: sample_format_def sample_field_def is_padding_def starts_with_def)

lemma sample_channels: "append_vector (Suc 0) F (fmt_fields sample_format) [] [] = Inr [(''/a'', [])]"
  using one_byte_channel [of sample_field F]
  by (simp add: sample_format_def sample_field_def is_padding_def starts_with_def)

section \<open>From the application to the parser\<close>

text \<open>C9. A record handed to \<open>store_data\<close> reaches the data handler of a parser that knows its
  format: under the name of its series, with the time of the call, and with the values its
  payload holds, channel by channel. It does so for the first message of a series and for
  every later one.\<close>

theorem store_data_delivers:
  assumes Q: "conc_queue Q content" and log: "with_local_log mt"
    and ids: "fst (get_ids name ann mt) = (mid, inst)"
    and stamp: "length stamp = 8" and size: "length payload \<le> 1492" and name: "length name \<le> 255"
    and acc: "accepting ps" and sub: "subscriptions ps mid \<in> {None, Some (new_sub ps mid inst name)}"
    and fmt: "formats_map ps name = Some fmt"
    and series: "series_name (added mid inst name ps) (new_sub ps mid inst name) = Inr nm"
    and conf: "conf_fields d (formats_map ps) (fmt_fields fmt) payload vs"
    and cs: "append_vector (Suc d) (formats_map ps) (fmt_fields fmt) [] [] = Inr cs"
    and old: "\<forall>ts. timeseries_map ps nm = Some ts \<longrightarrow> map fst (ts_data ts) = map fst cs"
  shows "\<exists>mt' bs ps'. store_data Q (stamp @ payload) name ann now mt = Inr (True, mt') \<and>
     content (log_queue mt') = content (log_queue mt) @ [bs] \<and>
     parse (Suc d) bs 0 ps = Inr (ps', True) \<and> p_state ps' = STATE_DEFINITION_OR_DATA \<and>
     data_calls ps' = data_calls ps @
       [\<lparr>md_name = nm, md_timestamp = now, structured_data = zip (map fst cs) vs\<rparr>]"
proof -
  let ?bs = "frame 65 ([inst] @ enc_le 2 mid @ bytes_of name) @ frame 68 (enc_le 2 mid @ enc_le 8 now @ payload)"
  let ?ps = "added mid inst name ps"
  have "store_data Q (stamp @ payload) name ann now mt = Inr (True, to_io Q ?bs (snd (get_ids name ann mt)))"
    using log ids stamp size name by (simp add: store_data_def store_data_intl_ids is_enabled_def data_message_eq)
  moreover have "content (log_queue (to_io Q ?bs (snd (get_ids name ann mt)))) = content (log_queue mt) @ [?bs]"
    using conc_queue.to_io_content [OF Q] log by simp
  moreover note p = parse_store_data [OF stored_self name acc, where inst = inst and mid = mid and t = now and payload = payload]
  have known: "sub_format (new_sub ps mid inst name) = Some name" using fmt by (auto simp: new_sub_def)
  have fmt': "formats_map ?ps name = Some fmt" and conf': "conf_fields d (formats_map ?ps) (fmt_fields fmt) payload vs"
    and cs': "append_vector (Suc d) (formats_map ?ps) (fmt_fields fmt) [] [] = Inr cs"
    and old': "\<And>ts. timeseries_map ?ps nm = Some ts \<Longrightarrow> map fst (ts_data ts) = map fst cs"
    using fmt conf cs old by (simp_all only: added_fields)
  obtain ts where "parse_data_message (Suc d) ?bs (0 + 9 + length name) ?ps =
      Inr (?ps\<lparr>timeseries_map := (timeseries_map ps)(nm \<mapsto> ts),
               data_calls := data_calls ps @ [\<lparr>md_name = nm, md_timestamp = now,
                                              structured_data = zip (map fst cs) vs\<rparr>]\<rparr>,
           STATE_DEFINITION_OR_DATA)"
    using parse_data_frame [OF p(2) added_sub [OF sub] known fmt' series conf' cs' old'] by auto
  with p(1) [of "Suc d"] have "\<exists>ps'. parse (Suc d) ?bs 0 ps = Inr (ps', True) \<and> p_state ps' = STATE_DEFINITION_OR_DATA \<and>
     data_calls ps' = data_calls ps @
       [\<lparr>md_name = nm, md_timestamp = now, structured_data = zip (map fst cs) vs\<rparr>]"
    by simp
  ultimately show ?thesis by blast
qed

theorem store_data_delivers_witness:
  "\<exists>mt' bs ps'. store_data list_queue (replicate 8 0 @ [7]) ''T'' [] 5 sample_mt = Inr (True, mt') \<and>
     log_queue mt' = log_queue sample_mt @ [bs] \<and>
     parse 1 bs 0 sample_parser = Inr (ps', True) \<and> p_state ps' = STATE_DEFINITION_OR_DATA \<and>
     data_calls ps' = data_calls sample_parser @
       [\<lparr>md_name = ''T'', md_timestamp = 5, structured_data = zip [''/a''] [double_of_int 7]\<rparr>]"
proof -
  have "with_local_log sample_mt" "accepting sample_parser" "subscriptions sample_parser 0 = None"
    and fm: "formats_map sample_parser ''T'' = Some sample_format"
    and old: "\<forall>ts. timeseries_map sample_parser ''T'' = Some ts \<longrightarrow> map fst (ts_data ts) = map fst [(''/a'', [])]"
    and nm: "series_name (added 0 0 ''T'' sample_parser) (new_sub sample_parser 0 0 ''T'') = Inr ''T''"
    by (simp_all add: sample_defs accepting_def series_name_def added_def new_sub_def)
  then show ?thesis
    using store_data_delivers [OF fifo.conc_queue_axioms _ sample_ids, of "replicate 8 0" "[7]" sample_parser
        sample_format "''T''" 0 "[double_of_int 7]" "[(''/a'', [])]" 5]
      sample_conf sample_channels
    by simp
qed

text \<open>C19. A format registered with the trailing semicolon the library's documentation shows, single elements written
  with or without their array size, is read back field by field, but for the last field: the last character of its section is lost to
  a terminating NUL that becomes part of its name.\<close>

theorem register_data_format_read_back:
  assumes Q: "conc_queue Q content" and log: "with_local_log mt" and st: "p_state ps = STATE_DEFINITION"
    and name: "CHR '':'' \<notin> set name" "NUL \<notin> set name"
    and fields: "declares flds (fs @ [f])"
    and size: "length (format_text name flds) \<le> 1500"
  shows "\<exists>mt' bs. register_data_format Q name flds mt = Inr (True, mt') \<and>
     content (log_queue mt') = content (log_queue mt) @ [bs] \<and>
     parse stk bs 0 ps = Inr (ps\<lparr>formats_map := (formats_map ps)(name \<mapsto>
       \<lparr>fmt_name = name, fmt_fields = fs @ [f\<lparr>field_name := field_name f @ [NUL]\<rparr>], fmt_padding = 0\<rparr>)\<rparr>, True)"
proof -
  obtain s where s: "format_message name flds = Inr (frame 70 (bytes_of s))"
    "length s < 2 ^ 16" "format_of_text s = Inr (Some (read_back name fs f))"
    using format_message_read [OF name fields size] .
  have "register_data_format Q name flds mt = Inr (True, to_io Q (frame 70 (bytes_of s)) mt)"
    using log s(1) by (simp add: register_data_format_def is_enabled_def)
  moreover have "parse stk (frame 70 (bytes_of s)) 0 ps =
      Inr (ps\<lparr>formats_map := (formats_map ps)(name \<mapsto> read_back name fs f)\<rparr>, True)"
    using parse_format_frame [OF stored_self s(2,3) st] by (simp add: read_back_def)
  ultimately show ?thesis
    using conc_queue.to_io_content [OF Q] log by (auto simp: read_back_def)
qed

theorem register_data_format_read_back_witness:
  "\<exists>mt' bs. register_data_format list_queue ''T'' (fields_text ([] @ [sample_field])) sample_mt = Inr (True, mt') \<and>
     log_queue mt' = log_queue sample_mt @ [bs] \<and>
     parse 1 bs 0 (new_parser\<lparr>p_state := STATE_DEFINITION\<rparr>) =
       Inr (new_parser\<lparr>p_state := STATE_DEFINITION, formats_map := [''T'' \<mapsto>
         \<lparr>fmt_name = ''T'', fmt_fields = [] @ [sample_field\<lparr>field_name := field_name sample_field @ [NUL]\<rparr>],
          fmt_padding = 0\<rparr>]\<rparr>, True)"
proof -
  have "with_local_log sample_mt" "p_state (new_parser\<lparr>p_state := STATE_DEFINITION\<rparr>) = STATE_DEFINITION"
    "NUL \<notin> set ''T''" "declares (fields_text ([] @ [sample_field])) ([] @ [sample_field])"
    by (simp_all add: sample_defs NUL_def) (intro declares_fields_text, simp add: field_ok_def plain_def NUL_def)
  moreover have "length (format_text ''T'' (fields_text ([] @ [sample_field]))) \<le> 1500"
    by (simp add: format_text_def fields_text_def sections_text_def field_text_def sample_field_def array_text_def)
  ultimately show ?thesis
    using register_data_format_read_back [OF fifo.conc_queue_axioms, of sample_mt
        "new_parser\<lparr>p_state := STATE_DEFINITION\<rparr>" "''T''" "fields_text ([] @ [sample_field])" "[]" sample_field 1]
    by (simp add: new_parser_def)
qed

text \<open>An integer parameter registered under a key \<open>int32_t name\<close> is appended to the parser's
  parameters with that name and its 32 bits.\<close>

theorem register_param_int_read_back:
  assumes Q: "conc_queue Q content" and log: "with_local_log mt" and acc: "accepting ps"
    and name: "NUL \<notin> set name" "length name < 243"
  shows "\<exists>mt' bs. register_param_int Q (''int32_t '' @ name) v mt = Inr (True, mt') \<and>
     content (log_queue mt') = content (log_queue mt) @ [bs] \<and>
     parse stk bs 0 ps =
       Inr (ps\<lparr>parameters := parameters ps @ [\<lparr>param_name = name, param_bits = v, param_type = INT32\<rparr>]\<rparr>, True)"
proof -
  let ?key = "''int32_t'' @ CHR '' '' # name"
  have "NUL \<notin> set ?key" using name(1) by (auto simp: NUL_def)
  then have "param_message (''int32_t '' @ name) (enc_le 4 v) = Inr (keyed_frame 80 [] ?key (enc_le 4 v))"
    using name(2) c_str_id [of ?key] by (simp add: param_message_eq)
  then have "register_param_int Q (''int32_t '' @ name) v mt = Inr (True, to_io Q (keyed_frame 80 [] ?key (enc_le 4 v)) mt)"
    using log by (simp add: register_param_int_def is_enabled_def)
  moreover have "parse stk (keyed_frame 80 [] ?key (enc_le 4 v)) 0 ps =
       Inr (ps\<lparr>parameters := parameters ps @ [\<lparr>param_name = name, param_bits = v, param_type = INT32\<rparr>]\<rparr>, True)"
    using name(2) acc by (intro parse_param_key [OF stored_self]) simp_all
  ultimately show ?thesis using conc_queue.to_io_content [OF Q] log by auto
qed

theorem register_param_int_read_back_witness:
  "\<exists>mt' bs. register_param_int list_queue (''int32_t '' @ ''p'') 123 sample_mt = Inr (True, mt') \<and>
     log_queue mt' = log_queue sample_mt @ [bs] \<and>
     parse 1 bs 0 sample_parser =
       Inr (sample_parser\<lparr>parameters := parameters sample_parser @
              [\<lparr>param_name = ''p'', param_bits = 123, param_type = INT32\<rparr>]\<rparr>, True)"
  by (rule register_param_int_read_back [OF fifo.conc_queue_axioms])
    (simp_all add: sample_defs accepting_def NUL_def)

text \<open>An information value registered as text is what the parser stores under its key,
  unless the parser has a value for that key already.\<close>

theorem register_info_read_back:
  assumes Q: "conc_queue Q content" and log: "with_local_log mt" and acc: "accepting ps"
    and key: "key \<noteq> []" "CHR '' '' \<notin> set key" "NUL \<notin> set key"
    and size: "length val + length (info_key key val) < 255"
  shows "\<exists>mt' bs. register_info Q key val mt = Inr (True, mt') \<and>
     content (log_queue mt') = content (log_queue mt) @ [bs] \<and>
     parse stk bs 0 ps = Inr (ps\<lparr>info := map_insert key val (info ps)\<rparr>, True)"
proof -
  let ?bs = "keyed_frame 73 [] (info_key key val) (bytes_of val)"
  have "register_info Q key val mt = Inr (True, to_io Q ?bs mt)"
    using log size by (simp add: register_info_def is_enabled_def info_message_eq)
  moreover have "parse stk ?bs 0 ps = Inr (ps\<lparr>info := map_insert key val (info ps)\<rparr>, True)"
    using key acc size by (intro parse_info_key [OF stored_self])
  ultimately show ?thesis using conc_queue.to_io_content [OF Q] log by auto
qed

theorem register_info_read_back_witness:
  "\<exists>mt' bs. register_info list_queue ''sys'' ''RPi4'' sample_mt = Inr (True, mt') \<and>
     log_queue mt' = log_queue sample_mt @ [bs] \<and>
     parse 1 bs 0 sample_parser =
       Inr (sample_parser\<lparr>info := map_insert ''sys'' ''RPi4'' (info sample_parser)\<rparr>, True)"
  by (rule register_info_read_back [OF fifo.conc_queue_axioms])
    (simp_all add: sample_defs accepting_def NUL_def info_key_def dec_nat_def digits_in.simps c_str_def)

text \<open>A string given to \<open>store_message\<close> reaches the log handler of a parser that has seen data,
  with its level and time, cut at a NUL if it holds one.\<close>

theorem store_message_delivers:
  assumes Q: "conc_queue Q content" and log: "with_local_log mt" and st: "p_state ps = STATE_DEFINITION_OR_DATA"
    and size: "length msg < 1500"
  shows "\<exists>mt' bs ps'. store_message Q msg level now mt = Inr (True, mt') \<and>
     content (log_queue mt') = content (log_queue mt) @ [bs] \<and> parse stk bs 0 ps = Inr (ps', True) \<and>
     log_calls ps' = log_calls ps @ [\<lparr>ml_level = level_code level, ml_timestamp = now, ml_msg = c_str msg\<rparr>]"
proof -
  let ?bs = "frame 76 ([level_code level] @ enc_le 8 now @ bytes_of (c_str msg))"
  have "store_message Q msg level now mt = Inr (True, to_io Q ?bs mt)"
    using log size by (simp add: store_message_def is_enabled_def log_message_eq)
  moreover have "length (c_str msg) < 2 ^ 15" using length_c_str [of msg] size by simp
  from parse_log_frame [OF stored_self this st] have "\<exists>ps'. parse stk ?bs 0 ps = Inr (ps', True) \<and>
     log_calls ps' = log_calls ps @ [\<lparr>ml_level = level_code level, ml_timestamp = now, ml_msg = c_str msg\<rparr>]"
    by (auto simp: Let_def)
  ultimately show ?thesis using conc_queue.to_io_content [OF Q] log by auto
qed

theorem store_message_delivers_witness:
  "\<exists>mt' bs ps'. store_message list_queue ''hi'' Info 9 sample_mt = Inr (True, mt') \<and>
     log_queue mt' = log_queue sample_mt @ [bs] \<and>
     parse 1 bs 0 (sample_parser\<lparr>p_state := STATE_DEFINITION_OR_DATA\<rparr>) = Inr (ps', True) \<and>
     log_calls ps' = log_calls (sample_parser\<lparr>p_state := STATE_DEFINITION_OR_DATA\<rparr>) @
       [\<lparr>ml_level = level_code Info, ml_timestamp = 9, ml_msg = c_str ''hi''\<rparr>]"
  by (rule store_message_delivers [OF fifo.conc_queue_axioms]) (simp_all add: sample_defs)

text \<open>The header and the flags that \<open>init\<close> puts at the start of the stream bring a new parser to
  the state that accepts definitions, with the start time of the log.\<close>

theorem header_and_flags_open_stream:
  assumes Q: "conc_queue Q content" and log: "with_local_log mt"
  shows "\<exists>mt' h b. create_header_and_flags Q mt = (True, mt') \<and>
     content (log_queue mt') = content (log_queue mt) @ [h, b] \<and>
     bindE (parse stk h 0 new_parser) (\<lambda>(ps, _). parse stk b 0 ps) =
       Inr (new_parser\<lparr>start_time := start_timestamp mt, p_state := STATE_DEFINITION\<rparr>, True)"
proof -
  let ?h = "header_message (start_timestamp mt)"
  have "create_header_and_flags Q mt = (True, to_io Q flags_message (to_io Q ?h mt))"
    using log by (simp add: create_header_and_flags_def is_enabled_def)
  moreover have "bindE (parse stk ?h 0 new_parser) (\<lambda>(ps, _). parse stk flags_message 0 ps) =
       Inr (new_parser\<lparr>start_time := start_timestamp mt, p_state := STATE_DEFINITION\<rparr>, True)"
    using parse_header_message [OF stored_self, of new_parser stk "start_timestamp mt"]
      parse_flags_message [OF stored_self, of "new_parser\<lparr>start_time := start_timestamp mt, p_state := STATE_FLAGS\<rparr>" stk]
    by (simp add: new_parser_def)
  ultimately show ?thesis using conc_queue.to_io_content [OF Q] log by auto
qed

theorem header_and_flags_open_stream_witness:
  "\<exists>mt' h b. create_header_and_flags list_queue sample_mt = (True, mt') \<and>
     log_queue mt' = log_queue sample_mt @ [h, b] \<and>
     bindE (parse 1 h 0 new_parser) (\<lambda>(ps, _). parse 1 b 0 ps) =
       Inr (new_parser\<lparr>start_time := start_timestamp sample_mt, p_state := STATE_DEFINITION\<rparr>, True)"
  by (rule header_and_flags_open_stream [OF fifo.conc_queue_axioms]) (simp add: sample_defs)

end
