(* ===== verification/Samples.thy ===== *)
theory Samples
  imports Session Startup Telemetry_Claims
begin

text \<open>
  A small application, for the places where a property is applied to concrete input: a started
  object that writes to a file, one that streams, and a session with a format, a record and a string.
\<close>

text \<open>A configuration that asks for a local log in the current directory.\<close>

definition log_config :: muconfig where
  "log_config = \<lparr>is_ok = True, get_bool = (\<lambda>k. if k = ''mutelemetry.with_local_log'' then Some (Some True) else None),
     get_string = (\<lambda>_. None)\<rparr>"

definition started_mt :: "byte list list mu_telemetry" where
  "started_mt = (case init list_queue (\<lambda>_. ''2020'') (Some log_config) True 5 True True (new_mu_telemetry []) of
     Inr (_, mt) \<Rightarrow> mt | Inl _ \<Rightarrow> new_mu_telemetry [])"

lemma started_mt_init:
  "init list_queue (\<lambda>_. ''2020'') (Some log_config) True 5 True True (new_mu_telemetry []) = Inr (True, started_mt)"
  "with_local_log started_mt"
proof -
  have "\<exists>mt. init list_queue (\<lambda>_. ''2020'') (Some log_config) True 5 True True (new_mu_telemetry []) = Inr (True, mt) \<and>
      with_local_log mt"
    by (simp add: init_def read_config_def log_config_def config_value_def init_network_def init_local_log_def
        init_logger_def new_mu_telemetry_def new_logger_def open_file_def Let_def is_enabled_def
        create_header_and_flags_def)
  then show "init list_queue (\<lambda>_. ''2020'') (Some log_config) True 5 True True (new_mu_telemetry []) = Inr (True, started_mt)"
    "with_local_log started_mt"
    by (auto simp: started_mt_def)
qed

text \<open>The same for the network.\<close>

definition net_config :: muconfig where
  "net_config = \<lparr>is_ok = True, get_bool = (\<lambda>k. if k = ''mutelemetry.with_network'' then Some (Some True) else None),
     get_string = (\<lambda>_. None)\<rparr>"

definition started_net :: "byte list list mu_telemetry" where
  "started_net = (case init list_queue (\<lambda>_. ''2020'') (Some net_config) True 5 True True (new_mu_telemetry []) of
     Inr (_, mt) \<Rightarrow> mt | Inl _ \<Rightarrow> new_mu_telemetry [])"

lemma started_net_init:
  "init list_queue (\<lambda>_. ''2020'') (Some net_config) True 5 True True (new_mu_telemetry []) = Inr (True, started_net)"
  "with_network started_net"
proof -
  have "\<exists>mt. init list_queue (\<lambda>_. ''2020'') (Some net_config) True 5 True True (new_mu_telemetry []) = Inr (True, mt) \<and>
      with_network mt"
    by (simp add: init_def read_config_def net_config_def config_value_def init_network_def init_local_log_def
        init_streamer_def new_mu_telemetry_def new_streamer_def Let_def is_enabled_def create_header_and_flags_def)
  then show "init list_queue (\<lambda>_. ''2020'') (Some net_config) True 5 True True (new_mu_telemetry []) = Inr (True, started_net)"
    "with_network started_net"
    by (auto simp: started_net_def)
qed

text \<open>A session: a format with one byte, a record of it, a string.\<close>

definition sample_calls :: "api_call list" where
  "sample_calls = [Reg_Format ''T'' (fields_text ([] @ [sample_field])),
     Store_Data (replicate 8 0 @ [7]) ''T'' [] 6, Store_Message ''hi'' Info 9]"

definition sample_view :: view where
  "sample_view = (empty_view 5)\<lparr>v_formats := [''T'' \<mapsto> read_back ''T'' [] sample_field], v_used := [(''T'', [])],
     v_data := [\<lparr>md_name = ''T'', md_timestamp = 6, structured_data = [(''/a'' @ [NUL], double_of_int 7)]\<rparr>],
     v_logs := [\<lparr>ml_level = level_code Info, ml_timestamp = 9, ml_msg = ''hi''\<rparr>]\<rparr>"

lemma sample_session: "session 0 sample_calls (empty_view 5) sample_view"
proof -
  let ?f = "sample_field\<lparr>field_name := field_name sample_field @ [NUL]\<rparr>"
  let ?v1 = "(empty_view 5)\<lparr>v_formats := (v_formats (empty_view 5))(''T'' \<mapsto> read_back ''T'' [] sample_field)\<rparr>"
  let ?u = "?v1\<lparr>v_used := v_used ?v1 @ [(''T'', [])]\<rparr>"
  let ?v2 = "?u\<lparr>v_data := v_data ?v1 @ [\<lparr>md_name = heard_name (inst_id ?u) ?u ''T'', md_timestamp = 6,
               structured_data = zip (map fst [(''/'' @ field_name ?f, [] :: double list)]) [double_of_int (uint (7 :: byte))]\<rparr>]\<rparr>"
  have fields: "fmt_fields (read_back ''T'' [] sample_field) = [?f]" by (simp add: read_back_def)
  have f: "field_type ?f = UINT8" "array_size ?f = 1" "\<not> is_padding ?f"
    by (simp_all add: sample_field_def is_padding_def starts_with_def NUL_def)
  have "heard 0 (Reg_Format ''T'' (fields_text ([] @ [sample_field]))) (empty_view 5) ?v1"
    by (rule heard_format [OF _ _ _ declares_fields_text])
      (simp_all add: empty_view_def NUL_def sample_field_def field_ok_def plain_def format_text_def fields_text_def
        sections_text_def field_text_def array_text_def)
  moreover have "heard 0 (Store_Data (replicate 8 0 @ [7]) ''T'' [] 6) ?v1 ?v2"
    by (rule heard_record [where fmt = "read_back ''T'' [] sample_field"])
      (simp_all only: fields one_byte_conf [OF f] one_byte_channel [OF f], simp_all add: empty_view_def types_def)
  moreover have "heard 0 (Store_Message ''hi'' Info 9) ?v2 sample_view"
    unfolding heard_message_iff
    by (simp add: sample_view_def empty_view_def heard_name_seq instances_def sample_field_def c_str_def NUL_def)
  ultimately show ?thesis unfolding sample_calls_def session.simps by blast
qed

definition sample_net :: "byte list list mu_telemetry" where
  "sample_net = (case foldE (api_run list_queue) sample_calls started_net of Inr mt \<Rightarrow> mt | Inl _ \<Rightarrow> started_net)"

lemma sample_net_sent: "foldE (api_run list_queue) sample_calls started_net = Inr sample_net"
proof -
  have on: "is_enabled started_net" using started_net_init(2) by (simp add: is_enabled_def)
  note start = init_starts(3,4) [OF fifo.conc_queue_axioms refl started_net_init(1) on]
  obtain mt where "foldE (api_run list_queue) sample_calls started_net = Inr mt"
    using fifo.session_refined [OF sample_session ids_track_empty [OF start] on] by blast
  then show ?thesis by (simp add: sample_net_def)
qed

lemma sample_net_small: "list_all (\<lambda>m. length m \<le> 249) (net_queue sample_net)"
  by code_simp

lemma sample_net_short: "length (net_queue sample_net) \<le> 249"
  by code_simp

end
