(* ===== verification/Streamer_Calm.thy ===== *)
theory Streamer_Calm
  imports Streamer_Props
begin

text \<open>
  Turns: a handler or a loop iteration that runs from its load of \<open>state_\<close> to its exchange
  with nothing between. Such runs never fail, whatever their order, as long as commands name
  valid targets and definitions fit the data field; the ways a run can fail without these
  are shown beside.
\<close>

datatype turn =
  T_Enqueue "byte list" | T_Sync | T_Discard | T_Main_Begin | T_Main "nat \<Rightarrow> byte" | T_Post
| T_Ack "16 word" | T_Cmd command_long sparse_address

fun turn_events :: "turn \<Rightarrow> event list" where
  "turn_events (T_Enqueue bs) = [Enqueue bs]"
| "turn_events T_Sync = [Sync_Load, Sync_Act]"
| "turn_events T_Discard = [Discard]"
| "turn_events T_Main_Begin = [Main_Begin]"
| "turn_events (T_Main junk) = [Main_One junk]"
| "turn_events T_Post = [Post]"
| "turn_events (T_Ack sq) = [Ack_Load sq, Ack_Commit]"
| "turn_events (T_Cmd lc sa) = [Cmd_Load lc sa, Cmd_Commit]"

definition turn_step :: "'q cq_ops \<Rightarrow> nat \<Rightarrow> turn \<Rightarrow> 'q sys \<Rightarrow> 'q sys res" where
  "turn_step Q fld t s = foldE (sys_step Q fld) (turn_events t) s"

lemma turns_are_events: "foldE (turn_step Q fld) ts s = foldE (sys_step Q fld) (concat (map turn_events ts)) s"
  by (induction ts arbitrary: s) (auto simp: turn_step_def foldE_append intro!: bindE_cong)

text \<open>What a message on the network queue looks like: a definition fits the field.\<close>

definition queue_msg_ok :: "nat \<Rightarrow> byte list \<Rightarrow> bool" where
  "queue_msg_ok fld bs \<longleftrightarrow> 3 \<le> length bs \<and> (bs ! 2 \<noteq> 65 \<longrightarrow> length bs \<le> fld)"

fun turn_fits :: "nat \<Rightarrow> turn \<Rightarrow> bool" where
  "turn_fits fld (T_Enqueue bs) = queue_msg_ok fld bs"
| "turn_fits fld (T_Cmd lc sa) \<longleftrightarrow>
     (lc_command lc = LOGGING_START \<longrightarrow> (ucast (group_id sa) :: byte) \<noteq> 0 \<and> (ucast (instance_id sa) :: byte) \<noteq> 0)"
| "turn_fits fld _ = True"

definition strm_calm :: "nat \<Rightarrow> sync_pc \<Rightarrow> streamer \<Rightarrow> bool" where
  "strm_calm fld pc st \<longleftrightarrow> st_roster st \<and> st_queue st \<noteq> None \<and>
     (st_state st \<noteq> STATE_INIT \<longrightarrow> target_system st \<noteq> 0 \<and> target_component st \<noteq> 0 \<or> pc = Synced) \<and>
     (\<forall>d \<in> set (definitions st). length d \<le> fld) \<and>
     (pc = Synced \<longrightarrow> st_state st \<in> {STATE_RUNNING, STATE_STOPPED})"

lemma strm_calm_frame [simp]:
  "strm_calm fld pc (st\<lparr>skip_cntr := x\<rparr>) = strm_calm fld pc st"
  "strm_calm fld pc (st\<lparr>send_cntr := x\<rparr>) = strm_calm fld pc st"
  "strm_calm fld pc (st\<lparr>sync_timeout := t\<rparr>) = strm_calm fld pc st"
  "strm_calm fld pc (st\<lparr>posted := p\<rparr>) = strm_calm fld pc st"
  "strm_calm fld pc (st\<lparr>sent := m\<rparr>) = strm_calm fld pc st"
  "strm_calm fld pc (st\<lparr>discarding := d\<rparr>) = strm_calm fld pc st"
  "strm_calm fld pc (st\<lparr>seq_no := n\<rparr>) = strm_calm fld pc st"
  by (simp_all add: strm_calm_def)

text \<open>The second loop never fails in a state it can be in.\<close>

lemma set_state_or_die_same [simp]: "set_state_or_die (st_state st) new st = Inr (st\<lparr>st_state := new\<rparr>)"
  by (simp add: set_state_or_die_Inr)

lemma sync_act_calm:
  assumes calm: "strm_calm fld Sending st" and state: "st_state st \<le> STATE_ACK_WAIT"
    and more: "seq_no st < length (definitions st)"
  obtains st' where "sync_act fld (st_state st) st = Inr st'" and "strm_calm fld Sending st'"
proof -
  let ?s = "st\<lparr>sent := sent st @ [(definition_msg st, ucast (target_system st), ucast (target_component st))],
              sync_timeout := 0, st_state := STATE_ACK_WAIT\<rparr>"
  have send: "send_definition fld (st_state st) st = Inr ?s"
    using calm more by (simp add: send_definition_Inr strm_calm_def)
  have send_calm: "strm_calm fld Sending ?s" if "st_state st \<noteq> STATE_INIT"
    using calm that by (simp add: strm_calm_def)
  show thesis
  proof (cases "st_state st")
    case STATE_CONNECTED
    with send send_calm calm that show thesis by (auto simp: sync_act_def strm_calm_def)
  next
    case STATE_SEND_DEF
    with send send_calm that show thesis by (auto simp: sync_act_def)
  next
    case STATE_RESEND_DEF
    with send send_calm that show thesis by (auto simp: sync_act_def)
  next
    case STATE_ACK_RECV
    with calm that [of "st\<lparr>st_state := STATE_SEND_DEF, seq_no := seq_no st + 1\<rparr>"] show thesis
      by (auto simp: sync_act_def set_state_or_die_def set_state_def strm_calm_def)
  next
    case STATE_ACK_WAIT
    let ?t = "st\<lparr>sync_timeout := sync_timeout st + 50\<rparr>"
    show thesis
    proof (cases "sync_timeout st + 50 = 1000")
      case True
      with STATE_ACK_WAIT calm that [of "?t\<lparr>st_state := STATE_RESEND_DEF\<rparr>"] show thesis
        by (auto simp: sync_act_def set_state_or_die_def set_state_def strm_calm_def)
    next
      case False
      with STATE_ACK_WAIT calm that [of ?t] show thesis by (auto simp: sync_act_def)
    qed
  next
    case STATE_INIT
    with calm that [of st] show thesis by (auto simp: sync_act_def)
  qed (use state in \<open>simp_all add: less_eq_streamer_state_def\<close>)
qed

lemma rd_u8_nth: "p < length mem \<Longrightarrow> rd_le (Suc 0) mem p = Inr (mem ! p :: byte)"
  by (auto simp: rd_le_def rd_def dec_le_def take_Suc hd_drop_conv_nth)

lemma type_of_code_A: "type_of_code b = Some Type_A \<longleftrightarrow> b = 65"
  by (auto simp: type_of_code_def all_types_def split: if_splits)

lemma check_ulog_data_begin_at: "3 \<le> length x \<Longrightarrow> check_ulog_data_begin x 0 = Inr (x ! 2 = 65)"
  by (simp add: check_ulog_data_begin_def hdr_type_def rd_u8_nth type_of_code_A numeral_2_eq_2)

definition sys_calm :: "('q \<Rightarrow> byte list list) \<Rightarrow> nat \<Rightarrow> 'q sys \<Rightarrow> bool" where
  "sys_calm content fld s \<longleftrightarrow> sys_ok s \<and> strm_calm fld (sync_at s) (strm s) \<and> sync_loaded s = None \<and>
     acks s = [] \<and> cmds s = [] \<and> (\<forall>bs \<in> set (content (net s)). queue_msg_ok fld bs)"

context conc_queue
begin

lemma collect_step_calm:
  assumes calm: "strm_calm fld Collecting st" and msgs: "\<forall>bs \<in> set (content q). queue_msg_ok fld bs"
  obtains pc st' q' where "collect_step Q st q = Inr (pc, st', q')" and "strm_calm fld pc st'"
    and "\<forall>bs \<in> set (content q'). queue_msg_ok fld bs" and "pc \<noteq> Synced"
proof (cases "cq_empty Q q")
  case True
  with assms that [of Collecting st q] show thesis by (auto simp: collect_step_def strm_calm_def)
next
  case False
  then obtain x xs q1 where c: "content q = x # xs" and f: "cq_front Q q = Some x"
    and d: "cq_dequeue Q q = (Some x, q1)" and c1: "content q1 = xs" by (rule dequeue_cases)
  have x: "3 \<le> length x" "x ! 2 \<noteq> 65 \<Longrightarrow> length x \<le> fld" using msgs c by (auto simp: queue_msg_ok_def)
  have cb: "check_ulog_data_begin x 0 = Inr (x ! 2 = 65)"
    using x(1) check_ulog_data_begin_at by simp
  show thesis
  proof (cases "x ! 2 = 65")
    case True
    with False f cb calm msgs that [of Sending "st\<lparr>discarding := True\<rparr>" q] show thesis
      by (auto simp: collect_step_def strm_calm_def)
  next
    case more: False
    with False f d cb calm msgs c c1 x that [of Collecting "st\<lparr>definitions := definitions st @ [x]\<rparr>" q1]
    show thesis by (auto simp: collect_step_def strm_calm_def)
  qed
qed

text \<open>What one turn leaves of everything but \<open>sys_ok\<close>, which every event keeps.\<close>

lemma turn_sync_calm:
  assumes calm: "sys_calm content fld s"
  obtains s' where "turn_step Q fld T_Sync s = Inr s'" and "strm_calm fld (sync_at s') (strm s')"
    and "sync_loaded s' = None" and "acks s' = []" and "cmds s' = []"
    and "\<forall>bs \<in> set (content (net s')). queue_msg_ok fld bs"
proof -
  have ok: "sys_ok s" and st: "strm_calm fld (sync_at s) (strm s)" and idle: "sync_loaded s = None"
    "acks s = []" "cmds s = []" and msgs: "\<forall>bs \<in> set (content (net s)). queue_msg_ok fld bs"
    using calm by (simp_all add: sys_calm_def)
  show thesis
  proof (cases "sync_at s")
    case Collecting
    with st obtain pc st' q' where "collect_step Q (strm s) (net s) = Inr (pc, st', q')"
      "strm_calm fld pc st'" "\<forall>bs \<in> set (content q'). queue_msg_ok fld bs"
      using collect_step_calm msgs by metis
    with Collecting idle that [of "s\<lparr>strm := st', net := q', sync_at := pc\<rparr>"] show thesis
      by (simp add: turn_step_def sys_step_def sync_load_def sync_commit_def)
  next
    case Sending
    with ok have hs: "handshake_ok Sending (strm s)" by (simp add: sys_ok_iff)
    then have le: "st_state (strm s) \<le> STATE_ACK_WAIT" by (simp add: handshake_ok_def)
    show thesis
    proof (cases "seq_no (strm s) < length (definitions (strm s))")
      case True
      obtain st' where "sync_act fld (st_state (strm s)) (strm s) = Inr st'" "strm_calm fld Sending st'"
        using sync_act_calm [OF st [unfolded Sending] le True] by metis
      with Sending idle msgs True that [of "s\<lparr>strm := st', sync_loaded := None\<rparr>"] show thesis
        by (simp add: turn_step_def sys_step_def sync_load_def sync_commit_def)
    next
      case False
      with Sending idle msgs st
        that [of "s\<lparr>strm := (strm s)\<lparr>st_state := STATE_RUNNING, st_running := True\<rparr>, sync_loaded := None,
                  sync_at := Synced\<rparr>"]
      show thesis
        by (simp add: turn_step_def sys_step_def sync_load_def sync_commit_def set_state_def strm_calm_def)
    qed
  next
    case Synced
    with st idle msgs that [of s] show thesis
      by (simp add: turn_step_def sys_step_def sync_load_def sync_commit_def)
  qed
qed

lemma stream_one_calm:
  assumes calm: "strm_calm fld pc st" and ne: "\<not> cq_empty Q q"
  obtains st' q' where "stream_one Q fld state junk st q = Inr (st', q')" and "strm_calm fld pc st'"
    and "set (content q') \<subseteq> set (content q)"
proof -
  from ne obtain x xs q1 where c: "content q = x # xs" and d: "cq_dequeue Q q = (Some x, q1)"
    and c1: "content q1 = xs" by (rule dequeue_cases)
  have roster: "st_roster st" using calm by (simp add: strm_calm_def)
  show thesis
  proof (cases "state = STATE_STOPPED \<or> fld < length x")
    case True
    with d c c1 calm show thesis
      by (intro that [of "st\<lparr>skip_cntr := skip_cntr st + 1\<rparr>" q1]) (auto simp: stream_one_def send_ulog_def)
  next
    case False
    with d c c1 calm roster have "\<exists>st'. stream_one Q fld state junk st q = Inr (st', q1) \<and> strm_calm fld pc st'"
      by (auto simp: stream_one_def send_ulog_def memcpy_at_def)
    with c c1 that [of _ q1] show thesis by auto
  qed
qed

lemma commit_command_calm:
  assumes calm: "strm_calm fld pc st" and at: "st_state st = state"
    and new: "new \<noteq> STATE_UNKNOWN \<longrightarrow> strm_calm fld pc (st\<lparr>st_state := new\<rparr>)"
  obtains st' where "commit_command lc sa state new st = Inr st'" and "strm_calm fld pc st'"
proof -
  define st1 where "st1 = (if new \<noteq> STATE_UNKNOWN then st\<lparr>st_state := new\<rparr> else st)"
  have st1: "strm_calm fld pc st1" using calm new by (simp add: st1_def)
  have "(if new \<noteq> STATE_UNKNOWN then set_state_or_die state new st else Inr st) = Inr st1"
    using at by (auto simp: st1_def set_state_or_die_Inr)
  moreover have "st_roster st1" using st1 by (simp add: strm_calm_def)
  ultimately show thesis using st1
    by (cases "lc_confirmation lc = 0") (auto intro!: that simp: commit_command_def sendmavmsg_def)
qed

lemma sys_calm_strm:
  assumes "sys_calm content fld s" and "strm_calm fld (sync_at s) st'" and "set (content q') \<subseteq> set (content (net s))"
    and "sys_ok (s\<lparr>strm := st', net := q'\<rparr>)"
  shows "sys_calm content fld (s\<lparr>strm := st', net := q'\<rparr>)"
  using assms by (auto simp: sys_calm_def)

lemma turn_step_ok: "sys_ok s \<Longrightarrow> turn_step Q fld t s = Inr s' \<Longrightarrow> sys_ok s'"
  unfolding turn_step_def by (rule streamer_machine.run_inv)

lemma sys_calm_turnI:
  assumes calm: "sys_calm content fld s" and step: "turn_step Q fld t s = Inr s'"
    and "strm_calm fld (sync_at s') (strm s')" and "sync_loaded s' = None" and "acks s' = []" and "cmds s' = []"
    and "\<forall>bs \<in> set (content (net s')). queue_msg_ok fld bs"
  shows "\<exists>s'. turn_step Q fld t s = Inr s' \<and> sys_calm content fld s'"
  using turn_step_ok [OF _ step] assms by (auto simp: sys_calm_def)

lemma turn_cmd_calm:
  assumes calm: "sys_calm content fld s" and fits: "turn_fits fld (T_Cmd lc sa)"
  shows "\<exists>s'. turn_step Q fld (T_Cmd lc sa) s = Inr s' \<and> sys_calm content fld s'"
proof (cases "lc_command lc \<noteq> LOGGING_START \<and> lc_command lc \<noteq> LOGGING_STOP")
  case True
  with calm show ?thesis
    by (intro sys_calm_turnI [OF calm, of _ s])
      (auto simp: turn_step_def sys_step_def cmd_load_def sys_calm_def)
next
  case False
  let ?st = "strm s"
  obtain new st1 where d: "decide_command lc sa (st_state ?st) ?st = (new, st1)" by fastforce
  have ok: "sys_ok s" and st: "strm_calm fld (sync_at s) ?st" and idle: "sync_loaded s = None"
    "acks s = []" "cmds s = []" and msgs: "\<forall>bs \<in> set (content (net s)). queue_msg_ok fld bs"
    using calm by (simp_all add: sys_calm_def)
  have hs: "handshake_ok (sync_at s) ?st" using ok by (simp add: sys_ok_iff)
  have same: "st_state st1 = st_state ?st" using d by (auto simp: decide_command_def split: if_splits)
  have st1: "strm_calm fld (sync_at s) st1"
    using d st by (auto simp: decide_command_def strm_calm_def split: if_splits)
  have new: "new \<noteq> STATE_UNKNOWN \<longrightarrow> strm_calm fld (sync_at s) (st1\<lparr>st_state := new\<rparr>)"
    using d st fits hs
    by (auto simp: decide_command_def strm_calm_def handshake_ok_def less_eq_streamer_state_def
        split: if_splits sync_pc.splits)
  obtain st' where c: "commit_command lc sa (st_state ?st) new st1 = Inr st'"
    and st': "strm_calm fld (sync_at s) st'"
    using commit_command_calm [OF st1 same new] by metis
  show ?thesis
  proof (rule sys_calm_turnI [OF calm])
    show "turn_step Q fld (T_Cmd lc sa) s = Inr (s\<lparr>strm := st', cmds := []\<rparr>)"
      using False d c idle by (auto simp: turn_step_def sys_step_def cmd_load_def Let_def)
  qed (use st' idle msgs in simp_all)
qed

lemma commit_ack_calm:
  assumes "strm_calm fld pc st" and "pc = Synced \<Longrightarrow> st_state st \<in> {STATE_RUNNING, STATE_STOPPED}"
  obtains st' where "commit_ack sq (st_state st) st = Inr st'" and "strm_calm fld pc st'"
proof (cases "st_state st = STATE_ACK_WAIT")
  case True
  let ?new = "if sq = word_of_nat (seq_no st) then STATE_ACK_RECV else STATE_RESEND_DEF"
  have "commit_ack sq (st_state st) st = Inr (st\<lparr>st_state := ?new\<rparr>)"
    using True by (auto simp: commit_ack_def set_state_or_die_Inr)
  moreover have "strm_calm fld pc (st\<lparr>st_state := ?new\<rparr>)"
    using True assms by (auto simp: strm_calm_def)
  ultimately show thesis by (rule that)
next
  case False
  with assms that [of st] show thesis by (simp add: commit_ack_def)
qed

theorem turn_calm:
  assumes calm: "sys_calm content fld s" and fits: "turn_fits fld t"
  shows "\<exists>s'. turn_step Q fld t s = Inr s' \<and> sys_calm content fld s'"
proof -
  let ?st = "strm s"
  have ok: "sys_ok s" and st: "strm_calm fld (sync_at s) ?st" and idle: "sync_loaded s = None"
    "acks s = []" "cmds s = []" and msgs: "\<forall>bs \<in> set (content (net s)). queue_msg_ok fld bs"
    using calm by (simp_all add: sys_calm_def)
  have hs: "handshake_ok (sync_at s) ?st" using ok by (simp add: sys_ok_iff)
  have dq: "st_queue ?st \<noteq> None" and roster: "st_roster ?st" using st by (simp_all add: strm_calm_def)
  note I = sys_calm_turnI [OF calm]
  show ?thesis
  proof (cases t)
    case (T_Enqueue bs)
    with fits msgs st idle show ?thesis
      by (intro I [of _ "s\<lparr>net := cq_enqueue Q bs (net s)\<rparr>"])
        (auto simp: turn_step_def sys_step_def enqueue_content)
  next
    case T_Sync
    obtain s' where "turn_step Q fld T_Sync s = Inr s'" "strm_calm fld (sync_at s') (strm s')"
      "sync_loaded s' = None" "acks s' = []" "cmds s' = []"
      "\<forall>bs \<in> set (content (net s')). queue_msg_ok fld bs"
      using turn_sync_calm [OF calm] by metis
    with T_Sync show ?thesis by (intro I [of _ s']) simp_all
  next
    case T_Discard
    show ?thesis
    proof (cases "\<not> discarding ?st \<or> st_running ?st")
      case True
      with T_Discard st idle msgs show ?thesis
        by (intro I [of _ s]) (auto simp: turn_step_def sys_step_def discard_step_def)
    next
      case False
      with T_Discard dq st idle msgs dequeue_subset [of "net s"] show ?thesis
        by (intro I [of _ "s\<lparr>strm := ?st\<lparr>skip_cntr := skip_cntr ?st + 1\<rparr>, net := snd (cq_dequeue Q (net s))\<rparr>"])
          (auto simp: turn_step_def sys_step_def discard_step_def)
    qed
  next
    case T_Main_Begin
    show ?thesis
    proof (cases "\<not> st_running ?st \<or> main_loaded s \<noteq> None")
      case True
      with T_Main_Begin st idle msgs show ?thesis
        by (intro I [of _ s]) (auto simp: turn_step_def sys_step_def main_begin_def)
    next
      case False
      with hs have "sync_at s = Synced" by (cases "sync_at s") (auto simp: handshake_ok_def)
      with False T_Main_Begin st idle msgs show ?thesis
        by (intro I [of _ "s\<lparr>main_loaded := Some (st_state ?st)\<rparr>"])
          (auto simp: turn_step_def sys_step_def main_begin_def strm_calm_def)
    qed
  next
    case (T_Main junk)
    show ?thesis
    proof (cases "main_loaded s")
      case None
      with T_Main st idle msgs show ?thesis
        by (intro I [of _ s]) (auto simp: turn_step_def sys_step_def main_one_def)
    next
      case (Some state)
      show ?thesis
      proof (cases "cq_empty Q (net s)")
        case True
        with Some dq T_Main st idle msgs show ?thesis
          by (intro I [of _ "s\<lparr>main_loaded := None\<rparr>"]) (auto simp: turn_step_def sys_step_def main_one_def)
      next
        case False
        obtain st' q' where one: "stream_one Q fld state junk ?st (net s) = Inr (st', q')"
          "strm_calm fld (sync_at s) st'" "set (content q') \<subseteq> set (content (net s))"
          using stream_one_calm [OF st False] by metis
        with Some False dq T_Main idle msgs show ?thesis
          by (intro I [of _ "s\<lparr>strm := st', net := q'\<rparr>"]) (auto simp: turn_step_def sys_step_def main_one_def)
      qed
    qed
  next
    case T_Post
    obtain st' where "run_posted ?st = Inr st'" "strm_calm fld (sync_at s) st'"
      using st roster by (cases "posted ?st") (auto simp: run_posted_def sendmavmsg_def)
    with T_Post idle msgs show ?thesis
      by (intro I [of _ "s\<lparr>strm := st'\<rparr>"]) (simp_all add: turn_step_def sys_step_def)
  next
    case (T_Ack sq)
    obtain st' where "commit_ack sq (st_state ?st) ?st = Inr st'" "strm_calm fld (sync_at s) st'"
      using commit_ack_calm [OF st] st by (auto simp: strm_calm_def)
    with T_Ack idle msgs show ?thesis
      by (intro I [of _ "s\<lparr>strm := st', acks := []\<rparr>"]) (simp_all add: turn_step_def sys_step_def)
  next
    case (T_Cmd lc sa)
    with turn_cmd_calm [OF calm] fits show ?thesis by simp
  qed
qed

lemma run_calm:
  "sys_calm content fld s \<Longrightarrow> \<forall>t \<in> set ts. turn_fits fld t \<Longrightarrow>
   \<exists>s'. foldE (turn_step Q fld) ts s = Inr s' \<and> sys_calm content fld s'"
proof (induction ts arbitrary: s)
  case Nil
  then show ?case by simp
next
  case (Cons t ts)
  then obtain s1 where "turn_step Q fld t s = Inr s1" "sys_calm content fld s1"
    using turn_calm by (metis list.set_intros(1))
  with Cons show ?case by (auto intro: list.set_intros(2))
qed

lemma sys_calm_new: "content q = [] \<Longrightarrow> sys_calm content fld (new_sys q)"
  using sys_ok_new [of q]
  by (simp add: sys_calm_def strm_calm_def new_sys_def new_streamer_def)

end

end
