(* ===== verification/Streamer_Flow.thy ===== *)
theory Streamer_Flow
  imports Streamer_Calm "HOL-Library.Sublist"
begin

text \<open>
  Where the messages of the network queue go. On every run they are split, in their order, into
  the definitions, which end before the first A message, the ones taken off afterwards, of which some are posted to
  the network and the others discarded, and the ones still in the queue.
\<close>

definition enqueued :: "event list \<Rightarrow> byte list list" where
  "enqueued evs = concat (map (\<lambda>ev. case ev of Enqueue bs \<Rightarrow> [bs] | _ \<Rightarrow> []) evs)"

lemma enqueued_simps [simp]:
  "enqueued [] = []"
  "enqueued (ev # evs) = (case ev of Enqueue bs \<Rightarrow> [bs] | _ \<Rightarrow> []) @ enqueued evs"
  by (simp_all add: enqueued_def)

text \<open>The data messages handed to the scheduler or already sent: as many bytes as the length field says.\<close>

fun data_payload :: "mav_msg \<Rightarrow> byte list list" where
  "data_payload (Logging_Data ts tc sq len first dt) = [take (unat len) dt]"
| "data_payload _ = []"

definition streamed :: "streamer \<Rightarrow> byte list list" where
  "streamed st = concat (map data_payload (map fst (sent st) @ posted st))"

lemma streamed_frame [simp]:
  "streamed (st\<lparr>st_state := a\<rparr>) = streamed st" "streamed (st\<lparr>sync_timeout := b\<rparr>) = streamed st"
  "streamed (st\<lparr>seq_no := c\<rparr>) = streamed st" "streamed (st\<lparr>discarding := d\<rparr>) = streamed st"
  "streamed (st\<lparr>st_running := d\<rparr>) = streamed st" "streamed (st\<lparr>definitions := ds\<rparr>) = streamed st"
  "streamed (st\<lparr>target_system := t, target_component := u\<rparr>) = streamed st"
  "streamed (st\<lparr>skip_cntr := x\<rparr>) = streamed st" "streamed (st\<lparr>send_cntr := x\<rparr>) = streamed st"
  "streamed (st\<lparr>posted := posted st @ [m]\<rparr>) = streamed st @ data_payload m"
  by (simp_all add: streamed_def)

lemma streamed_send: "data_payload m = [] \<Longrightarrow> streamed (st\<lparr>sent := sent st @ [(m, x)]\<rparr>) = streamed st"
  by (simp add: streamed_def)

section \<open>What a step leaves alone\<close>

definition flow_frame :: "streamer \<Rightarrow> streamer \<Rightarrow> bool" where
  "flow_frame st st' \<longleftrightarrow> definitions st' = definitions st \<and> streamed st' = streamed st \<and>
     (st_running st \<longrightarrow> st_running st')"

lemma flow_frame_refl [simp]: "flow_frame st st"
  by (simp add: flow_frame_def)

lemma sync_act_flow: "sync_act fld state st = Inr st' \<Longrightarrow> flow_frame st st'"
  by (auto simp: sync_act_def send_definition_Inr set_state_or_die_Inr bindE_eq_Inr flow_frame_def Let_def
      definition_msg_def streamed_send [simplified] streamed_def split: streamer_state.splits if_splits)

lemma commit_ack_flow: "commit_ack sq state st = Inr st' \<Longrightarrow> flow_frame st st'"
  by (auto simp: commit_ack_def set_state_or_die_Inr flow_frame_def Let_def split: if_splits)

lemma decide_command_flow: "flow_frame st (snd (decide_command lc sa state st))"
  by (auto simp: decide_command_def flow_frame_def)

lemma commit_command_flow: "commit_command lc sa state new st = Inr st' \<Longrightarrow> flow_frame st st'"
  by (auto simp: commit_command_def set_state_or_die_Inr sendmavmsg_Inr bindE_eq_Inr flow_frame_def streamed_def
      split: if_splits)

lemma run_posted_flow: "run_posted st = Inr st' \<Longrightarrow> flow_frame st st'"
  by (auto simp: run_posted_def sendmavmsg_Inr flow_frame_def streamed_def split: list.splits)

lemma set_state_flow: "flow_frame st ((snd (set_state a b st))\<lparr>st_running := True\<rparr>)"
  by (simp add: set_state_def flow_frame_def)

section \<open>The split of the queue\<close>

text \<open>Whether the streamer takes a message for the beginning of the data.\<close>

definition begins :: "byte list \<Rightarrow> bool res" where
  "begins m = check_ulog_data_begin m 0"

text \<open>\<open>gone\<close> was taken off after the definitions, \<open>rest\<close> is still there.\<close>

definition started :: "sync_pc \<Rightarrow> byte list list \<Rightarrow> byte list list \<Rightarrow> bool" where
  "started pc gone rest \<longleftrightarrow>
     (if pc = Collecting then gone = [] else gone @ rest \<noteq> [] \<and> begins (hd (gone @ rest)) = Inr True)"

lemma started_enqueue: "started pc gone rest \<Longrightarrow> started pc gone (rest @ [x])"
  by (auto simp: started_def hd_append split: if_splits)

lemma started_take: "started pc gone (x # xs) \<Longrightarrow> pc \<noteq> Collecting \<Longrightarrow> started pc (gone @ [x]) xs"
  by (simp add: started_def)

lemma started_pc: "pc \<noteq> Collecting \<Longrightarrow> pc' \<noteq> Collecting \<Longrightarrow> started pc' = started pc"
  by (simp add: started_def fun_eq_iff)

definition flow :: "('q \<Rightarrow> byte list list) \<Rightarrow> byte list list \<Rightarrow> 'q sys \<Rightarrow> bool" where
  "flow content ms s \<longleftrightarrow>
     (\<exists>gone. ms = definitions (strm s) @ gone @ content (net s) \<and>
        (\<forall>m \<in> set (definitions (strm s)). begins m = Inr False) \<and> subseq (streamed (strm s)) gone \<and>
        started (sync_at s) gone (content (net s))) \<and>
     (main_loaded s \<noteq> None \<longrightarrow> st_running (strm s))"

lemma flow_strm:
  assumes "flow content ms s" and "flow_frame (strm s) st" and "content q = content (net s)"
    and "sync_at s = pc \<or> sync_at s \<noteq> Collecting \<and> pc \<noteq> Collecting"
  shows "flow content ms (s\<lparr>strm := st, net := q, sync_at := pc, sync_loaded := l, acks := as, cmds := cs\<rparr>)"
  using assms started_pc [of pc "sync_at s"] by (auto simp: flow_def flow_frame_def)

lemma flow_new: "content q = [] \<Longrightarrow> flow content [] (new_sys q)"
  by (simp add: flow_def new_sys_def new_streamer_def streamed_def started_def)

lemma flow_main: "flow content ms s \<Longrightarrow> st_running (strm s) \<or> l = None \<Longrightarrow> flow content ms (s\<lparr>main_loaded := l\<rparr>)"
  by (auto simp: flow_def)

text \<open>One message leaves the queue, posted or not.\<close>

lemma flow_take:
  assumes flow: "flow content ms s" and st: "definitions st = definitions (strm s)" "st_running st = st_running (strm s)"
    and data: "streamed st = streamed (strm s) \<or> streamed st = streamed (strm s) @ [x]"
    and q: "content (net s) = x # xs" "content q = xs" and at: "sync_at s \<noteq> Collecting"
  shows "flow content ms (s\<lparr>strm := st, net := q\<rparr>)"
proof -
  obtain gone where g: "ms = definitions (strm s) @ gone @ content (net s)" "subseq (streamed (strm s)) gone"
    "\<forall>m \<in> set (definitions (strm s)). begins m = Inr False" "started (sync_at s) gone (content (net s))"
    using flow by (auto simp: flow_def)
  have "subseq (streamed st) (gone @ [x])"
    using data g(2) list_emb_append_mono [of "(=)" "streamed (strm s)" gone "[x]" "[x]"]
    by (auto intro: subseq_order.trans)
  moreover have "started (sync_at s) (gone @ [x]) (content q)"
    using started_take g(4) at q by simp
  ultimately show ?thesis
    using flow g(1,3) q st unfolding flow_def by (intro conjI exI [of _ "gone @ [x]"]) auto
qed

lemma flow_split:
  assumes "flow content ms s"
  shows "prefix (definitions (strm s)) ms" and "subseq (streamed (strm s)) (drop (length (definitions (strm s))) ms)"
    and "sync_at s \<noteq> Collecting \<Longrightarrow> definitions (strm s) = takeWhile (\<lambda>m. begins m \<noteq> Inr True) ms"
    and "sync_at s \<noteq> Collecting \<Longrightarrow> ms \<noteq> definitions (strm s)"
proof -
  obtain gone where ms: "ms = definitions (strm s) @ gone @ content (net s)"
    and defs: "\<forall>m \<in> set (definitions (strm s)). begins m = Inr False"
    and sub: "subseq (streamed (strm s)) gone" and st: "started (sync_at s) gone (content (net s))"
    using assms by (auto simp: flow_def)
  show "prefix (definitions (strm s)) ms" by (simp add: ms)
  show "subseq (streamed (strm s)) (drop (length (definitions (strm s))) ms)"
    using subseq_rev_drop_many [OF sub] by (simp add: ms)
  show "definitions (strm s) = takeWhile (\<lambda>m. begins m \<noteq> Inr True) ms" "ms \<noteq> definitions (strm s)"
    if "sync_at s \<noteq> Collecting"
    using st defs that by (cases "gone @ content (net s)"; simp add: ms started_def takeWhile_append)+
qed

text \<open>
  The ground station drops an acknowledged message that repeats the one before. What is left
  is every definition once.
\<close>

definition kept :: "streamer \<Rightarrow> byte list list" where
  "kept st = map snd (remdups_adj (sent_definitions st))"

lemma remdups_adj_steps:
  assumes "remdups_adj ks = [0..<n]" and "\<And>k. f (Suc k) \<noteq> f k"
  shows "remdups_adj (map f ks) = map f [0..<n]"
  using assms(1)
proof (induction ks arbitrary: n rule: rev_induct)
  case Nil
  then show ?case by simp
next
  case (snoc k ks)
  show ?case
  proof (cases "ks \<noteq> [] \<and> last ks = k")
    case True
    with snoc show ?thesis by (simp add: remdups_adj_snoc last_map)
  next
    case False
    with snoc.prems have "remdups_adj ks @ [k] = [0..<n]" by (simp add: remdups_adj_snoc)
    then obtain m where n: "n = Suc m" "k = m" "remdups_adj ks = [0..<m]" by (cases n) auto
    have "f (last ks) \<noteq> f k" if "ks \<noteq> []"
    proof -
      have "remdups_adj ks \<noteq> []" using that by simp
      then obtain j where m: "m = Suc j" using n(3) by (cases m) auto
      then have "last ks = j" using n(3) last_remdups_adj [of ks] by simp
      then show ?thesis using assms(2) [of j] by (simp add: n(2) m)
    qed
    with snoc.IH [OF n(3)] n(1,2) False show ?thesis by (auto simp: remdups_adj_snoc last_map)
  qed
qed

lemma kept_definitions:
  assumes "sent_upto (length (definitions st)) st"
  shows "kept st = definitions st"
proof -
  let ?f = "\<lambda>k. (word_of_nat k :: 16 word, definitions st ! k)"
  obtain ks where "sent_definitions st = map ?f ks" "remdups_adj ks = [0..<length (definitions st)]"
    using assms unfolding sent_upto_def by blast
  then have "remdups_adj (sent_definitions st) = map ?f [0..<length (definitions st)]"
    using remdups_adj_steps [of ks _ ?f] by simp
  then show ?thesis by (simp add: kept_def map_nth o_def)
qed

context conc_queue
begin

lemma collect_flow:
  assumes flow: "flow content ms s" and at: "sync_at s = Collecting"
    and step: "collect_step Q (strm s) (net s) = Inr (pc, st, q)"
  shows "flow content ms (s\<lparr>strm := st, net := q, sync_at := pc\<rparr>)"
proof (cases "cq_empty Q (net s)")
  case True
  with step have "st = strm s" "q = net s" "pc = Collecting" by (auto simp: collect_step_def bindE_eq_Inr)
  with flow_strm [OF flow flow_frame_refl refl, of Collecting "cmds s" "acks s" "sync_loaded s"] at
  show ?thesis by simp
next
  case False
  then obtain x xs q' where c: "content (net s) = x # xs" "cq_front Q (net s) = Some x"
    "cq_dequeue Q (net s) = (Some x, q')" "content q' = xs" by (rule dequeue_cases)
  show ?thesis
  proof (cases "pc = Collecting")
    case True
    with step False c have "begins x = Inr False" "st = (strm s)\<lparr>definitions := definitions (strm s) @ [x]\<rparr>" "q = q'"
      by (auto simp: collect_step_def bindE_eq_Inr begins_def Let_def split: if_splits)
    with flow at c True show ?thesis by (auto simp: flow_def started_def)
  next
    case sending: False
    with step False c have "begins x = Inr True" "st = (strm s)\<lparr>discarding := True\<rparr>" "q = net s"
      by (auto simp: collect_step_def bindE_eq_Inr begins_def Let_def split: if_splits)
    with flow at c sending show ?thesis by (auto simp: flow_def started_def)
  qed
qed

lemma discard_flow:
  assumes flow: "flow content ms s" and ok: "sys_ok s" and step: "discard_step Q (strm s) (net s) = Inr (st, q)"
  shows "flow content ms (s\<lparr>strm := st, net := q\<rparr>)"
proof (cases "discarding (strm s) \<and> \<not> st_running (strm s)")
  case False
  with step have "st = strm s" "q = net s" by (auto simp: discard_step_def)
  with flow show ?thesis by simp
next
  case True
  with step have st: "st = (strm s)\<lparr>skip_cntr := skip_cntr (strm s) + 1\<rparr>" and q: "q = snd (cq_dequeue Q (net s))"
    by (auto simp: discard_step_def bindE_eq_Inr)
  have at: "sync_at s \<noteq> Collecting"
    using ok True by (auto simp: sys_ok_iff handshake_ok_def)
  show ?thesis
  proof (cases "content (net s)")
    case Nil
    then have "content q = content (net s)" using dequeue_empty by (simp add: q)
    with flow_strm [OF flow, of st q "sync_at s" "cmds s" "acks s" "sync_loaded s"] st show ?thesis
      by (simp add: flow_frame_def)
  next
    case (Cons x xs)
    with dequeue_content have "content q = xs" by (simp add: q)
    with flow_take [OF flow, of st x xs q] Cons at st show ?thesis by simp
  qed
qed

lemma stream_one_flow:
  assumes flow: "flow content ms s" and at: "sync_at s \<noteq> Collecting" and fld: "fld \<le> 255"
    and step: "stream_one Q fld state junk (strm s) (net s) = Inr (st, q)" and ne: "\<not> cq_empty Q (net s)"
  shows "flow content ms (s\<lparr>strm := st, net := q\<rparr>)"
proof -
  obtain x xs q' where c: "content (net s) = x # xs" "cq_front Q (net s) = Some x"
    "cq_dequeue Q (net s) = (Some x, q')" "content q' = xs" using ne by (rule dequeue_cases)
  have q: "q = q'" using step c by (auto simp: stream_one_def bindE_eq_Inr split: if_splits)
  have "definitions st = definitions (strm s) \<and> st_running st = st_running (strm s) \<and>
      (streamed st = streamed (strm s) \<or> streamed st = streamed (strm s) @ [x])"
  proof (cases "state = STATE_STOPPED")
    case True
    with step c show ?thesis by (auto simp: stream_one_def)
  next
    case False
    with step c obtain b st1 where u: "send_ulog fld junk x (strm s) = Inr (b, st1)"
      and st: "st = (if b then st1\<lparr>send_cntr := send_cntr st1 + 1\<rparr> else st1\<lparr>skip_cntr := skip_cntr st1 + 1\<rparr>)"
      by (auto simp: stream_one_def bindE_eq_Inr split: if_splits)
    have "unat (word_of_nat (length x) :: byte) = length x" if "length x \<le> fld"
      using that fld by (subst unat_of_nat) simp
    with send_ulog_Inr [OF u] st show ?thesis by (cases b) auto
  qed
  with flow_take [OF flow, of st x xs q] c q at show ?thesis by blast
qed

lemma sync_commit_flow:
  assumes flow: "flow content ms s" and ok: "sys_ok s" and step: "sync_commit fld s = Inr s'"
  shows "flow content ms s'"
proof (cases "sync_loaded s")
  case None
  with step flow show ?thesis by (simp add: sync_commit_def)
next
  case (Some state)
  then have at: "sync_at s \<noteq> Collecting" using ok by (auto simp: sys_ok_iff)
  note keep = flow_strm [OF flow _ refl, where as = "acks s" and cs = "cmds s" and l = None]
  show ?thesis
  proof (cases "seq_no (strm s) < length (definitions (strm s))")
    case True
    with Some step obtain st where "sync_act fld state (strm s) = Inr st" "s' = s\<lparr>strm := st, sync_loaded := None\<rparr>"
      by (auto simp: sync_commit_def bindE_eq_Inr)
    with keep [OF sync_act_flow, of fld state st "sync_at s"] show ?thesis by simp
  next
    case False
    with Some step have "s' = s\<lparr>strm := (snd (set_state state STATE_RUNNING (strm s)))\<lparr>st_running := True\<rparr>,
        sync_at := Synced, sync_loaded := None\<rparr>" by (auto simp: sync_commit_def intro!: sys.equality)
    with keep [OF set_state_flow [of "strm s" state STATE_RUNNING], where pc = Synced] at show ?thesis by simp
  qed
qed

lemma sys_step_flow:
  assumes flow: "flow content ms s" and ok: "sys_ok s" and fld: "fld \<le> 255" and step: "sys_step Q fld ev s = Inr s'"
  shows "flow content (ms @ enqueued [ev]) s'"
proof (cases ev)
  case (Enqueue bs)
  then have s': "s' = s\<lparr>net := cq_enqueue Q bs (net s)\<rparr>" using step by (simp add: sys_step_def)
  show ?thesis using flow unfolding flow_def s' Enqueue by (auto simp: enqueue_content intro: started_enqueue)
next
  case Sync_Load
  have "flow content ms (s\<lparr>sync_loaded := l\<rparr>)" for l
    using flow_strm [OF flow flow_frame_refl refl, of "sync_at s" "cmds s" "acks s" l] by simp
  with Sync_Load step flow collect_flow [OF flow] show ?thesis
    by (auto simp: sys_step_def sync_load_def bindE_eq_Inr split: sync_pc.splits if_splits)
next
  case Sync_Act
  with step sync_commit_flow [OF flow ok] show ?thesis by (simp add: sys_step_def)
next
  case Discard
  with step discard_flow [OF flow ok] show ?thesis by (auto simp: sys_step_def bindE_eq_Inr)
next
  case Main_Begin
  with step flow flow_main [OF flow] show ?thesis
    by (auto simp: sys_step_def main_begin_def Let_def bindE_eq_Inr split: if_splits)
next
  case (Main_One junk)
  have at: "sync_at s \<noteq> Collecting" if "main_loaded s \<noteq> None"
    using that flow ok by (auto simp: flow_def sys_ok_iff handshake_ok_def)
  from Main_One step consider "s' = s\<lparr>main_loaded := None\<rparr>" | "s' = s"
    | st q state where "main_loaded s = Some state" "s' = s\<lparr>strm := st, net := q\<rparr>" "\<not> cq_empty Q (net s)"
        "stream_one Q fld state junk (strm s) (net s) = Inr (st, q)"
    by (auto simp: sys_step_def main_one_def bindE_eq_Inr split: option.splits if_splits)
  then have "flow content ms s'"
    by cases (use flow flow_main [OF flow, of None] stream_one_flow [OF flow at fld] in auto)
  with Main_One show ?thesis by simp
next
  case Post
  with step flow_strm [OF flow run_posted_flow refl, where pc = "sync_at s" and l = "sync_loaded s" and as = "acks s" and cs = "cmds s"]
  show ?thesis by (auto simp: sys_step_def bindE_eq_Inr)
next
  case (Ack_Load sq)
  then have s': "s' = s\<lparr>acks := acks s @ [(sq, st_state (strm s))]\<rparr>" using step by (simp add: sys_step_def)
  show ?thesis
    using flow_strm [OF flow flow_frame_refl refl, of "sync_at s" "cmds s" "acks s'" "sync_loaded s"] Ack_Load
    by (simp add: s')
next
  case Ack_Commit
  with step flow flow_strm [OF flow commit_ack_flow refl, where pc = "sync_at s" and l = "sync_loaded s" and as = "tl (acks s)" and cs = "cmds s"]
  show ?thesis by (auto simp: sys_step_def bindE_eq_Inr split: list.splits)
next
  case (Cmd_Load lc sa)
  have "flow_frame (strm s) (snd (decide_command lc sa (st_state (strm s)) (strm s)))" by (rule decide_command_flow)
  with Cmd_Load step flow flow_strm [OF flow _ refl, where pc = "sync_at s" and l = "sync_loaded s" and as = "acks s"]
  show ?thesis by (auto simp: sys_step_def cmd_load_def Let_def split: prod.splits)
next
  case Cmd_Commit
  with step flow flow_strm [OF flow commit_command_flow refl, where pc = "sync_at s" and l = "sync_loaded s" and as = "acks s" and cs = "tl (cmds s)"]
  show ?thesis by (auto simp: sys_step_def bindE_eq_Inr split: list.splits)
qed

lemma run_flow:
  assumes "foldE (sys_step Q fld) evs s = Inr s'" and "flow content ms s" and "sys_ok s" and "fld \<le> 255"
  shows "flow content (ms @ enqueued evs) s'"
  using assms
proof (induction evs arbitrary: s ms)
  case Nil
  then show ?case by simp
next
  case (Cons ev evs)
  then obtain s1 where s1: "sys_step Q fld ev s = Inr s1" "foldE (sys_step Q fld) evs s1 = Inr s'"
    by (auto simp: bindE_eq_Inr)
  from Cons.IH [OF s1(2) sys_step_flow [OF Cons.prems(2,3,4) s1(1)] sys_step_ok [OF Cons.prems(3) s1(1)] Cons.prems(4)]
  show ?case by simp
qed

end

text \<open>A whole run.\<close>

lemma flow_run:
  assumes Q: "conc_queue Q content" and q: "content q = []" and run: "foldE (sys_step Q fld) evs (new_sys q) = Inr s"
    and fld: "fld \<le> 255"
  shows "flow content (enqueued evs) s"
proof -
  have "flow content ([] @ enqueued evs) s"
    by (rule conc_queue.run_flow [OF Q run _ sys_ok_new fld]) (rule flow_new, rule q)
  then show ?thesis by simp
qed

end
