(* ===== verification/Streamer_Loss.thy ===== *)
theory Streamer_Loss
  imports Streamer_Flow
begin

text \<open>
  The handshake when messages or acknowledgements are lost or late. \<open>leads\<close> says that a
  sequence of turns takes every system of one kind to one of another; the lemmas for single
  turns give the automaton the sync thread and the acknowledgement handler make together, and
  longer schedules are put together from them.
\<close>

definition leads ::
    "'q cq_ops \<Rightarrow> nat \<Rightarrow> turn list \<Rightarrow> ('q sys \<Rightarrow> bool) \<Rightarrow> ('q sys \<Rightarrow> bool) \<Rightarrow> bool" where
  "leads Q fld ts P R \<longleftrightarrow> (\<forall>s. P s \<longrightarrow> (\<exists>s'. foldE (turn_step Q fld) ts s = Inr s' \<and> R s'))"

lemma leads_nil: "leads Q fld [] P P"
  by (simp add: leads_def)

lemma leads_append: "leads Q fld ts P R \<Longrightarrow> leads Q fld us R S \<Longrightarrow> leads Q fld (ts @ us) P S"
  unfolding leads_def foldE_append by (metis bindE_simps(2))

lemma leads_Cons: "leads Q fld [t] P R \<Longrightarrow> leads Q fld us R S \<Longrightarrow> leads Q fld (t # us) P S"
  using leads_append [of Q fld "[t]" P R us S] by simp

lemma leads_ex:
  "(\<And>x n. x \<in> A \<Longrightarrow> leads Q fld ts (P x n) R) \<Longrightarrow> leads Q fld ts (\<lambda>s. \<exists>x n. x \<in> A \<and> P x n s) R"
  unfolding leads_def by blast

lemma leads_weaken: "leads Q fld ts P R \<Longrightarrow> (\<And>s. R s \<Longrightarrow> S s) \<Longrightarrow> leads Q fld ts P S"
  unfolding leads_def by blast

text \<open>
  The queue is \<open>nq\<close>, no data have been streamed; definitions \<open>ds\<close>, the next of them is number \<open>k\<close>, the state is \<open>st\<close>, the timeout counter
  \<open>n\<close>, and \<open>ss\<close> are the acknowledged messages sent so far.
\<close>

definition phase ::
    "nat \<Rightarrow> 'q \<Rightarrow> byte list list \<Rightarrow> nat \<Rightarrow> streamer_state \<Rightarrow> 16 word \<Rightarrow> (16 word \<times> byte list) list \<Rightarrow> 'q sys \<Rightarrow> bool" where
  "phase fld nq ds k st n ss s \<longleftrightarrow> sync_at s = Sending \<and> sync_loaded s = None \<and> acks s = [] \<and>
     strm_calm fld Sending (strm s) \<and> definitions (strm s) = ds \<and> seq_no (strm s) = k \<and>
     st_state (strm s) = st \<and> sync_timeout (strm s) = n \<and> sent_definitions (strm s) = ss \<and> st \<noteq> STATE_INIT \<and>
     net s = nq \<and> main_loaded s = None \<and> streamed (strm s) = []"

lemma phase_send:
  assumes "st \<in> {STATE_CONNECTED, STATE_SEND_DEF, STATE_RESEND_DEF}" and k: "k < length ds"
  shows "leads Q fld [T_Sync] (phase fld nq ds k st n ss)
    (phase fld nq ds k STATE_ACK_WAIT 0 (ss @ [(word_of_nat k, ds ! k)]))"
  unfolding leads_def
proof (intro allI impI)
  fix s :: "'a sys" assume s: "phase fld nq ds k st n ss s"
  let ?st = "(strm s)\<lparr>sent := sent (strm s) @ [(definition_msg (strm s), ucast (target_system (strm s)),
      ucast (target_component (strm s)))], sync_timeout := 0, st_state := STATE_ACK_WAIT\<rparr>"
  have calm: "strm_calm fld Sending (strm s)" using s by (simp add: phase_def)
  have "send_definition fld st (strm s) = Inr ?st"
    using calm s k by (auto simp: send_definition_Inr strm_calm_def phase_def)
  then have "sync_act fld st (strm s) = Inr ?st"
    using assms(1) s calm by (auto simp: phase_def sync_act_def strm_calm_def)
  then have "turn_step Q fld T_Sync s = Inr (s\<lparr>strm := ?st, sync_loaded := None\<rparr>)"
    using s k by (simp add: turn_step_def sys_step_def sync_load_def sync_commit_def phase_def)
  moreover have "phase fld nq ds k STATE_ACK_WAIT 0 (ss @ [(word_of_nat k, ds ! k)]) (s\<lparr>strm := ?st, sync_loaded := None\<rparr>)"
    using s by (auto simp: phase_def strm_calm_def sent_definitions_def definition_msg_def streamed_def)
  ultimately show "\<exists>s'. foldE (turn_step Q fld) [T_Sync] s = Inr s' \<and>
      phase fld nq ds k STATE_ACK_WAIT 0 (ss @ [(word_of_nat k, ds ! k)]) s'" by simp
qed

text \<open>The turns that send nothing.\<close>

lemma phase_quiet:
  assumes "\<And>s. phase fld nq ds k st n ss s \<Longrightarrow>
      turn_step Q fld t s = Inr (s\<lparr>strm := (strm s)\<lparr>st_state := st', seq_no := k', sync_timeout := n'\<rparr>\<rparr>)"
    and "st' \<noteq> STATE_INIT" and "st \<noteq> STATE_INIT"
  shows "leads Q fld [t] (phase fld nq ds k st n ss) (phase fld nq ds k' st' n' ss)"
  unfolding leads_def
proof (intro allI impI)
  fix s :: "'a sys" assume s: "phase fld nq ds k st n ss s"
  have "phase fld nq ds k' st' n' ss (s\<lparr>strm := (strm s)\<lparr>st_state := st', seq_no := k', sync_timeout := n'\<rparr>\<rparr>)"
    using s assms(2) by (auto simp: phase_def strm_calm_def)
  with assms(1) [OF s] show "\<exists>s'. foldE (turn_step Q fld) [t] s = Inr s' \<and> phase fld nq ds k' st' n' ss s'"
    by auto
qed

lemmas turn_defs = turn_step_def sys_step_def sync_load_def sync_commit_def sync_act_def commit_ack_def
  set_state_or_die_def set_state_def phase_def Let_def

lemma phase_wait:
  assumes "n + 50 \<noteq> 1000" and "k < length ds"
  shows "leads Q fld [T_Sync] (phase fld nq ds k STATE_ACK_WAIT n ss) (phase fld nq ds k STATE_ACK_WAIT (n + 50) ss)"
  using assms by (intro phase_quiet) (auto simp: turn_defs)

lemma phase_timeout:
  assumes "k < length ds"
  shows "leads Q fld [T_Sync] (phase fld nq ds k STATE_ACK_WAIT 950 ss) (phase fld nq ds k STATE_RESEND_DEF 1000 ss)"
  using assms by (intro phase_quiet) (auto simp: turn_defs)

lemma phase_ack:
  "leads Q fld [T_Ack (word_of_nat k)] (phase fld nq ds k STATE_ACK_WAIT n ss) (phase fld nq ds k STATE_ACK_RECV n ss)"
  by (intro phase_quiet) (auto simp: turn_defs)

lemma phase_stale:
  "sq \<noteq> word_of_nat k \<Longrightarrow>
   leads Q fld [T_Ack sq] (phase fld nq ds k STATE_ACK_WAIT n ss) (phase fld nq ds k STATE_RESEND_DEF n ss)"
  by (intro phase_quiet) (auto simp: turn_defs)

lemma phase_move:
  "k < length ds \<Longrightarrow>
   leads Q fld [T_Sync] (phase fld nq ds k STATE_ACK_RECV n ss) (phase fld nq ds (Suc k) STATE_SEND_DEF n ss)"
  by (intro phase_quiet) (auto simp: turn_defs)

definition finished :: "nat \<Rightarrow> 'q \<Rightarrow> (16 word \<times> byte list) list \<Rightarrow> 'q sys \<Rightarrow> bool" where
  "finished fld nq ss s \<longleftrightarrow> sync_at s = Synced \<and> st_state (strm s) = STATE_RUNNING \<and> st_running (strm s) \<and>
     strm_calm fld Synced (strm s) \<and> sent_definitions (strm s) = ss \<and>
     net s = nq \<and> main_loaded s = None \<and> streamed (strm s) = []"

lemma phase_finish: "leads Q fld [T_Sync] (phase fld nq ds (length ds) st n ss) (finished fld nq ss)"
  by (auto simp: leads_def turn_defs finished_def strm_calm_def)

text \<open>Twenty waits are a second: the definition is due again.\<close>

lemma phase_waits:
  assumes "k < length ds" and "j \<le> 19"
  shows "leads Q fld (replicate j T_Sync) (phase fld nq ds k STATE_ACK_WAIT 0 ss)
    (phase fld nq ds k STATE_ACK_WAIT (word_of_nat (50 * j)) ss)"
  using assms(2)
proof (induction j)
  case 0
  then show ?case by (simp add: leads_nil)
next
  case (Suc j)
  have "word_of_nat (50 * j) + 50 \<noteq> (1000 :: 16 word)"
  proof -
    have "word_of_nat (50 * j) + 50 = (word_of_nat (50 * j + 50) :: 16 word)" by simp
    moreover have "unat (word_of_nat (50 * j + 50) :: 16 word) = 50 * j + 50"
      by (subst unat_of_nat) (use Suc.prems in simp)
    moreover have "50 * j + 50 \<noteq> unat (1000 :: 16 word)" using Suc.prems by simp
    ultimately show ?thesis by metis
  qed
  from leads_append [OF Suc.IH phase_wait [OF this assms(1)]] Suc.prems
  show ?case by (simp add: replicate_append_same [symmetric] add.commute)
qed

lemma phase_resend:
  assumes "k < length ds"
  shows "leads Q fld (replicate 20 T_Sync @ [T_Sync]) (phase fld nq ds k STATE_ACK_WAIT 0 ss)
    (phase fld nq ds k STATE_ACK_WAIT 0 (ss @ [(word_of_nat k, ds ! k)]))"
proof -
  have "leads Q fld (replicate 19 T_Sync) (phase fld nq ds k STATE_ACK_WAIT 0 ss) (phase fld nq ds k STATE_ACK_WAIT 950 ss)"
    using phase_waits [OF assms, of 19] by simp
  from leads_append [OF this leads_append [OF phase_timeout [OF assms] phase_send [OF _ assms]]]
  have "leads Q fld (replicate 19 T_Sync @ [T_Sync] @ [T_Sync]) (phase fld nq ds k STATE_ACK_WAIT 0 ss)
    (phase fld nq ds k STATE_ACK_WAIT 0 (ss @ [(word_of_nat k, ds ! k)]))" by simp
  moreover have "replicate 20 T_Sync = replicate 19 T_Sync @ [T_Sync]"
    using replicate_append_same [of 19 T_Sync] by (simp add: numeral_eq_Suc)
  ultimately show ?thesis by simp
qed

section \<open>Lost messages and acknowledgements\<close>

text \<open>
  Definition \<open>k\<close> is sent, for each of \<open>m\<close> losses a second passes and it is sent again, then
  the acknowledgement comes.
\<close>

definition lossy_round :: "nat \<Rightarrow> nat \<Rightarrow> turn list" where
  "lossy_round k m =
     [T_Sync] @ concat (replicate m (replicate 20 T_Sync @ [T_Sync])) @ [T_Ack (word_of_nat k), T_Sync]"

definition lossy_handshake :: "nat list \<Rightarrow> turn list" where
  "lossy_handshake losses = concat (map (\<lambda>(k, m). lossy_round k m) (enumerate 0 losses)) @ [T_Sync]"

definition lossy_sends :: "byte list list \<Rightarrow> nat list \<Rightarrow> (16 word \<times> byte list) list" where
  "lossy_sends ds losses = concat (map (\<lambda>(k, m). replicate (Suc m) (word_of_nat k, ds ! k)) (enumerate 0 losses))"

lemma lossy_snoc:
  "lossy_sends ds (ls @ [m]) = lossy_sends ds ls @ replicate (Suc m) (word_of_nat (length ls), ds ! length ls)"
  by (simp add: lossy_sends_def enumerate_append_eq)

lemma phase_resends:
  assumes "k < length ds"
  shows "leads Q fld (concat (replicate m (replicate 20 T_Sync @ [T_Sync]))) (phase fld nq ds k STATE_ACK_WAIT 0 ss)
    (phase fld nq ds k STATE_ACK_WAIT 0 (ss @ replicate m (word_of_nat k, ds ! k)))"
proof (induction m arbitrary: ss)
  case 0
  then show ?case by (simp add: leads_nil)
next
  case (Suc m)
  from leads_append [OF phase_resend [OF assms, of Q fld nq ss] Suc.IH] show ?case by simp
qed

lemma phase_lossy_round:
  assumes "st \<in> {STATE_CONNECTED, STATE_SEND_DEF, STATE_RESEND_DEF}" and k: "k < length ds"
  shows "leads Q fld (lossy_round k m) (phase fld nq ds k st n ss)
    (phase fld nq ds (Suc k) STATE_SEND_DEF 0 (ss @ replicate (Suc m) (word_of_nat k, ds ! k)))"
proof -
  note send = phase_send [OF assms, of Q fld nq n ss]
  note resend = phase_resends [OF k, of Q fld m nq "ss @ [(word_of_nat k, ds ! k)]"]
  note acked = leads_append [OF phase_ack [of Q fld k nq ds 0] phase_move [OF k]]
  from leads_append [OF send leads_append [OF resend acked]] show ?thesis
    by (simp add: lossy_round_def)
qed

lemma phase_lossy_rounds:
  assumes "length losses \<le> length ds"
  shows "leads Q fld (concat (map (\<lambda>(k, m). lossy_round k m) (enumerate 0 losses))) (phase fld nq ds 0 STATE_CONNECTED n [])
    (\<lambda>s. \<exists>st n. st \<in> {STATE_CONNECTED, STATE_SEND_DEF} \<and> phase fld nq ds (length losses) st n (lossy_sends ds losses) s)"
  using assms
proof (induction losses rule: rev_induct)
  case Nil
  then show ?case by (auto simp: leads_def lossy_sends_def)
next
  case (snoc m ls)
  let ?R = "phase fld nq ds (length (ls @ [m])) STATE_SEND_DEF 0 (lossy_sends ds (ls @ [m]))"
  have "leads Q fld (lossy_round (length ls) m) (phase fld nq ds (length ls) st n (lossy_sends ds ls)) ?R"
    if "st \<in> {STATE_CONNECTED, STATE_SEND_DEF}" for st n
  proof -
    have "st \<in> {STATE_CONNECTED, STATE_SEND_DEF, STATE_RESEND_DEF}" "length ls < length ds"
      using that snoc.prems by auto
    from phase_lossy_round [OF this] show ?thesis unfolding lossy_snoc by simp
  qed
  note step = this
  let ?I = "\<lambda>ls s. \<exists>st n. st \<in> {STATE_CONNECTED, STATE_SEND_DEF} \<and> phase fld nq ds (length ls) st n (lossy_sends ds ls) s"
  have "leads Q fld (lossy_round (length ls) m) (?I ls) (?I (ls @ [m]))"
  proof (rule leads_weaken)
    show "leads Q fld (lossy_round (length ls) m) (?I ls) ?R" by (rule leads_ex) (rule step)
    show "?I (ls @ [m]) s" if "?R s" for s
      using that by (intro exI [of _ STATE_SEND_DEF] exI [of _ 0] conjI) simp_all
  qed
  from leads_append [OF snoc.IH this] snoc.prems show ?case by (simp only: enumerate_append_eq map_append concat_append) simp
qed

lemma lossy_handshake_ends:
  assumes "length losses = length ds"
  shows "leads Q fld (lossy_handshake losses) (phase fld nq ds 0 STATE_CONNECTED n []) (finished fld nq (lossy_sends ds losses))"
proof -
  have "leads Q fld [T_Sync] (\<lambda>s. \<exists>st n. st \<in> {STATE_CONNECTED, STATE_SEND_DEF} \<and>
      phase fld nq ds (length losses) st n (lossy_sends ds losses) s) (finished fld nq (lossy_sends ds losses))"
    unfolding assms by (rule leads_ex) (rule phase_finish)
  from leads_append [OF phase_lossy_rounds this] assms show ?thesis by (simp add: lossy_handshake_def)
qed

section \<open>One late acknowledgement\<close>

text \<open>
  The first acknowledgement comes after the timeout, so the first definition was sent twice and
  is acknowledged twice. Every acknowledgement arrives, in order and one for each message, yet
  the second one of a definition always meets the next one, for which it is stale.
\<close>

definition late_start :: "turn list" where
  "late_start = [T_Sync] @ replicate 20 T_Sync @ [T_Sync]"

definition late_round :: "nat \<Rightarrow> turn list" where
  "late_round k = [T_Ack (word_of_nat k), T_Sync, T_Sync, T_Ack (word_of_nat k), T_Sync]"

definition late_handshake :: "nat \<Rightarrow> turn list" where
  "late_handshake m = late_start @ concat (map late_round [0..<m]) @ [T_Ack (word_of_nat m), T_Sync, T_Sync]"

definition doubled :: "byte list list \<Rightarrow> nat \<Rightarrow> (16 word \<times> byte list) list" where
  "doubled ds n = concat (map (\<lambda>k. replicate 2 (word_of_nat k, ds ! k)) [0..<n])"

lemma doubled_Suc: "doubled ds (Suc n) = doubled ds n @ [(word_of_nat n, ds ! n)] @ [(word_of_nat n, ds ! n)]"
  by (simp add: doubled_def numeral_2_eq_2)

lemma phase_late_round:
  assumes "Suc k < length ds"
  shows "leads Q fld (late_round k) (phase fld nq ds k STATE_ACK_WAIT 0 (doubled ds (Suc k)))
    (phase fld nq ds (Suc k) STATE_ACK_WAIT 0 (doubled ds (Suc (Suc k))))"
proof -
  let ?ss = "doubled ds (Suc k)" and ?x = "[(word_of_nat (Suc k), ds ! Suc k)]"
  have k: "k < length ds" using assms by simp
  note move = leads_append [OF phase_ack phase_move [OF k], of Q fld nq 0 ?ss]
  note first = phase_send [OF _ assms, of STATE_SEND_DEF Q fld nq 0 ?ss]
  note again = phase_send [OF _ assms, of STATE_RESEND_DEF Q fld nq 0 "?ss @ ?x"]
  have "word_of_nat k \<noteq> (word_of_nat (Suc k) :: 16 word)" by simp
  note stale = phase_stale [OF this, of Q fld nq ds 0 "?ss @ ?x"]
  from leads_append [OF move leads_append [OF first leads_append [OF stale again]]]
  show ?thesis by (simp add: late_round_def doubled_Suc)
qed

lemma phase_late_rounds:
  assumes "m < length ds"
  shows "leads Q fld (concat (map late_round [0..<m])) (phase fld nq ds 0 STATE_ACK_WAIT 0 (doubled ds (Suc 0)))
    (phase fld nq ds m STATE_ACK_WAIT 0 (doubled ds (Suc m)))"
  using assms
proof (induction m)
  case 0
  then show ?case by (simp add: leads_nil)
next
  case (Suc m)
  from leads_append [OF Suc.IH phase_late_round [OF Suc.prems]] Suc.prems show ?case by simp
qed

lemma late_handshake_doubles:
  assumes "length ds = Suc m"
  shows "leads Q fld (late_handshake m) (phase fld nq ds 0 STATE_CONNECTED n []) (finished fld nq (doubled ds (Suc m)))"
proof -
  have ne: "0 < length ds" and m: "m < length ds" using assms by simp_all
  let ?x = "[(word_of_nat 0, ds ! 0)]"
  have "leads Q fld late_start (phase fld nq ds 0 STATE_CONNECTED n []) (phase fld nq ds 0 STATE_ACK_WAIT 0 (doubled ds (Suc 0)))"
    using leads_append [OF phase_send [OF _ ne, of STATE_CONNECTED Q fld nq n "[]"] phase_resend [OF ne, of Q fld nq "[] @ ?x"]]
    by (simp add: late_start_def doubled_Suc) (simp add: doubled_def)
  moreover have "leads Q fld ([T_Ack (word_of_nat m)] @ [T_Sync] @ [T_Sync])
      (phase fld nq ds m STATE_ACK_WAIT 0 (doubled ds (Suc m))) (finished fld nq (doubled ds (Suc m)))"
    using leads_append [OF phase_ack leads_append [OF phase_move [OF m] phase_finish [of Q fld nq ds, unfolded assms]]] .
  ultimately show ?thesis
    using leads_append leads_append [OF phase_late_rounds [OF m, of Q fld]] unfolding late_handshake_def
    by (metis append_Cons append_Nil)
qed

end
