(* ===== verification/Streamer_Delivery.thy ===== *)
theory Streamer_Delivery
  imports Streamer_Loss
begin

text \<open>
  A schedule that delivers a whole queue: everything is enqueued, a ground station starts the
  stream, the sync thread collects the definitions and hands them over in spite of losses, and the
  data loop runs once for each message that is left.
\<close>

definition delivery ::
    "byte list list \<Rightarrow> nat \<Rightarrow> command_long \<Rightarrow> sparse_address \<Rightarrow> nat list \<Rightarrow> (nat \<Rightarrow> byte) \<Rightarrow> turn list" where
  "delivery ms k lc sa losses junk =
     map T_Enqueue ms @ [T_Cmd lc sa] @ replicate (Suc k) T_Sync @ lossy_handshake losses @
     [T_Main_Begin] @ replicate (length ms - k) (T_Main junk)"

lemma enqueued_append [simp]: "enqueued (as @ bs) = enqueued as @ enqueued bs"
  by (simp add: enqueued_def)

lemma enqueued_none: "\<forall>t \<in> set ts. \<forall>ms. t \<noteq> T_Enqueue ms \<Longrightarrow> enqueued (concat (map turn_events ts)) = []"
proof (induction ts)
  case (Cons t ts)
  then show ?case by (cases t) simp_all
qed simp

lemma enqueued_all: "enqueued (concat (map turn_events (map T_Enqueue ms))) = ms"
  by (induction ms) simp_all

lemma enqueued_delivery: "enqueued (concat (map turn_events (delivery ms k lc sa losses junk))) = ms"
proof -
  have "\<forall>t \<in> set (lossy_handshake losses). \<forall>ms. t \<noteq> T_Enqueue ms"
    by (auto simp: lossy_handshake_def lossy_round_def)
  then have "enqueued (concat (map turn_events ([T_Cmd lc sa] @ replicate (Suc k) T_Sync @ lossy_handshake losses @
     [T_Main_Begin] @ replicate (length ms - k) (T_Main junk)))) = []"
    by (intro enqueued_none) auto
  then show ?thesis unfolding delivery_def map_append concat_append enqueued_append enqueued_all by simp
qed

text \<open>A started stream that has collected \<open>ds\<close> and has \<open>ms\<close> in its queue.\<close>

definition collecting :: "('q \<Rightarrow> byte list list) \<Rightarrow> nat \<Rightarrow> byte list list \<Rightarrow> byte list list \<Rightarrow> 'q sys \<Rightarrow> bool" where
  "collecting content fld ds ms s \<longleftrightarrow> sync_at s = Collecting \<and> sync_loaded s = None \<and> acks s = [] \<and>
     main_loaded s = None \<and> strm_calm fld Sending (strm s) \<and> definitions (strm s) = ds \<and> content (net s) = ms \<and>
     seq_no (strm s) = 0 \<and> sync_timeout (strm s) = 0 \<and> st_state (strm s) = STATE_CONNECTED \<and>
     sent_definitions (strm s) = [] \<and> streamed (strm s) = []"

text \<open>The data loop has \<open>ms\<close> to send and has sent \<open>out\<close>.\<close>

definition streaming :: "('q \<Rightarrow> byte list list) \<Rightarrow> nat \<Rightarrow> byte list list \<Rightarrow> byte list list \<Rightarrow> 'q sys \<Rightarrow> bool" where
  "streaming content fld ms dt s \<longleftrightarrow> sync_at s = Synced \<and> main_loaded s = Some STATE_RUNNING \<and>
     strm_calm fld Synced (strm s) \<and> content (net s) = ms \<and> streamed (strm s) = dt"

lemma streaming_begins:
  "leads Q fld [T_Main_Begin] (finished fld nq ss) (streaming content fld (content nq) [])"
  by (auto simp: leads_def turn_step_def sys_step_def main_begin_def finished_def streaming_def Let_def)

context conc_queue
begin

lemma enqueue_run:
  "foldE (turn_step Q fld) (map T_Enqueue ms) s = Inr (s\<lparr>net := fold (cq_enqueue Q) ms (net s)\<rparr>)"
  by (induction ms arbitrary: s) (simp_all add: turn_step_def sys_step_def)

lemma start_run:
  assumes q: "content q = []" and lc: "lc_command lc = LOGGING_START"
    and sa: "(ucast (group_id sa) :: byte) \<noteq> 0" "(ucast (instance_id sa) :: byte) \<noteq> 0"
  shows "leads Q fld (map T_Enqueue ms @ [T_Cmd lc sa]) (\<lambda>s. s = new_sys q) (collecting content fld [] ms)"
proof (rule leads_append)
  show "leads Q fld (map T_Enqueue ms) (\<lambda>s. s = new_sys q)
      (\<lambda>s. s = (new_sys q)\<lparr>net := fold (cq_enqueue Q) ms q\<rparr>)"
    by (simp add: leads_def enqueue_run) (simp add: new_sys_def)
  show "leads Q fld [T_Cmd lc sa] (\<lambda>s. s = (new_sys q)\<lparr>net := fold (cq_enqueue Q) ms q\<rparr>) (collecting content fld [] ms)"
    using lc sa q
    by (auto simp: leads_def turn_step_def sys_step_def cmd_load_def decide_command_def commit_command_def Let_def
        set_state_or_die_def set_state_def sendmavmsg_def new_sys_def new_streamer_def collecting_def strm_calm_def
        sent_definitions_def streamed_def enqueue_all)
qed

lemma collect_one:
  assumes "begins d = Inr False" and "length d \<le> fld"
  shows "leads Q fld [T_Sync] (collecting content fld ds (d # ms)) (collecting content fld (ds @ [d]) ms)"
  unfolding leads_def
proof (intro allI impI)
  fix s :: "'q sys" assume s: "collecting content fld ds (d # ms) s"
  then have c: "content (net s) = d # ms" by (simp add: collecting_def)
  let ?s = "s\<lparr>strm := (strm s)\<lparr>definitions := ds @ [d]\<rparr>, net := snd (cq_dequeue Q (net s))\<rparr>"
  have "\<not> cq_empty Q (net s)" using c by (simp add: empty_iff)
  then have "turn_step Q fld T_Sync s = Inr ?s"
    using s front_hd [OF c] assms(1)
    by (auto simp: turn_step_def sys_step_def sync_load_def sync_commit_def collect_step_def collecting_def
        strm_calm_def begins_def Let_def)
  moreover have "collecting content fld (ds @ [d]) ms ?s"
    using s dequeue_content [OF c] assms(2) by (auto simp: collecting_def strm_calm_def)
  ultimately show "\<exists>s'. foldE (turn_step Q fld) [T_Sync] s = Inr s' \<and> collecting content fld (ds @ [d]) ms s'" by simp
qed

lemma collect_all:
  assumes "\<forall>d \<in> set es. begins d = Inr False \<and> length d \<le> fld"
  shows "leads Q fld (replicate (length es) T_Sync) (collecting content fld ds (es @ ms)) (collecting content fld (ds @ es) ms)"
  using assms
proof (induction es arbitrary: ds)
  case Nil
  then show ?case by (simp add: leads_nil)
next
  case (Cons d es)
  then have "leads Q fld (T_Sync # replicate (length es) T_Sync) (collecting content fld ds (d # es @ ms))
      (collecting content fld ((ds @ [d]) @ es) ms)"
    by (intro leads_Cons [OF collect_one Cons.IH]) simp_all
  then show ?case by simp
qed

lemma collect_last:
  assumes "begins x = Inr True"
  shows "leads Q fld [T_Sync] (collecting content fld ds (x # ms))
    (\<lambda>s. \<exists>nq (n :: nat). nq \<in> {q. content q = x # ms} \<and> phase fld nq ds 0 STATE_CONNECTED 0 [] s)"
  unfolding leads_def
proof (intro allI impI)
  fix s :: "'q sys" assume s: "collecting content fld ds (x # ms) s"
  then have c: "content (net s) = x # ms" by (simp add: collecting_def)
  let ?s = "s\<lparr>strm := (strm s)\<lparr>discarding := True\<rparr>, sync_at := Sending\<rparr>"
  have "\<not> cq_empty Q (net s)" using c by (simp add: empty_iff)
  then have "turn_step Q fld T_Sync s = Inr ?s"
    using s front_hd [OF c] assms
    by (auto simp: turn_step_def sys_step_def sync_load_def sync_commit_def collect_step_def collecting_def
        strm_calm_def begins_def)
  moreover have "phase fld (net s) ds 0 STATE_CONNECTED 0 [] ?s"
    using s by (auto simp: collecting_def phase_def)
  ultimately show "\<exists>s'. foldE (turn_step Q fld) [T_Sync] s = Inr s' \<and>
      (\<exists>nq (n :: nat). nq \<in> {q. content q = x # ms} \<and> phase fld nq ds 0 STATE_CONNECTED 0 [] s')"
    using c by auto
qed

lemma stream_next:
  assumes "length m \<le> fld" and "fld \<le> 255"
  shows "leads Q fld [T_Main junk] (streaming content fld (m # ms) dt) (streaming content fld ms (dt @ [m]))"
  unfolding leads_def
proof (intro allI impI)
  fix s :: "'q sys" assume s: "streaming content fld (m # ms) dt s"
  then have c: "content (net s) = m # ms" by (simp add: streaming_def)
  then have ne: "\<not> cq_empty Q (net s)" by (simp add: empty_iff)
  then obtain q where dq: "cq_dequeue Q (net s) = (Some m, q)" "content q = ms"
    using dequeue_cases [OF ne] c by (metis list.inject)
  have roster: "st_roster (strm s)" "st_queue (strm s) \<noteq> None" using s by (simp_all add: streaming_def strm_calm_def)
  let ?m = "Logging_Data (target_system (strm s)) (target_component (strm s)) 0 (word_of_nat (length m)) 255
    (m @ map junk [length m..<fld])"
  let ?st = "(strm s)\<lparr>posted := posted (strm s) @ [?m], send_cntr := send_cntr (strm s) + 1\<rparr>"
  have "send_ulog fld junk m (strm s) = Inr (True, (strm s)\<lparr>posted := posted (strm s) @ [?m]\<rparr>)"
    using assms roster by (simp add: send_ulog_def memcpy_at_def drop_map)
  then have "turn_step Q fld (T_Main junk) s = Inr (s\<lparr>strm := ?st, net := q\<rparr>)"
    using s ne dq roster by (auto simp: turn_step_def sys_step_def main_one_def stream_one_def streaming_def)
  moreover have "unat (word_of_nat (length m) :: byte) = length m" using assms by (subst unat_of_nat) simp
  then have "streaming content fld ms (dt @ [m]) (s\<lparr>strm := ?st, net := q\<rparr>)"
    using s dq by (simp add: streaming_def)
  ultimately show "\<exists>s'. foldE (turn_step Q fld) [T_Main junk] s = Inr s' \<and> streaming content fld ms (dt @ [m]) s'"
    by simp
qed

lemma stream_rest:
  assumes "\<forall>m \<in> set ms. length m \<le> fld" and "fld \<le> 255"
  shows "leads Q fld (replicate (length ms) (T_Main junk)) (streaming content fld ms dt) (streaming content fld [] (dt @ ms))"
  using assms(1)
proof (induction ms arbitrary: dt)
  case Nil
  then show ?case by (simp add: leads_nil)
next
  case (Cons m ms)
  then have "leads Q fld (T_Main junk # replicate (length ms) (T_Main junk)) (streaming content fld (m # ms) dt)
      (streaming content fld [] ((dt @ [m]) @ ms))"
    using assms(2) by (intro leads_Cons [OF stream_next Cons.IH]) simp_all
  then show ?case by simp
qed

lemma delivery_run:
  assumes q: "content q = []" and lc: "lc_command lc = LOGGING_START"
    and sa: "(ucast (group_id sa) :: byte) \<noteq> 0" "(ucast (instance_id sa) :: byte) \<noteq> 0"
    and defs: "\<forall>d \<in> set ds. begins d = Inr False" and x: "begins x = Inr True"
    and fit: "\<forall>m \<in> set (ds @ x # ms). length m \<le> fld" and fld: "fld \<le> 255" and losses: "length losses = length ds"
  shows "leads Q fld (delivery (ds @ x # ms) (length ds) lc sa losses junk) (\<lambda>s. s = new_sys q)
    (streaming content fld [] (x # ms))"
proof -
  note start = start_run [OF q lc sa, of fld "ds @ x # ms"]
  have "\<forall>d \<in> set ds. begins d = Inr False \<and> length d \<le> fld" using defs fit by simp
  note collect = collect_all [OF this, of "[]" "x # ms"]
  have "leads Q fld (lossy_handshake losses @ [T_Main_Begin]) (phase fld nq ds 0 STATE_CONNECTED 0 [])
      (streaming content fld (x # ms) [])" if "content nq = x # ms" for nq
    using leads_append [OF lossy_handshake_ends [OF losses, of Q fld nq 0] streaming_begins [where content = content]] that
    by simp
  then have hand: "leads Q fld (lossy_handshake losses @ [T_Main_Begin])
      (\<lambda>s. \<exists>nq (n :: nat). nq \<in> {q. content q = x # ms} \<and> phase fld nq ds 0 STATE_CONNECTED 0 [] s)
      (streaming content fld (x # ms) [])" by (intro leads_ex) simp
  have "\<forall>m \<in> set (x # ms). length m \<le> fld" using fit by simp
  note stream = stream_rest [OF this fld, of junk "[]"]
  have "leads Q fld (replicate (length ds) T_Sync @ [T_Sync]) (collecting content fld [] (ds @ x # ms))
      (\<lambda>s. \<exists>nq (n :: nat). nq \<in> {q. content q = x # ms} \<and> phase fld nq ds 0 STATE_CONNECTED 0 [] s)"
    using leads_append [OF collect collect_last [OF x]] by simp
  from leads_append [OF start leads_append [OF this leads_append [OF hand stream]]]
  show ?thesis by (simp add: delivery_def replicate_append_same)
qed

end

end
