(* ===== verification/Network.thy ===== *)
theory Network
  imports Session Startup Streamer_Delivery
begin

text \<open>
  The way over the network: what a session leaves in the queue of the streamer, how a run of the streamer
  splits it into definitions and data, and what a parser of this library makes of the payloads
  that arrive at the ground station.
\<close>

section \<open>What the ground station reads\<close>

lemma session_append: "session d (as @ bs) v v' \<longleftrightarrow> (\<exists>u. session d as v u \<and> session d bs u v')"
  by (induction as arbitrary: v) auto

text \<open>From the first record on no format is added.\<close>

lemma heard_formats:
  "heard d c v v' \<Longrightarrow> v_used v \<noteq> [] \<or> is_record c \<Longrightarrow> v_formats v' = v_formats v \<and> v_used v' \<noteq> []"
  by (rule heard_frame(2))

lemma session_formats:
  "session d cs v v' \<Longrightarrow> v_used v \<noteq> [] \<or> cs = [] \<or> is_record (hd cs) \<Longrightarrow> v_formats v' = v_formats v"
  by (induction cs arbitrary: v) (fastforce dest: heard_formats)+

lemma session_start: "session d cs v v' \<Longrightarrow> v_start v' = v_start v"
  by (induction cs arbitrary: v) (auto dest: heard_frame(1))

text \<open>A message at the beginning of a payload.\<close>

lemma stored_all_self: "stored_all (map (\<lambda>b. (b, 0)) bs) bs"
  by (induction bs) (simp_all add: stored_self)

lemma opening_begins: "begins (header_message t) = Inr False" "begins flags_message = Inr False"
  by (simp_all add: begins_def flags_message_frame frame_begin_nil check_ulog_data_begin_at header_message_def
      write_to_def ULogFileHeader_def ulog_magic_def byte_of_char_def)

lemma takeWhile_prefix:
  assumes "takeWhile P ms \<noteq> ms" and "prefix ms (as @ bs)" and "\<forall>x \<in> set as. P x" and "bs = [] \<or> \<not> P (hd bs)"
  shows "takeWhile P ms = as"
proof -
  obtain zs where zs: "as @ bs = ms @ zs" using assms(2) by (auto elim: prefixE)
  obtain x where "x \<in> set ms" "\<not> P x" using assms(1) takeWhile_eq_all_conv by blast
  then have "takeWhile P ms = takeWhile P (as @ bs)" by (simp add: zs)
  then show ?thesis using assms(3,4) by (cases bs) (simp_all add: takeWhile_append)
qed

text \<open>Reading some messages, wherever they are, takes the parser from one view to another.\<close>

definition parses :: "nat \<Rightarrow> byte list list \<Rightarrow> view \<Rightarrow> view \<Rightarrow> bool" where
  "parses d bs v v' \<longleftrightarrow> (\<forall>locs ps. stored_all locs bs \<longrightarrow> hears d v ps \<longrightarrow>
     (\<exists>ps'. foldE (parse_call (Suc d)) locs ps = Inr ps' \<and> hears d v' ps'))"

context conc_queue
begin

text \<open>A session up to its first record, and the rest.\<close>

lemma session_halves:
  assumes session: "session d cs v v'" and track: "ids_track v mt" and on: "is_enabled mt"
  obtains u mt' xs ys where "session d (takeWhile (\<lambda>c. \<not> is_record c) cs) v u" and "v_formats u = v_formats v'"
    and "foldE (api_run Q) cs mt = Inr mt'" and "queued content (xs @ ys) mt mt'"
    and "\<forall>x \<in> set xs. begins x = Inr False" and "ys = [] \<or> begins (hd ys) = Inr True"
    and "parses d xs v u" and "parses d ys u v'"
    and "length xs = length (takeWhile (\<lambda>c. \<not> is_record c) cs)" and "ys = [] \<longleftrightarrow> (\<forall>c \<in> set cs. \<not> is_record c)"
proof -
  let ?as = "takeWhile (\<lambda>c. \<not> is_record c) cs" and ?bs = "dropWhile (\<lambda>c. \<not> is_record c) cs"
  have cs: "cs = ?as @ ?bs" by simp
  obtain u where u: "session d ?as v u" "session d ?bs u v'"
    using session session_append [of d ?as ?bs] by auto
  obtain mt1 xs where one: "foldE (api_run Q) ?as mt = Inr mt1" "queued content xs mt mt1" "ids_track u mt1"
    "list_all2 (\<lambda>c b. check_ulog_data_begin b 0 = Inr (is_record c)) ?as xs"
    "parses d xs v u"
    using session_refined [OF u(1) track on] unfolding parses_def by blast
  have on1: "is_enabled mt1" using queued_enabled [OF one(2)] on by simp
  obtain mt' ys where two: "foldE (api_run Q) ?bs mt1 = Inr mt'" "queued content ys mt1 mt'"
    "list_all2 (\<lambda>c b. check_ulog_data_begin b 0 = Inr (is_record c)) ?bs ys"
    "parses d ys u v'"
    using session_refined [OF u(2) one(3) on1] unfolding parses_def by blast
  have "foldE (api_run Q) cs mt = Inr mt'"
    using foldE_append [of "api_run Q" ?as ?bs mt] one(1) two(1) by simp
  moreover have "\<forall>x \<in> set xs. begins x = Inr False"
  proof
    fix x
    assume "x \<in> set xs"
    then obtain i where i: "i < length xs" "x = xs ! i" by (auto simp: in_set_conv_nth)
    with one(4) have "?as ! i \<in> set ?as" "begins x = Inr (is_record (?as ! i))"
      by (auto simp: list_all2_conv_all_nth begins_def)
    with set_takeWhileD [of "?as ! i"] show "begins x = Inr False" by metis
  qed
  moreover have first: "?bs = [] \<or> is_record (hd ?bs)" using hd_dropWhile [of "\<lambda>c. \<not> is_record c" cs] by blast
  moreover have "ys = [] \<or> begins (hd ys) = Inr True"
    using two(3) first by (cases ?bs; cases ys) (auto simp: begins_def)
  moreover have "v_formats v' = v_formats u" using session_formats [OF u(2)] first by blast
  moreover have "ys = [] \<longleftrightarrow> (\<forall>c \<in> set cs. \<not> is_record c)"
    using list_all2_lengthD [OF two(3)] by (metis dropWhile_eq_Nil_conv length_0_conv)
  ultimately show thesis
    using that [OF u(1) _ _ queued_trans [OF one(2) two(2)] _ _ one(5) two(4)] list_all2_lengthD [OF one(4)] by simp
qed

end

section \<open>The ground station\<close>

text \<open>What a session puts into the queue of the network.\<close>

lemma net_messages:
  assumes Q: "conc_queue Q content" and q: "content q0 = []"
    and init: "init Q date config opens now True rt (new_mu_telemetry q0) = Inr (b, mt)" and net: "with_network mt"
    and calls: "session d cs (empty_view now) v" and sent: "foldE (api_run Q) cs mt = Inr mt'"
  obtains u xs ys where "session d (takeWhile (\<lambda>c. \<not> is_record c) cs) (empty_view now) u" and "v_formats u = v_formats v"
    and "content (net_queue mt') = ([header_message now, flags_message] @ xs) @ ys"
    and "\<forall>x \<in> set ([header_message now, flags_message] @ xs). begins x = Inr False"
    and "ys = [] \<or> begins (hd ys) = Inr True"
    and "parses d xs (empty_view now) u" and "parses d ys u v"
    and "length xs = length (takeWhile (\<lambda>c. \<not> is_record c) cs)" and "ys = [] \<longleftrightarrow> (\<forall>c \<in> set cs. \<not> is_record c)"
proof -
  have on: "is_enabled mt" using net by (simp add: is_enabled_def)
  note start = init_starts [OF Q q init on]
  obtain u mt2 xs ys where h: "session d (takeWhile (\<lambda>c. \<not> is_record c) cs) (empty_view now) u" "v_formats u = v_formats v"
    "foldE (api_run Q) cs mt = Inr mt2" "queued content (xs @ ys) mt mt2"
    "\<forall>x \<in> set xs. begins x = Inr False" "ys = [] \<or> begins (hd ys) = Inr True"
    "parses d xs (empty_view now) u" "parses d ys u v"
    "length xs = length (takeWhile (\<lambda>c. \<not> is_record c) cs)" "ys = [] \<longleftrightarrow> (\<forall>c \<in> set cs. \<not> is_record c)"
    by (rule conc_queue.session_halves [OF Q calls ids_track_empty [OF start(3,4)] on])
  have "mt2 = mt'" using sent h(3) by simp
  with h(4) start(2) net have "content (net_queue mt') = ([header_message now, flags_message] @ xs) @ ys"
    by (simp add: queued_def)
  from that [OF h(1,2) this _ h(6-10)] h(5) opening_begins show thesis by simp
qed

text \<open>All that is known when the handshake of a run is over.\<close>

lemma network_run:
  assumes Q: "conc_queue Q content" and q: "content q0 = []"
    and init: "init Q date config opens now True rt (new_mu_telemetry q0) = Inr (b, mt)" and net: "with_network mt"
    and calls: "session d cs (empty_view now) v" and fld: "fld \<le> 255"
    and run: "foldE (sys_step Q fld) evs (new_sys q0) = Inr s" and synced: "sync_at s = Synced"
    and sent: "foldE (api_run Q) cs mt = Inr mt'" and queue: "prefix (enqueued evs) (content (net_queue mt'))"
  obtains u xs ys where "session d (takeWhile (\<lambda>c. \<not> is_record c) cs) (empty_view now) u" and "v_formats u = v_formats v"
    and "content (net_queue mt') = ([header_message now, flags_message] @ xs) @ ys"
    and "definitions (strm s) = [header_message now, flags_message] @ xs" and "kept (strm s) = definitions (strm s)"
    and "parses d xs (empty_view now) u" and "parses d ys u v"
proof -
  obtain u xs ys where h: "session d (takeWhile (\<lambda>c. \<not> is_record c) cs) (empty_view now) u" "v_formats u = v_formats v"
    "content (net_queue mt') = ([header_message now, flags_message] @ xs) @ ys"
    "\<forall>x \<in> set ([header_message now, flags_message] @ xs). begins x = Inr False"
    "ys = [] \<or> begins (hd ys) = Inr True" "parses d xs (empty_view now) u" "parses d ys u v"
    by (rule net_messages [OF Q q init net calls sent])
  let ?as = "[header_message now, flags_message] @ xs" and ?P = "\<lambda>m. begins m \<noteq> Inr True"
  note split = flow_split(3,4) [OF flow_run [OF Q q run fld]]
  have at: "sync_at s \<noteq> Collecting" using synced by simp
  have "\<forall>x \<in> set ?as. ?P x" using h(4) by simp
  moreover have "ys = [] \<or> \<not> ?P (hd ys)" using h(5) by simp
  moreover have "takeWhile ?P (enqueued evs) \<noteq> enqueued evs" using split [OF at] by metis
  ultimately have "takeWhile ?P (enqueued evs) = ?as"
    using takeWhile_prefix [of ?P "enqueued evs" ?as ys] queue [unfolded h(3)] by blast
  with split(1) [OF at] have defs: "definitions (strm s) = ?as" by (rule trans)
  have "sent_upto (length (definitions (strm s))) (strm s)"
    using sys_ok_sent [OF streamer_machine.run_inv [OF sys_ok_new run]] synced by auto
  then have "kept (strm s) = definitions (strm s)" by (rule kept_definitions)
  from that [OF h(1-3) defs this h(6,7)] show thesis .
qed

text \<open>The payloads of the ground station, parsed one after the other.\<close>

definition parse_payloads :: "nat \<Rightarrow> byte list list \<Rightarrow> parser res" where
  "parse_payloads stk bs = foldE (parse_call stk) (map (\<lambda>b. (b, 0)) bs) new_parser"

lemma parse_opening:
  obtains ps where "parse_payloads (Suc d) [header_message t, flags_message] = Inr ps" and "hears d (empty_view t) ps"
  using opening_parsed [OF stored_all_self [of "[header_message t, flags_message]"]] by (auto simp: parse_payloads_def)

lemma parse_payloads_append:
  assumes "parse_payloads (Suc d) as = Inr ps" and "hears d v ps" and "parses d bs v u"
  obtains ps' where "parse_payloads (Suc d) (as @ bs) = Inr ps'" and "hears d u ps'"
  using assms stored_all_self [of bs] unfolding parses_def parse_payloads_def map_append foldE_append by fastforce

text \<open>On runs that lose no data message the parser learns everything.\<close>

lemma ground_station_hears_all:
  assumes Q: "conc_queue Q content" and q: "content q0 = []"
    and init: "init Q date config opens now True rt (new_mu_telemetry q0) = Inr (b, mt)" and net: "with_network mt"
    and calls: "session d cs (empty_view now) v" and fld: "fld \<le> 255"
    and run: "foldE (sys_step Q fld) evs (new_sys q0) = Inr s" and synced: "sync_at s = Synced"
    and sent: "foldE (api_run Q) cs mt = Inr mt'" and queue: "prefix (enqueued evs) (content (net_queue mt'))"
    and lossless: "length (definitions (strm s)) + length (streamed (strm s)) = length (content (net_queue mt'))"
  shows "\<exists>ps. parse_payloads (Suc d) (kept (strm s) @ streamed (strm s)) = Inr ps \<and>
      p_state ps \<noteq> STATE_INVALID \<and> start_time ps = v_start v \<and> formats_map ps = v_formats v \<and>
      parameters ps = v_params v \<and> info ps = v_info v \<and> log_calls ps = v_logs v \<and> data_calls ps = v_data v"
proof -
  obtain u xs ys where n: "content (net_queue mt') = ([header_message now, flags_message] @ xs) @ ys"
    "definitions (strm s) = [header_message now, flags_message] @ xs" "kept (strm s) = definitions (strm s)"
    "parses d xs (empty_view now) u" "parses d ys u v"
    using network_run [OF assms(1-10)] by metis
  from flow_split(2) [OF flow_run [OF Q q run fld]]
  have "subseq (streamed (strm s)) (drop (length (definitions (strm s))) (content (net_queue mt')))"
    using queue by (auto elim!: prefixE intro: subseq_rev_drop_many)
  then have "streamed (strm s) = ys"
    using lossless n(1,2) subseq_same_length by auto
  obtain ps1 where ps1: "parse_payloads (Suc d) [header_message now, flags_message] = Inr ps1" "hears d (empty_view now) ps1"
    by (rule parse_opening)
  obtain ps2 where ps2: "parse_payloads (Suc d) ([header_message now, flags_message] @ xs) = Inr ps2" "hears d u ps2"
    by (rule parse_payloads_append [OF ps1 n(4)])
  obtain ps where "parse_payloads (Suc d) (([header_message now, flags_message] @ xs) @ ys) = Inr ps" "hears d v ps"
    by (rule parse_payloads_append [OF ps2 n(5)])
  with \<open>streamed (strm s) = ys\<close> n(2,3) show ?thesis by (auto simp: hears_def)
qed

text \<open>A schedule that loses nothing.\<close>

lemma delivery_network:
  assumes Q: "conc_queue Q content" and q: "content q0 = []"
    and init: "init Q date config opens now True rt (new_mu_telemetry q0) = Inr (b, mt)" and net: "with_network mt"
    and calls: "session d cs (empty_view now) v" and data: "\<exists>c \<in> set cs. is_record c"
    and sent: "foldE (api_run Q) cs mt = Inr mt'"
    and fit: "\<forall>m \<in> set (content (net_queue mt')). length m \<le> fld" and fld: "fld \<le> 255"
    and losses: "length losses = length (takeWhile (\<lambda>c. \<not> is_record c) cs) + 2"
    and lc: "lc_command lc = LOGGING_START"
    and sa: "(ucast (group_id sa) :: byte) \<noteq> 0" "(ucast (instance_id sa) :: byte) \<noteq> 0"
  obtains s where "foldE (turn_step Q fld) (delivery (content (net_queue mt')) (length losses) lc sa losses junk) (new_sys q0)
      = Inr s" and "sync_at s = Synced"
    and "length (definitions (strm s)) + length (streamed (strm s)) = length (content (net_queue mt'))"
proof -
  obtain u xs ys where h: "content (net_queue mt') = ([header_message now, flags_message] @ xs) @ ys"
    "\<forall>x \<in> set ([header_message now, flags_message] @ xs). begins x = Inr False"
    "ys = [] \<or> begins (hd ys) = Inr True" "length xs = length (takeWhile (\<lambda>c. \<not> is_record c) cs)"
    "ys = [] \<longleftrightarrow> (\<forall>c \<in> set cs. \<not> is_record c)"
    using net_messages [OF Q q init net calls sent] by metis
  let ?ds = "[header_message now, flags_message] @ xs"
  obtain x zs where ys: "ys = x # zs" "begins x = Inr True" using h(3,5) data by (cases ys) auto
  have len: "length losses = length ?ds" using h(4) losses by simp
  have "leads Q fld (delivery (?ds @ x # zs) (length ?ds) lc sa losses junk) (\<lambda>s. s = new_sys q0)
      (streaming content fld [] (x # zs))"
    using fit by (intro conc_queue.delivery_run [OF Q q lc sa h(2) ys(2) _ fld len]) (simp add: h(1) ys(1))
  then obtain s where s: "foldE (turn_step Q fld) (delivery (content (net_queue mt')) (length losses) lc sa losses junk)
      (new_sys q0) = Inr s" "streaming content fld [] ys s"
    unfolding h(1) ys(1) len leads_def by metis
  have st: "sync_at s = Synced" "streamed (strm s) = ys" using s(2) by (simp_all add: streaming_def)
  note run = s(1) [unfolded turns_are_events]
  have "definitions (strm s) = takeWhile (\<lambda>m. begins m \<noteq> Inr True) (?ds @ x # zs)"
    using flow_split(3) [OF flow_run [OF Q q run fld]] st(1) unfolding enqueued_delivery h(1) ys(1) by simp
  then have "definitions (strm s) = ?ds" using h(2) ys(2) by (simp add: takeWhile_append)
  then have "length (definitions (strm s)) + length (streamed (strm s)) = length (content (net_queue mt'))"
    by (simp add: h(1) st(2))
  with that [OF s(1) st(1)] show thesis .
qed

end
