(* ===== verification/Streamer_Claims.thy ===== *)
theory Streamer_Claims
  imports Streamer_Loss
begin

text \<open>
  Properties of the streamer: the order in which definitions reach the ground station on
  every run, that runs without a cut turn do not fail and end in spite of losses,
  how the data loop counts, and the runs and inputs that abort the process.
\<close>

text \<open>C12. On every run, with any interleaving of the sync thread, the discard thread, the data loop and
  the two message handlers that does not abort, the acknowledged messages handed to the
  network are the first definitions in order, each one or more times in a row with its own
  sequence number; and when the data phase has begun they are all of them.\<close>

theorem definitions_sent_in_order:
  assumes "foldE (sys_step Q fld) evs (new_sys q) = Inr s"
  shows "\<exists>n ks. n \<le> length (definitions (strm s)) \<and> remdups_adj ks = [0..<n] \<and>
    sent_definitions (strm s) = map (\<lambda>k. (word_of_nat k, definitions (strm s) ! k)) ks \<and>
    (sync_at s = Synced \<longrightarrow> n = length (definitions (strm s)))"
  using sys_ok_sent [OF streamer_machine.run_inv [OF sys_ok_new assms]] unfolding sent_upto_def by blast

text \<open>A ground station that starts the stream, a definition, the beginning of the data.\<close>

definition start_command :: command_long where
  "start_command = \<lparr>lc_command = LOGGING_START, lc_confirmation = 1, lc_target_system = 1, lc_target_component = 1\<rparr>"

definition ground_station :: sparse_address where
  "ground_station = \<lparr>group_id = 10, instance_id = 20\<rparr>"

definition flags_bytes :: "byte list" where
  "flags_bytes = frame 66 (replicate 40 0)"

definition data_bytes :: "byte list" where
  "data_bytes = frame 65 [0, 0, 0, 84]"

definition sample_turns :: "turn list" where
  "sample_turns = [T_Enqueue flags_bytes, T_Enqueue data_bytes, T_Cmd start_command ground_station,
     T_Sync, T_Sync, T_Sync, T_Ack 0, T_Sync, T_Sync, T_Main_Begin, T_Main (\<lambda>_. 0), T_Post]"

lemma sample_turns_fit: "\<forall>t \<in> set sample_turns. turn_fits 249 t"
  by (simp add: sample_turns_def queue_msg_ok_def flags_bytes_def data_bytes_def frame_def start_command_def
      ground_station_def nth_append enc_le_def)

theorem definitions_sent_in_order_witness:
  "\<exists>s. foldE (sys_step list_queue 249) (concat (map turn_events sample_turns)) (new_sys []) = Inr s \<and>
    (\<exists>n ks. n \<le> length (definitions (strm s)) \<and> remdups_adj ks = [0..<n] \<and>
      sent_definitions (strm s) = map (\<lambda>k. (word_of_nat k, definitions (strm s) ! k)) ks)"
proof -
  obtain s where "foldE (turn_step list_queue 249) sample_turns (new_sys []) = Inr s"
    using fifo.run_calm [OF fifo.sys_calm_new [OF refl] sample_turns_fit] by blast
  then have run: "foldE (sys_step list_queue 249) (concat (map turn_events sample_turns)) (new_sys []) = Inr s"
    by (simp add: turns_are_events)
  from run definitions_sent_in_order [OF run] show ?thesis by blast
qed



text \<open>C15. The handshake ends although messages and acknowledgements are lost. From the state a start command
  leaves, for any number of losses of each definition, each of which costs the sync thread twenty
  waits before it sends again, the streamer comes to its data phase, and every definition was
  sent in order, once more than it was lost.\<close>

theorem handshake_ends:
  assumes "phase fld nq ds 0 STATE_CONNECTED n [] s" and "length losses = length ds"
  shows "\<exists>s'. foldE (turn_step Q fld) (lossy_handshake losses) s = Inr s' \<and>
    sync_at s' = Synced \<and> st_state (strm s') = STATE_RUNNING \<and> st_running (strm s') \<and>
    sent_definitions (strm s') =
      concat (map (\<lambda>(k, m). replicate (Suc m) (word_of_nat k, ds ! k)) (enumerate 0 losses))"
  using lossy_handshake_ends [OF assms(2), of Q fld nq n] assms(1)
  by (auto simp: leads_def finished_def lossy_sends_def)

text \<open>The streamer after a start command, with three definitions collected.\<close>

definition connected_sys :: "byte list list sys" where
  "connected_sys = (new_sys [])\<lparr>sync_at := Sending, strm := new_streamer\<lparr>st_roster := True, st_queue := Some Net_Queue,
     st_state := STATE_CONNECTED, target_system := 10, target_component := 20, discarding := True,
     definitions := [[1, 2, 73], [3, 4, 70], [5, 6, 80]]\<rparr>\<rparr>"

lemma connected_sys_phase: "phase 249 [] [[1, 2, 73], [3, 4, 70], [5, 6, 80]] 0 STATE_CONNECTED 0 [] connected_sys"
  by (simp add: connected_sys_def phase_def new_sys_def new_streamer_def strm_calm_def sent_definitions_def streamed_def)

theorem handshake_ends_witness:
  "\<exists>s'. foldE (turn_step list_queue 249) (lossy_handshake [0, 2, 1]) connected_sys = Inr s' \<and>
    sync_at s' = Synced \<and> st_state (strm s') = STATE_RUNNING \<and> st_running (strm s') \<and>
    sent_definitions (strm s') =
      concat (map (\<lambda>(k, m). replicate (Suc m) (word_of_nat k, [[1, 2, 73], [3, 4, 70], [5, 6, 80]] ! k))
        (enumerate 0 [0, 2, 1]))"
  by (rule handshake_ends [OF connected_sys_phase]) simp

text \<open>C29. One late acknowledgement doubles the whole handshake. If the first acknowledgement comes after the
  timeout, and from then on every message sent is acknowledged once and in order, each second
  acknowledgement is stale for the definition that was just sent and makes the sync thread send it
  again: every definition is sent twice.\<close>

theorem late_ack_doubles_definitions:
  assumes "phase fld nq ds 0 STATE_CONNECTED n [] s" and "length ds = Suc m"
  shows "\<exists>s'. foldE (turn_step Q fld) (late_handshake m) s = Inr s' \<and>
    sync_at s' = Synced \<and> st_state (strm s') = STATE_RUNNING \<and>
    sent_definitions (strm s') = concat (map (\<lambda>k. replicate 2 (word_of_nat k, ds ! k)) [0..<Suc m])"
  using late_handshake_doubles [OF assms(2), of Q fld nq n] assms(1)
  by (auto simp: leads_def finished_def doubled_def simp del: upt_Suc)

theorem late_ack_doubles_definitions_witness:
  "\<exists>s'. foldE (turn_step list_queue 249) (late_handshake 2) connected_sys = Inr s' \<and>
    sync_at s' = Synced \<and> st_state (strm s') = STATE_RUNNING \<and>
    sent_definitions (strm s') =
      concat (map (\<lambda>k. replicate 2 (word_of_nat k, [[1, 2, 73], [3, 4, 70], [5, 6, 80]] ! k)) [0..<Suc 2])"
  by (rule late_ack_doubles_definitions [OF connected_sys_phase]) simp

text \<open>C32. The acknowledgement and the timeout race. When it arrives while the sync thread is in the
  twentieth of its waits, between its load of the state and its exchange, the exchange fails
  and the process is aborted.\<close>

theorem ack_races_timeout:
  assumes "sync_at s = Sending" and "sync_loaded s = None" and "acks s = []"
    and "st_state (strm s) = STATE_ACK_WAIT" and "sync_timeout (strm s) = 950"
    and "seq_no (strm s) < length (definitions (strm s))"
  shows "foldE (sys_step Q fld) [Sync_Load, Ack_Load sq, Ack_Commit, Sync_Act] s = Inl Abort"
  using assms
  by (auto simp: sys_step_def sync_load_def sync_commit_def commit_ack_def sync_act_def Let_def
      set_state_or_die_def set_state_def)

text \<open>The same streamer after it sent the first definition and waited nineteen times.\<close>

definition waiting_sys :: "byte list list sys" where
  "waiting_sys = connected_sys\<lparr>strm := (strm connected_sys)\<lparr>st_state := STATE_ACK_WAIT, sync_timeout := 950\<rparr>\<rparr>"

theorem ack_races_timeout_witness:
  "foldE (sys_step list_queue 249) [Sync_Load, Ack_Load 0, Ack_Commit, Sync_Act] waiting_sys = Inl Abort"
  by (rule ack_races_timeout)
    (simp_all add: waiting_sys_def connected_sys_def new_sys_def new_streamer_def)

text \<open>A start command from a group or an instance whose low byte is 0 aborts the process: the
  targets are kept in one byte each, and the next turn of the sync thread asserts that they
  are not 0.\<close>

theorem zero_target_aborts:
  assumes "sync_at s = Sending" and "sync_loaded s = None" and "cmds s = []" and "st_roster (strm s)"
    and "st_state (strm s) = STATE_INIT" and "lc_command lc = LOGGING_START"
    and "(ucast (group_id sa) :: byte) = 0 \<or> (ucast (instance_id sa) :: byte) = 0"
    and "seq_no (strm s) < length (definitions (strm s))"
  shows "foldE (turn_step Q fld) [T_Cmd lc sa, T_Sync] s = Inl Abort"
  using assms
  by (auto simp: turn_step_def sys_step_def cmd_load_def decide_command_def commit_command_def sendmavmsg_def
      set_state_or_die_def set_state_def sync_load_def sync_commit_def sync_act_def assertE_def)

definition idle_sys :: "byte list list sys" where
  "idle_sys = connected_sys\<lparr>strm := (strm connected_sys)\<lparr>st_state := STATE_INIT, target_system := 0, target_component := 0\<rparr>\<rparr>"

theorem zero_target_aborts_witness:
  "foldE (turn_step list_queue 249) [T_Cmd start_command \<lparr>group_id = 256, instance_id = 20\<rparr>, T_Sync] idle_sys = Inl Abort"
  by (rule zero_target_aborts)
    (simp_all add: idle_sys_def connected_sys_def new_sys_def new_streamer_def start_command_def)

text \<open>A ground station whose group or instance needs more than one byte can start the stream but not
  stop it: its commands are compared with the low bytes that were kept, so a stop is answered
  with a refusal and changes nothing.\<close>

theorem wide_target_cannot_stop:
  assumes "256 \<le> group_id sa \<or> 256 \<le> instance_id sa" and "lc_command lc = LOGGING_STOP"
    and "lc_confirmation lc \<noteq> 0" and "st_roster st"
  shows "\<exists>m. proto_command_handler lc sa st = Inr (st\<lparr>sent := sent st @ [m]\<rparr>) \<and>
    (\<exists>a b c d e. fst m = Command_Ack a b LOGGING_STOP False c d e)"
proof -
  have byte: "(ucast (b :: byte) :: 32 word) < 256" for b
  proof -
    have "unat (ucast b :: 32 word) \<le> unat b" by (simp add: unsigned_ucast_eq)
    then have "unat (ucast b :: 32 word) < 256" using unat_byte_bound [of b] by linarith
    then show ?thesis by (simp add: word_less_nat_alt)
  qed
  have "\<not> same_target sa st"
    using assms(1) byte [of "target_system st"] byte [of "target_component st"]
    by (auto simp: same_target_def)
  then have "decide_command lc sa (st_state st) st = (STATE_UNKNOWN, st)"
    using assms(2) by (simp add: decide_command_def)
  then show ?thesis
    using assms(2-4)
    by (intro exI [of _ "(Command_Ack (lc_target_system lc) (lc_target_component lc) LOGGING_STOP False port
          (ucast (group_id sa)) (instance_id sa), group_id sa, instance_id sa)"])
      (simp add: proto_command_handler_def commit_command_def sendmavmsg_def)
qed

theorem wide_target_cannot_stop_witness:
  "\<exists>m. proto_command_handler (start_command\<lparr>lc_command := LOGGING_STOP\<rparr>) \<lparr>group_id = 10, instance_id = 276\<rparr>
        ((strm connected_sys)\<lparr>st_state := STATE_RUNNING\<rparr>) =
      Inr ((strm connected_sys)\<lparr>st_state := STATE_RUNNING,
             sent := sent ((strm connected_sys)\<lparr>st_state := STATE_RUNNING\<rparr>) @ [m]\<rparr>) \<and>
    (\<exists>a b c d e. fst m = Command_Ack a b LOGGING_STOP False c d e)"
  by (rule wide_target_cannot_stop)
    (simp_all add: start_command_def connected_sys_def new_sys_def new_streamer_def)

text \<open>C40. A definition longer than the data field of a MAVLink message, which the application can
  register, aborts the process when its turn comes.\<close>

theorem long_definition_aborts:
  assumes "seq_no st < length (definitions st)" and "fld < length (definitions st ! seq_no st)"
    and "st_state st \<in> {STATE_SEND_DEF, STATE_RESEND_DEF}"
  shows "sync_turn fld st = Inl Abort"
  using assms by (auto simp: sync_turn_def sync_act_def send_definition_def send_ulog_ack_def assertE_def)

theorem long_definition_aborts_witness:
  "sync_turn 249 (new_streamer\<lparr>definitions := [replicate 250 0], st_state := STATE_SEND_DEF\<rparr>) = Inl Abort"
  by (rule long_definition_aborts) (simp_all add: new_streamer_def)

text \<open>The data loop takes messages off the queue one by one. What fits the field is handed to the
  network in order and counted as sent, padded to the length of the field; what does not fit
  is counted as skipped; every message is one or the other.\<close>

theorem stream_loop_counts:
  assumes Q: "conc_queue Q content" and roster: "st_roster st"
    and enough: "length (content q) \<le> length js"
  shows "\<exists>st' q'. stream_loop Q fld STATE_RUNNING js st q = Inr (True, st', q') \<and> content q' = [] \<and>
    (let fit = filter (\<lambda>(bs, junk). length bs \<le> fld) (zip (content q) js) in
     posted st' = posted st @ map (\<lambda>(bs, junk). Logging_Data (target_system st) (target_component st) 0
                    (word_of_nat (length bs)) 255 (bs @ map junk [length bs..<fld])) fit \<and>
     send_cntr st' = send_cntr st + word_of_nat (length fit) \<and>
     skip_cntr st' = skip_cntr st + word_of_nat (length (content q) - length fit))"
  using roster enough
proof (induction js arbitrary: st q)
  case Nil
  then show ?case using conc_queue.empty_iff [OF Q, of q] by simp
next
  case (Cons j js)
  show ?case
  proof (cases "cq_empty Q q")
    case True
    then show ?thesis using conc_queue.empty_iff [OF Q, of q] by simp
  next
    case False
    obtain x xs q1 where c: "content q = x # xs" and d: "cq_dequeue Q q = (Some x, q1)" "content q1 = xs"
      using conc_queue.dequeue_cases [OF Q False] by metis
    let ?msg = "Logging_Data (target_system st) (target_component st) 0 (word_of_nat (length x)) 255
      (x @ map j [length x..<fld])"
    define st1 where "st1 = (if length x \<le> fld then st\<lparr>posted := posted st @ [?msg], send_cntr := send_cntr st + 1\<rparr>
      else st\<lparr>skip_cntr := skip_cntr st + 1\<rparr>)"
    have one: "stream_one Q fld STATE_RUNNING j st q = Inr (st1, q1)"
      using d(1) Cons.prems(1)
      by (auto simp: stream_one_def send_ulog_def memcpy_at_def st1_def drop_map)
    let ?fit = "filter (\<lambda>(bs, junk). length bs \<le> fld) (zip xs js)"
    have le: "length ?fit \<le> length xs"
      using length_filter_le [of "\<lambda>(bs, junk). length bs \<le> fld" "zip xs js"] by simp
    have prems1: "st_roster st1" "length (content q1) \<le> length js"
      using Cons.prems c d(2) by (simp_all add: st1_def)
    obtain st' q' where loop: "stream_loop Q fld STATE_RUNNING js st1 q1 = Inr (True, st', q')" "content q' = []"
      "posted st' = posted st1 @ map (\<lambda>(bs, junk). Logging_Data (target_system st1) (target_component st1) 0
                    (word_of_nat (length bs)) 255 (bs @ map junk [length bs..<fld])) ?fit"
      "send_cntr st' = send_cntr st1 + word_of_nat (length ?fit)"
      "skip_cntr st' = skip_cntr st1 + word_of_nat (length xs - length ?fit)"
      using Cons.IH [OF prems1] unfolding d(2) Let_def by metis
    have ne: "\<not> cq_empty Q q" by (rule False)
    show ?thesis
    proof (cases "length x \<le> fld")
      case True
      then have "st1 = st\<lparr>posted := posted st @ [?msg], send_cntr := send_cntr st + 1\<rparr>" by (simp add: st1_def)
      with True False one c loop show ?thesis by (intro exI [of _ st'] exI [of _ q']) (simp add: Let_def)
    next
      case False
      then have "st1 = st\<lparr>skip_cntr := skip_cntr st + 1\<rparr>" by (simp add: st1_def)
      with False ne one c loop le show ?thesis
        by (intro exI [of _ st'] exI [of _ q']) (simp add: Let_def Suc_diff_le)
    qed
  qed
qed

theorem stream_loop_counts_witness:
  "\<exists>st' q'. stream_loop list_queue 249 STATE_RUNNING [\<lambda>_. 0, \<lambda>_. 0] (strm connected_sys) [[1], replicate 300 2] =
      Inr (True, st', q') \<and> q' = []"
  using stream_loop_counts [OF fifo.conc_queue_axioms, of "strm connected_sys" "[[1], replicate 300 2]"
      "[\<lambda>_. 0, \<lambda>_. 0]" 249]
  by (auto simp: connected_sys_def new_sys_def)

section \<open>Between the registration of the handlers and the end of init\<close>

text \<open>
  \<open>init\<close> makes the handlers known to the router before it sets \<open>roster_\<close>. A command that arrives in between and asks for an
  answer follows the null pointer; one that does not is taken as it is after \<open>init\<close>.
\<close>

lemma early_command:
  assumes "lc_command lc = LOGGING_START \<or> lc_command lc = LOGGING_STOP"
  shows "proto_command_handler lc sa new_streamer =
    (if lc_confirmation lc \<noteq> 0 then Inl Undefined
     else Inr (if lc_command lc = LOGGING_START
               then new_streamer\<lparr>st_state := STATE_CONNECTED, target_system := ucast (group_id sa), target_component := ucast (instance_id sa)\<rparr>
               else new_streamer))"
  using assms by (auto simp: proto_command_handler_def decide_command_def commit_command_def set_state_or_die_def set_state_def
      sendmavmsg_def new_streamer_def Let_def)

end
