(* ===== verification/Network_Claims.thy ===== *)
theory Network_Claims
  imports Network Samples Streamer_Claims
begin

text \<open>
  Properties of the way over the network: the streamer keeps the order of the queue, and a parser at
  the ground station learns what the application said.
\<close>




text \<open>C4. From the application to the ground station, on any run. When an application uses a started stream as
  the library expects and the handshake of its streamer has come to an end, however its
  threads were interleaved and however many messages went out twice, a parser that is given the payloads of the
  acknowledged messages, without repetitions, knows the start of the log, the parameters and information registered before
  the first record, and all formats of the session.\<close>

theorem ground_station_learns_definitions:
  assumes Q: "conc_queue Q content" and q: "content q0 = []"
    and init: "init Q date config opens now True rt (new_mu_telemetry q0) = Inr (b, mt)" and net: "with_network mt"
    and calls: "session d cs (empty_view now) v" and fld: "fld \<le> 255"
    and run: "foldE (sys_step Q fld) evs (new_sys q0) = Inr s" and synced: "sync_at s = Synced"
    and sent: "foldE (api_run Q) cs mt = Inr mt'" and queue: "prefix (enqueued evs) (content (net_queue mt'))"
  shows "mt_streamer mt = strm (new_sys q0) \<and>
    (\<exists>u ps. session d (takeWhile (\<lambda>c. \<not> is_record c) cs) (empty_view now) u \<and> v_formats u = v_formats v \<and>
      parse_payloads (Suc d) (kept (strm s)) = Inr ps \<and> p_state ps \<noteq> STATE_INVALID \<and> start_time ps = now \<and> formats_map ps = v_formats v \<and>
      parameters ps = v_params u \<and> info ps = v_info u)"
proof -
  obtain u xs ys where n: "session d (takeWhile (\<lambda>c. \<not> is_record c) cs) (empty_view now) u" "v_formats u = v_formats v"
    "definitions (strm s) = [header_message now, flags_message] @ xs" "kept (strm s) = definitions (strm s)"
    "parses d xs (empty_view now) u"
    using network_run [OF assms] by metis
  obtain ps1 where ps1: "parse_payloads (Suc d) [header_message now, flags_message] = Inr ps1" "hears d (empty_view now) ps1"
    by (rule parse_opening)
  obtain ps where "parse_payloads (Suc d) (kept (strm s)) = Inr ps" "hears d u ps"
    using parse_payloads_append [OF ps1 n(5)] n(3,4) by metis
  moreover have "v_start u = now" using session_start [OF n(1)] by (simp add: empty_view_def)
  moreover have "mt_streamer mt = strm (new_sys q0)"
    using init_starts(6) [OF Q q init _ net] net by (simp add: is_enabled_def)
  ultimately show ?thesis using n(1,2) by (auto simp: hears_def)
qed


lemmas sample_session_net = fifo.conc_queue_axioms refl started_net_init sample_session

lemma sample_net_facts:
  "\<forall>m \<in> set (net_queue sample_net). length m \<le> 249" "\<exists>c \<in> set sample_calls. is_record c"
  "length [0, 2, 1 :: nat] = length (takeWhile (\<lambda>c. \<not> is_record c) sample_calls) + 2"
  "lc_command start_command = LOGGING_START" "(ucast (group_id ground_station) :: byte) \<noteq> 0"
  "(ucast (instance_id ground_station) :: byte) \<noteq> 0"
  using sample_net_small by (simp_all add: list_all_iff sample_calls_def start_command_def ground_station_def)


theorem ground_station_learns_definitions_witness:
  "\<exists>s ps. foldE (sys_step list_queue 249) (concat (map turn_events
       (delivery (net_queue sample_net) 3 start_command ground_station [0, 2, 1] (\<lambda>_. 0)))) (new_sys []) = Inr s \<and>
    parse_payloads 1 (kept (strm s)) = Inr ps \<and> start_time ps = 5 \<and> formats_map ps = v_formats sample_view"
proof -
  obtain s where s: "foldE (turn_step list_queue 249) (delivery (net_queue sample_net) (length [0, 2, 1 :: nat])
      start_command ground_station [0, 2, 1] (\<lambda>_. 0)) (new_sys []) = Inr s" "sync_at s = Synced"
    by (rule delivery_network [OF sample_session_net sample_net_facts(2) sample_net_sent sample_net_facts(1) _
        sample_net_facts(3-6)]) simp_all
  from ground_station_learns_definitions [OF sample_session_net _ s(1) [unfolded turns_are_events] s(2) sample_net_sent] s(1)
  show ?thesis unfolding numeral_3_eq_3 by (simp add: enqueued_delivery turns_are_events) blast
qed

end
