(* ===== verification/Client.thy ===== *)
theory Client
  imports Streamer Parser
begin

text \<open>
  The ground station of the repository, \<open>tests/mutelemetry_client.cc\<close>: its handlers for the messages
  of the streamer and the functions that send commands. What the handlers decode out of a MAVLink
  message are arguments; the singleton parser of the library is a member of the state, \<open>cl_out\<close> holds the
  messages handed to the network.
\<close>

datatype client_msg = Logging_Ack "16 word" byte byte | Command command_long

record client =
  sequence_keeper :: "16 word set"
  is_start_ack :: bool
  is_stop_ack :: bool
  msg_cntr :: "64 word"
  cl_parser :: parser
  cl_out :: "client_msg list"

definition new_client :: client where
  "new_client = \<lparr>sequence_keeper = {}, is_start_ack = False, is_stop_ack = False, msg_cntr = 0,
     cl_parser = new_parser, cl_out = []\<rparr>"

section \<open>Handlers\<close>

definition on_command_long :: "client \<Rightarrow> client res" where
  "on_command_long cl = Inl Abort"

definition on_command_ack :: "mav_cmd \<Rightarrow> 32 word \<Rightarrow> client \<Rightarrow> client" where
  "on_command_ack command result_param2 cl =
     (if result_param2 = port then
        if command = LOGGING_START then cl\<lparr>is_start_ack := True\<rparr>
        else if command = LOGGING_STOP then cl\<lparr>is_start_ack := False, is_stop_ack := True\<rparr>
        else cl
      else cl)"

text \<open>\<open>check_ulog_valid\<close> on the data of a message, and the assertion on its result.\<close>

definition check_payload :: "nat \<Rightarrow> byte list \<Rightarrow> parser \<Rightarrow> parser res" where
  "check_payload stk buffer ps =
     bindE (check_ulog_valid stk buffer 0 ps) (\<lambda>(ps, valid).
     bindE (assertE valid) (\<lambda>_. Inr ps))"

definition on_logging_data :: "nat \<Rightarrow> byte list \<Rightarrow> client \<Rightarrow> client res" where
  "on_logging_data stk buffer cl =
     (let cl = cl\<lparr>msg_cntr := msg_cntr cl + 1\<rparr> in
      bindE (check_payload stk buffer (cl_parser cl)) (\<lambda>ps. Inr (cl\<lparr>cl_parser := ps\<rparr>)))"

definition on_logging_data_acked ::
    "nat \<Rightarrow> sparse_address \<Rightarrow> 16 word \<Rightarrow> byte list \<Rightarrow> client \<Rightarrow> client res" where
  "on_logging_data_acked stk sa sequence buffer cl =
     (let is_new = sequence \<notin> sequence_keeper cl;
          cl = (if is_new then cl\<lparr>sequence_keeper := insert sequence (sequence_keeper cl)\<rparr> else cl) in
      bindE (if is_new then
               bindE (check_payload stk buffer (cl_parser cl)) (\<lambda>ps. Inr (cl\<lparr>cl_parser := ps\<rparr>))
             else Inr cl) (\<lambda>cl.
      let logging_ack = Logging_Ack sequence (ucast (group_id sa)) (ucast (instance_id sa)) in
      Inr (cl\<lparr>cl_out := cl_out cl @ [logging_ack]\<rparr>)))"

text \<open>
  The table of handlers. The data of an acknowledged message is an array of fixed length, of which the
  sender's message is the beginning; \<open>rest\<close> is what follows it there.
\<close>

definition client_receive ::
    "nat \<Rightarrow> sparse_address \<Rightarrow> byte list \<Rightarrow> mav_msg \<Rightarrow> client \<Rightarrow> client res" where
  "client_receive stk sa rest msg cl =
     (case msg of
        Logging_Data ts tc sq len first dt \<Rightarrow> on_logging_data stk dt cl
      | Logging_Data_Acked ts tc sq len first dt \<Rightarrow> on_logging_data_acked stk sa sq (dt @ rest) cl
      | Command_Ack ts tc cmd result param2 dts dtc \<Rightarrow> Inr (on_command_ack cmd param2 cl))"

section \<open>Commands\<close>

text \<open>\<open>mavlink_msg_command_long_pack\<close> with the confirmation 0.\<close>

definition command_start_logging :: "byte \<Rightarrow> client \<Rightarrow> client" where
  "command_start_logging sys_id cl =
     cl\<lparr>cl_out := cl_out cl @ [Command \<lparr>lc_command = LOGGING_START, lc_confirmation = 0,
          lc_target_system = sys_id, lc_target_component = 0\<rparr>]\<rparr>"

definition command_stop_logging :: "byte \<Rightarrow> client \<Rightarrow> client" where
  "command_stop_logging sys_id cl =
     cl\<lparr>cl_out := cl_out cl @ [Command \<lparr>lc_command = LOGGING_STOP, lc_confirmation = 0,
          lc_target_system = sys_id, lc_target_component = 0\<rparr>]\<rparr>"

text \<open>\<open>connect\<close>: a start command, and an iteration of the loop that waits for the answer; the flag says that it ends.\<close>

definition connect_begin :: "byte \<Rightarrow> client \<Rightarrow> client" where
  "connect_begin sys_id cl = command_start_logging sys_id cl"

definition connect_turn :: "byte \<Rightarrow> client \<Rightarrow> bool \<times> client" where
  "connect_turn sys_id cl = (if is_start_ack cl then (True, cl) else (False, command_start_logging sys_id cl))"

text \<open>\<open>test_stop_start\<close>, whose call in \<open>main\<close> is commented out: one turn of its two inner loops.\<close>

datatype stop_start_pc = Stopping | Starting

definition stop_start_turn :: "byte \<Rightarrow> stop_start_pc \<times> client \<Rightarrow> stop_start_pc \<times> client" where
  "stop_start_turn sys_id = (\<lambda>(pc, cl).
     case pc of
       Stopping \<Rightarrow>
         if is_stop_ack cl then (Starting, cl\<lparr>is_stop_ack := False\<rparr>) else (Stopping, command_stop_logging sys_id cl)
     | Starting \<Rightarrow>
         if is_start_ack cl then (Stopping, cl) else (Starting, command_start_logging sys_id cl))"

end
