(* ===== verification/Closed_Loop.thy ===== *)
theory Closed_Loop
  imports Client Streamer_Flow
begin

text \<open>
  The streamer and the ground station together. A message that one of them has handed to the network is
  on the air from then on: it may reach the other at any later time, more than once, after
  messages sent later, or never. The streamer gets acknowledgements and commands from the ground station only.
\<close>

record 'q world =
  srv :: "'q sys"
  cli :: client

datatype world_event =
  Server event | Deliver nat "byte list" | Reply nat | Connect_Begin | Connect_Turn

text \<open>
  The events of the streamer that are its own, and the ones a message of the client makes: \<open>reply_event\<close> is \<open>proto_table\<close>, which
  handler takes which message.
\<close>

fun own_event :: "event \<Rightarrow> bool" where
  "own_event (Ack_Load sq) = False"
| "own_event (Cmd_Load lc sa) = False"
| "own_event ev = True"

fun reply_event :: "sparse_address \<Rightarrow> client_msg \<Rightarrow> event" where
  "reply_event sa (Logging_Ack sq ts tc) = Ack_Load sq"
| "reply_event sa (Command lc) = Cmd_Load lc sa"

definition server_step :: "'q cq_ops \<Rightarrow> nat \<Rightarrow> event \<Rightarrow> 'q world \<Rightarrow> 'q world res" where
  "server_step Q fld ev w = bindE (sys_step Q fld ev (srv w)) (\<lambda>s. Inr (w\<lparr>srv := s\<rparr>))"

text \<open>\<open>here\<close> is the address of the streamer for the client, \<open>there\<close> that of the client for the streamer.\<close>

definition world_step ::
    "'q cq_ops \<Rightarrow> nat \<Rightarrow> nat \<Rightarrow> byte \<Rightarrow> sparse_address \<Rightarrow> sparse_address \<Rightarrow> world_event \<Rightarrow> 'q world \<Rightarrow> 'q world res" where
  "world_step Q fld stk sys_id saddr caddr ev w =
     (case ev of
        Server ev \<Rightarrow> if own_event ev then server_step Q fld ev w else Inr w
      | Deliver i rest \<Rightarrow>
          if i < length (sent (strm (srv w))) then
            bindE (client_receive stk saddr rest (fst (sent (strm (srv w)) ! i)) (cli w)) (\<lambda>c. Inr (w\<lparr>cli := c\<rparr>))
          else Inr w
      | Reply i \<Rightarrow>
          if i < length (cl_out (cli w)) then server_step Q fld (reply_event caddr (cl_out (cli w) ! i)) w else Inr w
      | Connect_Begin \<Rightarrow> Inr (w\<lparr>cli := connect_begin sys_id (cli w)\<rparr>)
      | Connect_Turn \<Rightarrow> Inr (w\<lparr>cli := snd (connect_turn sys_id (cli w))\<rparr>))"

definition new_world :: "'q \<Rightarrow> 'q world" where
  "new_world q = \<lparr>srv = new_sys q, cli = new_client\<rparr>"

section \<open>What a step of the streamer does to the handshake\<close>

text \<open>
  Steps that leave the handshake alone, except that definitions may be added while they
  are collected; the ones that acknowledge, send or move on are treated one by one.
\<close>

definition still :: "'q sys \<Rightarrow> 'q sys \<Rightarrow> bool" where
  "still s s' \<longleftrightarrow> (\<exists>ds. definitions (strm s') = definitions (strm s) @ ds) \<and> seq_no (strm s') = seq_no (strm s) \<and>
     sent_definitions (strm s') = sent_definitions (strm s) \<and> set (acks s') \<subseteq> set (acks s) \<and>
     (st_state (strm s') = STATE_ACK_RECV \<longrightarrow> st_state (strm s) = STATE_ACK_RECV)"

lemma still_refl [simp]: "still s s"
  by (auto simp: still_def)

lemma commit_command_still:
  "commit_command lc sa state new st = Inr st' \<Longrightarrow> command_move state new \<Longrightarrow>
   definitions st' = definitions st \<and> seq_no st' = seq_no st \<and> sent_definitions st' = sent_definitions st \<and>
   (st_state st' = STATE_ACK_RECV \<longrightarrow> st_state st = STATE_ACK_RECV)"
  by (auto simp: commit_command_def command_move_def bindE_eq_Inr set_state_or_die_Inr sendmavmsg_Inr
      sent_definitions_def split: if_splits)

definition sends_next :: "'q sys \<Rightarrow> 'q sys \<Rightarrow> bool" where
  "sends_next s s' \<longleftrightarrow> seq_no (strm s) < length (definitions (strm s)) \<and>
     definitions (strm s') = definitions (strm s) \<and> seq_no (strm s') = seq_no (strm s) \<and> acks s' = acks s \<and>
     sent_definitions (strm s') =
       sent_definitions (strm s) @ [(word_of_nat (seq_no (strm s)), definitions (strm s) ! seq_no (strm s))] \<and>
     st_state (strm s') = STATE_ACK_WAIT"

definition moves_on :: "'q sys \<Rightarrow> 'q sys \<Rightarrow> bool" where
  "moves_on s s' \<longleftrightarrow> st_state (strm s) = STATE_ACK_RECV \<and> st_state (strm s') \<noteq> STATE_ACK_RECV \<and>
     definitions (strm s') = definitions (strm s) \<and> seq_no (strm s') = Suc (seq_no (strm s)) \<and> acks s' = acks s \<and>
     sent_definitions (strm s') = sent_definitions (strm s)"

definition acknowledged :: "'q sys \<Rightarrow> 'q sys \<Rightarrow> bool" where
  "acknowledged s s' \<longleftrightarrow> st_state (strm s) = STATE_ACK_WAIT \<and>
     definitions (strm s') = definitions (strm s) \<and> seq_no (strm s') = seq_no (strm s) \<and>
     sent_definitions (strm s') = sent_definitions (strm s) \<and> set (acks s') \<subseteq> set (acks s) \<and>
     (\<exists>state. (word_of_nat (seq_no (strm s)), state) \<in> set (acks s))"

lemma send_definition_next:
  assumes "send_definition fld state (strm s) = Inr st"
  shows "sends_next s (s\<lparr>strm := st, sync_loaded := l\<rparr>)"
  using assms by (auto simp: send_definition_Inr sends_next_def sent_definitions_def)

lemma sync_act_cases:
  assumes "sync_act fld state (strm s) = Inr st"
  shows "still s (s\<lparr>strm := st, sync_loaded := l\<rparr>) \<or> sends_next s (s\<lparr>strm := st, sync_loaded := l\<rparr>) \<or>
    moves_on s (s\<lparr>strm := st, sync_loaded := l\<rparr>)"
proof (cases "state \<in> {STATE_CONNECTED, STATE_SEND_DEF, STATE_RESEND_DEF}")
  case True
  with assms have "send_definition fld state (strm s) = Inr st" by (auto simp: sync_act_def bindE_eq_Inr)
  with send_definition_next show ?thesis by blast
next
  case False
  with assms show ?thesis
    by (cases state) (auto simp: sync_act_def bindE_eq_Inr set_state_or_die_Inr Let_def still_def moves_on_def
        split: if_splits)
qed

lemma sync_commit_cases:
  assumes ok: "sys_ok s" and step: "sync_commit fld s = Inr s'"
  shows "still s s' \<or> sends_next s s' \<or> moves_on s s'"
proof (cases "sync_loaded s")
  case None
  with step show ?thesis by (simp add: sync_commit_def)
next
  case (Some state)
  show ?thesis
  proof (cases "seq_no (strm s) < length (definitions (strm s))")
    case True
    with Some step obtain st where "sync_act fld state (strm s) = Inr st" "s' = s\<lparr>strm := st, sync_loaded := None\<rparr>"
      by (auto simp: sync_commit_def bindE_eq_Inr)
    with sync_act_cases show ?thesis by metis
  next
    case False
    with Some step have "still s s'" by (auto simp: sync_commit_def still_def set_state_def split: if_splits)
    then show ?thesis by simp
  qed
qed

lemma collect_still:
  "collect_step Q (strm s) (net s) = Inr (pc, st, q) \<Longrightarrow> still s (s\<lparr>strm := st, net := q, sync_at := pc\<rparr>)"
  by (auto simp: collect_step_def still_def bindE_eq_Inr Let_def split: if_splits)

lemma handler_still:
  assumes "flow_frame (strm s) st" and "seq_no st = seq_no (strm s)" and "sent_definitions st = sent_definitions (strm s)"
    and "st_state st = STATE_ACK_RECV \<longrightarrow> st_state (strm s) = STATE_ACK_RECV" and "set as \<subseteq> set (acks s)"
  shows "still s (s\<lparr>strm := st, net := q, acks := as, cmds := cs\<rparr>)"
  using assms by (auto simp: still_def flow_frame_def)

lemma stream_one_still:
  assumes "stream_one Q fld state junk (strm s) (net s) = Inr (st, q)"
  shows "still s (s\<lparr>strm := st, net := q\<rparr>)"
proof -
  obtain x q' where dq: "cq_dequeue Q (net s) = (Some x, q')"
    using assms by (auto simp: stream_one_def split: prod.splits option.splits)
  show ?thesis
  proof (cases "state = STATE_STOPPED")
    case True
    with assms dq show ?thesis by (auto simp: stream_one_def still_def)
  next
    case False
    with assms dq obtain b st1 where u: "send_ulog fld junk x (strm s) = Inr (b, st1)"
      and st: "st = (if b then st1\<lparr>send_cntr := send_cntr st1 + 1\<rparr> else st1\<lparr>skip_cntr := skip_cntr st1 + 1\<rparr>)"
      by (auto simp: stream_one_def bindE_eq_Inr split: if_splits)
    from send_ulog_Inr [OF u] st show ?thesis by (cases b) (auto simp: still_def)
  qed
qed

lemma run_posted_still:
  assumes "sys_ok s" and "run_posted (strm s) = Inr st"
  shows "still s (s\<lparr>strm := st\<rparr>)"
proof (cases "posted (strm s)")
  case Nil
  with assms(2) show ?thesis by (auto simp: run_posted_def still_def)
next
  case (Cons m rest)
  have "acked_send (m, ()) = []" using assms(1) Cons by (auto simp: sys_ok_iff handshake_ok_def)
  then have "acked_send (m, x) = []" for x :: "32 word \<times> 32 word" using acked_send_dest [of m x "()"] by simp
  with Cons assms(2) show ?thesis
    by (auto simp: run_posted_def sendmavmsg_Inr still_def sent_definitions_def)
qed

lemma commit_ack_cases:
  assumes "commit_ack sq state (strm s) = Inr st" and "acks s = (sq, state) # rest"
  shows "still s (s\<lparr>strm := st, acks := rest\<rparr>) \<or> acknowledged s (s\<lparr>strm := st, acks := rest\<rparr>)"
  using assms
  by (auto simp: commit_ack_def Let_def set_state_or_die_Inr still_def acknowledged_def split: if_splits)

lemma decide_command_still:
  assumes "decide_command lc sa state (strm s) = (new, st)"
  shows "still s (s\<lparr>strm := st, cmds := cs\<rparr>)"
  using assms by (auto simp: decide_command_def still_def split: if_splits)

lemma sys_step_cases:
  assumes ok: "sys_ok s" and step: "sys_step Q fld ev s = Inr s'" and ev: "\<And>sq. ev \<noteq> Ack_Load sq"
  shows "still s s' \<or> sends_next s s' \<or> moves_on s s' \<or> acknowledged s s'"
proof (cases ev)
  case (Enqueue bs)
  with step show ?thesis by (auto simp: sys_step_def still_def)
next
  case Sync_Load
  with step collect_still show ?thesis
    by (fastforce simp: sys_step_def sync_load_def bindE_eq_Inr still_def split: sync_pc.splits if_splits)
next
  case Sync_Act
  then have "sync_commit fld s = Inr s'" using step by (simp add: sys_step_def)
  from sync_commit_cases [OF ok this] show ?thesis by blast
next
  case Discard
  with step show ?thesis
    by (auto simp: sys_step_def bindE_eq_Inr discard_step_def still_def split: if_splits)
next
  case Main_Begin
  with step show ?thesis
    by (auto simp: sys_step_def main_begin_def Let_def bindE_eq_Inr still_def split: if_splits)
next
  case (Main_One junk)
  with step stream_one_still show ?thesis
    by (fastforce simp: sys_step_def main_one_def bindE_eq_Inr still_def split: option.splits if_splits)
next
  case Post
  with step run_posted_still [OF ok] show ?thesis by (auto simp: sys_step_def bindE_eq_Inr)
next
  case (Ack_Load sq)
  with ev show ?thesis by blast
next
  case Ack_Commit
  show ?thesis
  proof (cases "acks s")
    case Nil
    with Ack_Commit step show ?thesis by (simp add: sys_step_def)
  next
    case (Cons a rest)
    obtain sq state where a: "a = (sq, state)" by fastforce
    with Ack_Commit Cons step obtain st where "commit_ack sq state (strm s) = Inr st" "s' = s\<lparr>strm := st, acks := rest\<rparr>"
      by (auto simp: sys_step_def bindE_eq_Inr)
    with commit_ack_cases Cons a show ?thesis by blast
  qed
next
  case (Cmd_Load lc sa)
  obtain new st where d: "decide_command lc sa (st_state (strm s)) (strm s) = (new, st)" by fastforce
  from decide_command_still [OF this] Cmd_Load step d show ?thesis
    by (auto simp: sys_step_def cmd_load_def Let_def split: if_splits)
next
  case Cmd_Commit
  show ?thesis
  proof (cases "cmds s")
    case Nil
    with Cmd_Commit step show ?thesis by (simp add: sys_step_def)
  next
    case (Cons c rest)
    obtain lc sa state new where c: "c = (lc, sa, state, new)" by (cases c)
    with Cmd_Commit Cons step obtain st where st: "commit_command lc sa state new (strm s) = Inr st"
      and s': "s' = s\<lparr>strm := st, cmds := rest\<rparr>" by (auto simp: sys_step_def bindE_eq_Inr)
    have "command_move state new" using ok Cons c by (auto simp: sys_ok_iff)
    from commit_command_still [OF st this] s' show ?thesis by (auto simp: still_def)
  qed
qed

section \<open>What the client knows\<close>

text \<open>
  The first \<open>n\<close> definitions have been received, once each and in order. Every acknowledged message that is on the air is
  one of them or the next; every acknowledgement that is on the air or in a handler is for one of them; the streamer has
  not passed beyond them.
\<close>

definition in_order :: "nat \<Rightarrow> 'q sys \<Rightarrow> bool" where
  "in_order n s \<longleftrightarrow> n \<le> length (definitions (strm s)) \<and> seq_no (strm s) \<le> n \<and>
     (st_state (strm s) = STATE_ACK_RECV \<longrightarrow> seq_no (strm s) < n) \<and>
     (\<forall>(sq, dt) \<in> set (sent_definitions (strm s)).
        \<exists>k \<le> n. k < length (definitions (strm s)) \<and> sq = word_of_nat k \<and> dt = definitions (strm s) ! k) \<and>
     (\<forall>(sq, state) \<in> set (acks s). \<exists>k < n. sq = word_of_nat k)"

definition received :: "nat \<Rightarrow> byte list list \<Rightarrow> bool \<Rightarrow> client \<Rightarrow> bool" where
  "received stk ds synced c \<longleftrightarrow> sequence_keeper c = word_of_nat ` {..<length ds} \<and>
     (\<forall>sq ts tc. Logging_Ack sq ts tc \<in> set (cl_out c) \<longrightarrow> (\<exists>k < length ds. sq = word_of_nat k)) \<and>
     (\<exists>tails data. length tails = length ds \<and> (data \<noteq> [] \<longrightarrow> synced) \<and>
        foldE (check_payload stk) (map2 (@) ds tails @ data) new_parser = Inr (cl_parser c))"

lemma synced_stays: "sys_step Q fld ev s = Inr s' \<Longrightarrow> sync_at s = Synced \<Longrightarrow> sync_at s' = Synced"
  by (cases ev) (auto simp: sys_step_def sync_load_def sync_commit_def main_begin_def main_one_def cmd_load_def
      bindE_eq_Inr Let_def split: option.splits if_splits list.splits prod.splits)

lemma in_order_still:
  assumes ord: "in_order n s" and still: "still s s'"
  shows "in_order n s' \<and> take n (definitions (strm s')) = take n (definitions (strm s))"
proof -
  obtain ds where ds: "definitions (strm s') = definitions (strm s) @ ds" using still by (auto simp: still_def)
  have n: "n \<le> length (definitions (strm s))" using ord by (simp add: in_order_def)
  have "\<exists>k \<le> n. k < length (definitions (strm s')) \<and> sq = word_of_nat k \<and> dt = definitions (strm s') ! k"
    if "(sq, dt) \<in> set (sent_definitions (strm s'))" for sq dt
  proof -
    have "(sq, dt) \<in> set (sent_definitions (strm s))" using that still by (simp add: still_def)
    then obtain k where "k \<le> n" "k < length (definitions (strm s))" "sq = word_of_nat k" "dt = definitions (strm s) ! k"
      using ord by (fastforce simp: in_order_def)
    then show ?thesis by (intro exI [of _ k]) (simp add: ds nth_append)
  qed
  then have sent: "\<forall>(sq, dt) \<in> set (sent_definitions (strm s')).
      \<exists>k \<le> n. k < length (definitions (strm s')) \<and> sq = word_of_nat k \<and> dt = definitions (strm s') ! k" by blast
  have "\<forall>(sq, state) \<in> set (acks s'). \<exists>k < n. sq = word_of_nat k" using ord still unfolding in_order_def still_def by blast
  moreover have "n \<le> length (definitions (strm s'))" "seq_no (strm s') \<le> n"
    "st_state (strm s') = STATE_ACK_RECV \<longrightarrow> seq_no (strm s') < n"
    using ord still n by (auto simp: in_order_def still_def)
  ultimately show ?thesis using sent n unfolding in_order_def by (simp add: ds)
qed

lemma in_order_sends: "in_order n s \<Longrightarrow> sends_next s s' \<Longrightarrow> in_order n s' \<and> definitions (strm s') = definitions (strm s)"
  unfolding in_order_def sends_next_def by (simp add: ball_Un) blast

lemma in_order_moves: "in_order n s \<Longrightarrow> moves_on s s' \<Longrightarrow> in_order n s' \<and> definitions (strm s') = definitions (strm s)"
  unfolding in_order_def moves_on_def by simp

lemma word16_of_nat_inject:
  assumes "i < 65536" and "j < 65536" and "word_of_nat i = (word_of_nat j :: 16 word)"
  shows "i = j"
proof -
  have id: "unat (word_of_nat k :: 16 word) = k" if "k < 65536" for k
    by (subst unat_of_nat) (use that in simp)
  show ?thesis using id [OF assms(1)] id [OF assms(2)] assms(3) by metis
qed

lemma in_order_acknowledged:
  assumes ord: "in_order n s" and ack: "acknowledged s s'" and ok: "sys_ok s"
    and small: "length (definitions (strm s)) \<le> 65536"
  shows "in_order n s' \<and> definitions (strm s') = definitions (strm s)"
proof -
  obtain state where "(word_of_nat (seq_no (strm s)), state) \<in> set (acks s)" using ack by (auto simp: acknowledged_def)
  then obtain k where k: "k < n" "word_of_nat (seq_no (strm s)) = (word_of_nat k :: 16 word)"
    using ord by (fastforce simp: in_order_def)
  have "sent_upto (sent_count (st_state (strm s)) (seq_no (strm s))) (strm s)" "st_state (strm s) = STATE_ACK_WAIT"
    using ok ack by (auto simp: sys_ok_iff handshake_ok_def acknowledged_def)
  then have "seq_no (strm s) < 65536" using small by (simp add: sent_upto_def)
  moreover have "k < 65536" using k(1) ord small by (simp add: in_order_def)
  ultimately have "seq_no (strm s) < n" using k word16_of_nat_inject by metis
  moreover have "\<forall>(sq, state) \<in> set (acks s'). \<exists>k < n. sq = word_of_nat k"
    using ord ack unfolding in_order_def acknowledged_def by blast
  ultimately show ?thesis using ord ack by (simp add: in_order_def acknowledged_def)
qed

text \<open>Every step of the streamer.\<close>

lemma in_order_step:
  assumes "in_order n s" and "sys_step Q fld ev s = Inr s'" and "sys_ok s" and "length (definitions (strm s)) \<le> 65536"
    and "\<And>sq. ev = Ack_Load sq \<Longrightarrow> \<exists>k < n. sq = word_of_nat k"
  shows "in_order n s' \<and> take n (definitions (strm s')) = take n (definitions (strm s))"
proof (cases "\<exists>sq. ev = Ack_Load sq")
  case True
  then obtain sq where ev: "ev = Ack_Load sq" by blast
  with assms(2) have "s' = s\<lparr>acks := acks s @ [(sq, st_state (strm s))]\<rparr>" by (simp add: sys_step_def)
  then show ?thesis using assms(1) assms(5) [OF ev] by (auto simp: in_order_def)
next
  case False
  with sys_step_cases [OF assms(3,2)] show ?thesis
    using in_order_still in_order_sends in_order_moves in_order_acknowledged assms(1,3,4) by metis
qed

lemma received_mono: "received stk ds synced c \<Longrightarrow> (synced \<longrightarrow> synced') \<Longrightarrow> received stk ds synced' c"
  unfolding received_def by blast

section \<open>Messages that reach the client\<close>

lemma received_data:
  assumes "received stk ds True c" and "on_logging_data stk buf c = Inr c'"
  shows "received stk ds True c'"
proof -
  obtain tails data where tails: "length tails = length ds"
    "foldE (check_payload stk) (map2 (@) ds tails @ data) new_parser = Inr (cl_parser c)"
    using assms(1) unfolding received_def by blast
  obtain ps where "check_payload stk buf (cl_parser c) = Inr ps"
    and c': "c' = c\<lparr>msg_cntr := msg_cntr c + 1, cl_parser := ps\<rparr>"
    using assms(2) by (auto simp: on_logging_data_def Let_def bindE_eq_Inr)
  with tails have "foldE (check_payload stk) (map2 (@) ds tails @ data @ [buf]) new_parser = Inr (cl_parser c')"
    by (simp add: foldE_append bindE_assoc flip: append_assoc)
  then have "\<exists>tails data. length tails = length ds \<and> (data \<noteq> [] \<longrightarrow> True) \<and>
      foldE (check_payload stk) (map2 (@) ds tails @ data) new_parser = Inr (cl_parser c')"
    using tails(1) by blast
  moreover have "sequence_keeper c' = sequence_keeper c" "cl_out c' = cl_out c" by (simp_all add: c')
  ultimately show ?thesis using assms(1) unfolding received_def by simp
qed

lemma received_seen:
  assumes rcv: "received stk ds synced c" and seen: "sq \<in> sequence_keeper c"
    and step: "on_logging_data_acked stk sa sq buf c = Inr c'"
  shows "received stk ds synced c'"
proof -
  have c': "c' = c\<lparr>cl_out := cl_out c @ [Logging_Ack sq (ucast (group_id sa)) (ucast (instance_id sa))]\<rparr>"
    using step seen by (simp add: on_logging_data_acked_def)
  have "\<exists>k < length ds. sq = word_of_nat k" using rcv seen by (auto simp: received_def)
  then show ?thesis using rcv unfolding received_def by (simp add: c')
qed

lemma received_next:
  assumes rcv: "received stk ds False c" and new: "word_of_nat (length ds) \<notin> sequence_keeper c"
    and step: "on_logging_data_acked stk sa (word_of_nat (length ds)) (dt @ rest) c = Inr c'"
  shows "received stk (ds @ [dt]) False c'"
proof -
  obtain tails where tails: "length tails = length ds"
    "foldE (check_payload stk) (map2 (@) ds tails) new_parser = Inr (cl_parser c)"
    using rcv unfolding received_def by auto
  let ?sq = "word_of_nat (length ds)"
  obtain ps where ps: "check_payload stk (dt @ rest) (cl_parser c) = Inr ps"
    and c': "c' = c\<lparr>sequence_keeper := insert ?sq (sequence_keeper c), cl_parser := ps,
        cl_out := cl_out c @ [Logging_Ack ?sq (ucast (group_id sa)) (ucast (instance_id sa))]\<rparr>"
    using step new by (auto simp: on_logging_data_acked_def Let_def bindE_eq_Inr)
  have "foldE (check_payload stk) (map2 (@) (ds @ [dt]) (tails @ [rest]) @ []) new_parser = Inr (cl_parser c')"
    using tails ps by (simp add: foldE_append c')
  moreover have "length (tails @ [rest]) = length (ds @ [dt])" using tails(1) by simp
  ultimately have "\<exists>tails data. length tails = length (ds @ [dt]) \<and> (data \<noteq> [] \<longrightarrow> False) \<and>
      foldE (check_payload stk) (map2 (@) (ds @ [dt]) tails @ data) new_parser = Inr (cl_parser c')" by blast
  moreover have "sequence_keeper c' = word_of_nat ` {..<length (ds @ [dt])}"
    using rcv by (simp add: received_def c' lessThan_Suc)
  moreover have "\<exists>k < length (ds @ [dt]). sq = word_of_nat k" if "Logging_Ack sq ts tc \<in> set (cl_out c')" for sq ts tc
  proof -
    from that consider "sq = ?sq" | "Logging_Ack sq ts tc \<in> set (cl_out c)" by (auto simp: c')
    then show ?thesis
    proof cases
      case 2
      then obtain k where "k < length ds" "sq = word_of_nat k" using rcv unfolding received_def by blast
      then show ?thesis by (intro exI [of _ k]) simp
    qed auto
  qed
  ultimately show ?thesis unfolding received_def by blast
qed

text \<open>An acknowledged message that was sent some time reaches the client.\<close>

lemma in_order_Suc:
  assumes "in_order n s" and "n < length (definitions (strm s))"
  shows "in_order (Suc n) s"
proof -
  have "\<forall>(sq, dt) \<in> set (sent_definitions (strm s)).
      \<exists>k \<le> Suc n. k < length (definitions (strm s)) \<and> sq = word_of_nat k \<and> dt = definitions (strm s) ! k"
    using assms(1) le_SucI unfolding in_order_def by blast
  moreover have "\<forall>(sq, state) \<in> set (acks s). \<exists>k < Suc n. sq = word_of_nat k"
    using assms(1) less_SucI unfolding in_order_def by blast
  ultimately show ?thesis using assms unfolding in_order_def by simp
qed

lemma in_order_sent:
  assumes "in_order n s" and "(sq, dt) \<in> set (sent_definitions (strm s))"
  obtains k where "k \<le> n" and "k < length (definitions (strm s))" and "sq = word_of_nat k"
    and "dt = definitions (strm s) ! k"
  using assms unfolding in_order_def by blast

lemma acked_received:
  assumes ord: "in_order n s" and rcv: "received stk (take n (definitions (strm s))) synced c"
    and fin: "synced \<longrightarrow> n = length (definitions (strm s))"
    and msg: "(sq, dt) \<in> set (sent_definitions (strm s))" and step: "on_logging_data_acked stk sa sq (dt @ rest) c = Inr c'"
  shows "\<exists>n'. n \<le> n' \<and> in_order n' s \<and> received stk (take n' (definitions (strm s))) synced c'"
proof (cases "sq \<in> sequence_keeper c")
  case True
  with ord received_seen [OF rcv True step] show ?thesis by blast
next
  case False
  let ?ds = "take n (definitions (strm s))"
  obtain k where k: "k \<le> n" "k < length (definitions (strm s))" "sq = word_of_nat k" "dt = definitions (strm s) ! k"
    using in_order_sent [OF ord msg] .
  have len: "length ?ds = n" using ord by (simp add: in_order_def)
  have "k = n"
  proof (rule ccontr)
    assume "k \<noteq> n"
    then have "sq \<in> word_of_nat ` {..<n}" using k(1,3) by simp
    then show False using False rcv len by (simp add: received_def)
  qed
  with k fin have n: "n < length (definitions (strm s))" "sq = word_of_nat n" "dt = definitions (strm s) ! n" "\<not> synced"
    by simp_all
  have "received stk (?ds @ [dt]) False c'"
  proof (rule received_next)
    show "received stk ?ds False c" using rcv n(4) by simp
    show "word_of_nat (length ?ds) \<notin> sequence_keeper c" using False unfolding len n(2) .
    show "on_logging_data_acked stk sa (word_of_nat (length ?ds)) (dt @ rest) c = Inr c'" using step unfolding len n(2) .
  qed
  moreover have "?ds @ [dt] = take (Suc n) (definitions (strm s))"
    using n(1,3) by (simp add: take_Suc_conv_app_nth)
  ultimately show ?thesis using in_order_Suc [OF ord n(1)] n(4) by (intro exI [of _ "Suc n"]) simp
qed

end
