(* ===== verification/Closed_Run.thy ===== *)
theory Closed_Run
  imports Closed_Loop
begin

text \<open>
  The invariant of the streamer and the ground station together, and its consequence for every closed run.
\<close>

section \<open>No data before the handshake is over\<close>

definition quiet :: "'q sys \<Rightarrow> bool" where
  "quiet s \<longleftrightarrow> (sync_at s \<noteq> Synced \<longrightarrow> streamed (strm s) = [] \<and> main_loaded s = None)"

lemma quiet_new: "quiet (new_sys q)"
  by (simp add: quiet_def new_sys_def new_streamer_def streamed_def)

lemma quiet_frame:
  assumes "quiet s" and "streamed (strm s') = streamed (strm s)" and "main_loaded s' = main_loaded s"
    and "sync_at s = Synced \<longrightarrow> sync_at s' = Synced"
  shows "quiet s'"
  using assms by (auto simp: quiet_def)

lemma collect_streamed: "collect_step Q st q = Inr (pc, st', q') \<Longrightarrow> streamed st' = streamed st"
  by (auto simp: collect_step_def bindE_eq_Inr Let_def split: if_splits)

lemma discard_streamed: "discard_step Q st q = Inr (st', q') \<Longrightarrow> streamed st' = streamed st"
  by (auto simp: discard_step_def bindE_eq_Inr split: if_splits)

lemma flow_frame_streamed: "flow_frame st st' \<Longrightarrow> streamed st' = streamed st"
  by (simp add: flow_frame_def)

lemma sync_commit_streamed: "sync_commit fld s = Inr s' \<Longrightarrow> streamed (strm s') = streamed (strm s) \<and> main_loaded s' = main_loaded s"
  by (auto simp: sync_commit_def bindE_eq_Inr set_state_def dest!: sync_act_flow flow_frame_streamed
      split: option.splits if_splits)

lemma quiet_step:
  assumes quiet: "quiet s" and ok: "sys_ok s" and step: "sys_step Q fld ev s = Inr s'"
  shows "quiet s'"
proof (cases "sync_at s = Synced")
  case True
  with synced_stays [OF step] show ?thesis by (simp add: quiet_def)
next
  case False
  then have idle: "main_loaded s = None" "\<not> st_running (strm s)"
    using quiet ok by (auto simp: quiet_def sys_ok_iff handshake_ok_def split: sync_pc.splits)
  have "streamed (strm s') = streamed (strm s) \<and> main_loaded s' = main_loaded s"
  proof (cases ev)
    case Sync_Load
    with step collect_streamed show ?thesis
      by (fastforce simp: sys_step_def sync_load_def bindE_eq_Inr split: sync_pc.splits if_splits)
  next
    case Sync_Act
    with step sync_commit_streamed show ?thesis by (simp add: sys_step_def)
  next
    case Discard
    with step discard_streamed show ?thesis by (fastforce simp: sys_step_def bindE_eq_Inr)
  next
    case Post
    with step show ?thesis
      by (auto simp: sys_step_def bindE_eq_Inr dest!: run_posted_flow flow_frame_streamed)
  next
    case Ack_Commit
    with step show ?thesis
      by (auto simp: sys_step_def bindE_eq_Inr dest!: commit_ack_flow flow_frame_streamed split: list.splits)
  next
    case (Cmd_Load lc sa)
    have "streamed (snd (decide_command lc sa (st_state (strm s)) (strm s))) = streamed (strm s)"
      by (rule flow_frame_streamed, rule decide_command_flow)
    with Cmd_Load step show ?thesis by (auto simp: sys_step_def cmd_load_def Let_def split: prod.splits)
  next
    case Cmd_Commit
    with step show ?thesis
      by (auto simp: sys_step_def bindE_eq_Inr dest!: commit_command_flow flow_frame_streamed split: list.splits)
  qed (use step idle in \<open>auto simp: sys_step_def main_begin_def main_one_def\<close>)
  then show ?thesis using quiet_frame [OF quiet, of s'] False by blast
qed

lemma quiet_no_data:
  assumes "quiet s" and "(Logging_Data ts tc sq len first dt, x) \<in> set (sent (strm s))"
  shows "sync_at s = Synced"
proof (rule ccontr)
  assume "sync_at s \<noteq> Synced"
  then have "concat (map data_payload (map fst (sent (strm s)) @ posted (strm s))) = []"
    using assms(1) by (simp add: quiet_def streamed_def)
  then have "\<forall>m \<in> set (map fst (sent (strm s))). data_payload m = []" by simp
  with assms(2) show False by force
qed

section \<open>The invariant\<close>

definition learned :: "nat \<Rightarrow> 'q world \<Rightarrow> bool" where
  "learned stk w \<longleftrightarrow>
     (\<exists>n. in_order n (srv w) \<and>
          received stk (take n (definitions (strm (srv w)))) (sync_at (srv w) = Synced) (cli w))"

definition world_ok :: "nat \<Rightarrow> 'q world \<Rightarrow> bool" where
  "world_ok stk w \<longleftrightarrow> sys_ok (srv w) \<and> quiet (srv w) \<and>
     (length (definitions (strm (srv w))) \<le> 65536 \<longrightarrow> learned stk w)"

lemma in_order_synced:
  "in_order n s \<Longrightarrow> sys_ok s \<Longrightarrow> sync_at s = Synced \<longrightarrow> n = length (definitions (strm s))"
  by (auto simp: in_order_def sys_ok_iff handshake_ok_def)

lemma in_order_new: "in_order 0 (new_sys q)"
  by (simp add: in_order_def new_sys_def new_streamer_def sent_definitions_def)

lemma received_new: "received stk [] synced new_client"
  by (auto simp: received_def new_client_def)

lemma world_ok_new: "world_ok stk (new_world q)"
proof -
  have "learned stk (new_world q)"
    unfolding learned_def new_world_def using in_order_new received_new by (intro exI [of _ 0]) simp
  then show ?thesis by (simp add: world_ok_def new_world_def sys_ok_new quiet_new)
qed

text \<open>Definitions are only ever added.\<close>

lemma definitions_grow:
  assumes "sys_ok s" and "sys_step Q fld ev s = Inr s'"
  shows "length (definitions (strm s)) \<le> length (definitions (strm s'))"
proof (cases "\<exists>sq. ev = Ack_Load sq")
  case True
  with assms(2) show ?thesis by (auto simp: sys_step_def)
next
  case False
  with sys_step_cases [OF assms] show ?thesis
    by (auto simp: still_def sends_next_def moves_on_def acknowledged_def)
qed

lemma server_step_ok:
  assumes ok: "world_ok stk w" and step: "server_step Q fld ev w = Inr w'"
    and acks: "\<And>sq n. ev = Ack_Load sq \<Longrightarrow> n \<le> length (definitions (strm (srv w))) \<Longrightarrow>
      received stk (take n (definitions (strm (srv w)))) (sync_at (srv w) = Synced) (cli w) \<Longrightarrow>
      \<exists>k < n. sq = word_of_nat k"
  shows "world_ok stk w'"
proof -
  obtain s where s: "sys_step Q fld ev (srv w) = Inr s" and w': "w' = w\<lparr>srv := s\<rparr>"
    using step by (auto simp: server_step_def bindE_eq_Inr)
  have old: "sys_ok (srv w)" "quiet (srv w)" using ok by (simp_all add: world_ok_def)
  have "learned stk w'" if small: "length (definitions (strm s)) \<le> 65536"
  proof -
    have small': "length (definitions (strm (srv w))) \<le> 65536" using definitions_grow [OF old(1) s] small by simp
    then have "learned stk w" using ok by (simp add: world_ok_def)
    then obtain n where n: "in_order n (srv w)"
      "received stk (take n (definitions (strm (srv w)))) (sync_at (srv w) = Synced) (cli w)"
      unfolding learned_def by blast
    then have "n \<le> length (definitions (strm (srv w)))" by (simp add: in_order_def)
    then have "\<And>sq. ev = Ack_Load sq \<Longrightarrow> \<exists>k < n. sq = word_of_nat k" using acks n(2) by blast
    then have "in_order n s" "take n (definitions (strm s)) = take n (definitions (strm (srv w)))"
      using in_order_step [OF n(1) s old(1) small'] by auto
    moreover have "received stk (take n (definitions (strm (srv w)))) (sync_at s = Synced) (cli w)"
      by (rule received_mono [OF n(2)]) (use synced_stays [OF s] in blast)
    ultimately show ?thesis unfolding learned_def w' by auto
  qed
  then show ?thesis using sys_step_ok [OF old(1) s] quiet_step [OF old(2,1) s] by (simp add: world_ok_def w')
qed

lemma world_ok_frame:
  assumes "world_ok stk w" and "sequence_keeper c = sequence_keeper (cli w)" and "cl_parser c = cl_parser (cli w)"
    and "\<And>sq ts tc. Logging_Ack sq ts tc \<in> set (cl_out c) \<longleftrightarrow> Logging_Ack sq ts tc \<in> set (cl_out (cli w))"
  shows "world_ok stk (w\<lparr>cli := c\<rparr>)"
  using assms by (simp add: world_ok_def learned_def received_def)

lemma on_command_ack_frame [simp]:
  "sequence_keeper (on_command_ack cmd p c) = sequence_keeper c" "cl_parser (on_command_ack cmd p c) = cl_parser c"
  "cl_out (on_command_ack cmd p c) = cl_out c"
  by (simp_all add: on_command_ack_def)

lemma command_start_logging_frame [simp]:
  "sequence_keeper (command_start_logging i c) = sequence_keeper c" "cl_parser (command_start_logging i c) = cl_parser c"
  "Logging_Ack sq ts tc \<in> set (cl_out (command_start_logging i c)) \<longleftrightarrow> Logging_Ack sq ts tc \<in> set (cl_out c)"
  by (simp_all add: command_start_logging_def)

lemma client_receive_ok:
  assumes ok: "world_ok stk w" and msg: "(m, x) \<in> set (sent (strm (srv w)))"
    and step: "client_receive stk sa rest m (cli w) = Inr c"
  shows "world_ok stk (w\<lparr>cli := c\<rparr>)"
proof (cases m)
  case (Logging_Data ts tc sq len first dt)
  then have "sync_at (srv w) = Synced" using quiet_no_data msg ok unfolding world_ok_def by blast
  moreover have "on_logging_data stk dt (cli w) = Inr c" using step Logging_Data by (simp add: client_receive_def)
  ultimately show ?thesis using ok received_data unfolding world_ok_def learned_def by simp blast
next
  case (Logging_Data_Acked ts tc sq len first dt)
  then have sent: "(sq, dt) \<in> set (sent_definitions (strm (srv w)))"
    using msg unfolding sent_definitions_def by force
  have recv: "on_logging_data_acked stk sa sq (dt @ rest) (cli w) = Inr c"
    using step Logging_Data_Acked by (simp add: client_receive_def)
  show ?thesis
  proof -
    have "learned stk (w\<lparr>cli := c\<rparr>)" if small: "length (definitions (strm (srv w))) \<le> 65536"
    proof -
      obtain n where n: "in_order n (srv w)"
        "received stk (take n (definitions (strm (srv w)))) (sync_at (srv w) = Synced) (cli w)"
        using ok small unfolding world_ok_def learned_def by blast
      have "sync_at (srv w) = Synced \<longrightarrow> n = length (definitions (strm (srv w)))"
        using in_order_synced [OF n(1)] ok by (simp add: world_ok_def)
      from acked_received [OF n this sent recv] show ?thesis unfolding learned_def by auto
    qed
    then show ?thesis using ok by (simp add: world_ok_def)
  qed
next
  case (Command_Ack ts tc cmd result p dts dtc)
  then have "c = on_command_ack cmd p (cli w)" using step by (simp add: client_receive_def)
  then show ?thesis using world_ok_frame [OF ok] by simp
qed

lemma world_step_ok:
  assumes ok: "world_ok stk w" and step: "world_step Q fld stk sys_id saddr caddr ev w = Inr w'"
  shows "world_ok stk w'"
proof (cases ev)
  case (Server e)
  show ?thesis
  proof (cases "own_event e")
    case True
    with Server step have "server_step Q fld e w = Inr w'" by (simp add: world_step_def)
    then show ?thesis by (rule server_step_ok [OF ok]) (use True in auto)
  next
    case False
    with Server step ok show ?thesis by (simp add: world_step_def)
  qed
next
  case (Deliver i rest)
  obtain m x where mx: "sent (strm (srv w)) ! i = (m, x)" by (meson surj_pair)
  show ?thesis
  proof (cases "i < length (sent (strm (srv w)))")
    case True
    then have "(m, x) \<in> set (sent (strm (srv w)))" using mx nth_mem by fastforce
    moreover obtain c where "client_receive stk saddr rest m (cli w) = Inr c" "w' = w\<lparr>cli := c\<rparr>"
      using Deliver step True mx by (auto simp: world_step_def bindE_eq_Inr)
    ultimately show ?thesis using client_receive_ok [OF ok] by blast
  next
    case False
    with Deliver step ok show ?thesis by (simp add: world_step_def)
  qed
next
  case (Reply i)
  show ?thesis
  proof (cases "i < length (cl_out (cli w))")
    case True
    with Reply step have "server_step Q fld (reply_event caddr (cl_out (cli w) ! i)) w = Inr w'"
      by (simp add: world_step_def)
    then show ?thesis
    proof (rule server_step_ok [OF ok])
      fix sq n
      assume sq: "reply_event caddr (cl_out (cli w) ! i) = Ack_Load sq"
        and n: "n \<le> length (definitions (strm (srv w)))"
        and rcv: "received stk (take n (definitions (strm (srv w)))) (sync_at (srv w) = Synced) (cli w)"
      from sq obtain ts tc where "cl_out (cli w) ! i = Logging_Ack sq ts tc" by (cases "cl_out (cli w) ! i") auto
      then have "Logging_Ack sq ts tc \<in> set (cl_out (cli w))" using True nth_mem by fastforce
      then have "\<exists>k < length (take n (definitions (strm (srv w)))). sq = word_of_nat k"
        using rcv unfolding received_def by blast
      with n show "\<exists>k < n. sq = word_of_nat k" by simp
    qed
  next
    case False
    with Reply step ok show ?thesis by (simp add: world_step_def)
  qed
next
  case Connect_Begin
  then have "w' = w\<lparr>cli := command_start_logging sys_id (cli w)\<rparr>"
    using step by (simp add: world_step_def connect_begin_def)
  then show ?thesis using world_ok_frame [OF ok] by simp
next
  case Connect_Turn
  then have "w' = w\<lparr>cli := (if is_start_ack (cli w) then cli w else command_start_logging sys_id (cli w))\<rparr>"
    using step by (auto simp: world_step_def connect_turn_def)
  then show ?thesis using world_ok_frame [OF ok] ok by simp
qed

interpretation world_machine: guarded_machine "world_step Q fld stk sys_id saddr caddr" "world_ok stk"
  for Q fld stk sys_id saddr caddr
  by unfold_locales (rule world_step_ok)

end
