(* ===== verification/Closed_Session.thy ===== *)
theory Closed_Session
  imports Closed_Run Network
begin

text \<open>
  Closed runs that carry a session: the streamer's part of a closed run is a run of the streamer, the client
  accepts every definition of a session when it comes in order, and a schedule on which everything comes through.
\<close>

section \<open>The run of the streamer within a closed run\<close>

fun server_events :: "world_event \<Rightarrow> event list" where
  "server_events (Server ev) = [ev]"
| "server_events _ = []"

definition world_enqueued :: "world_event list \<Rightarrow> byte list list" where
  "world_enqueued evs = enqueued (concat (map server_events evs))"

lemma world_enqueued_simps [simp]:
  "world_enqueued [] = []" "world_enqueued (ev # evs) = enqueued (server_events ev) @ world_enqueued evs"
  by (simp_all add: world_enqueued_def enqueued_def)

lemma world_step_server:
  assumes "world_step Q fld stk sys_id saddr caddr ev w = Inr w'"
  shows "\<exists>es. foldE (sys_step Q fld) es (srv w) = Inr (srv w') \<and> enqueued es = enqueued (server_events ev)"
proof -
  have one: "\<exists>es. foldE (sys_step Q fld) es (srv w) = Inr (srv w') \<and> enqueued es = enqueued [e]"
    if "server_step Q fld e w = Inr w'" for e
    using that by (intro exI [of _ "[e]"]) (auto simp: server_step_def bindE_eq_Inr)
  have none: "\<exists>es. foldE (sys_step Q fld) es (srv w) = Inr (srv w') \<and> enqueued es = []" if "srv w' = srv w"
    using that by (intro exI [of _ "[]"]) simp
  show ?thesis
  proof (cases ev)
    case (Server e)
    show ?thesis
    proof (cases "own_event e")
      case True
      then show ?thesis using assms one Server by (simp add: world_step_def)
    next
      case False
      moreover from False have "enqueued [e] = []" by (cases e) simp_all
      ultimately show ?thesis using assms none Server by (simp add: world_step_def)
    qed
  next
    case (Reply i)
    have no_data: "enqueued [reply_event caddr m] = enqueued []" for m by (cases m) simp_all
    show ?thesis
    proof (cases "i < length (cl_out (cli w))")
      case True
      then have "server_step Q fld (reply_event caddr (cl_out (cli w) ! i)) w = Inr w'"
        using assms Reply by (simp add: world_step_def)
      from one [OF this] show ?thesis unfolding no_data Reply by simp
    next
      case False
      then show ?thesis using assms none Reply by (simp add: world_step_def)
    qed
  qed (use assms none in \<open>auto simp: world_step_def bindE_eq_Inr split: if_splits\<close>)
qed

lemma closed_run_server:
  assumes "foldE (world_step Q fld stk sys_id saddr caddr) evs w = Inr w'"
  shows "\<exists>es. foldE (sys_step Q fld) es (srv w) = Inr (srv w') \<and> enqueued es = world_enqueued evs"
  using assms
proof (induction evs arbitrary: w)
  case Nil
  then show ?case by (intro exI [of _ "[]"]) simp
next
  case (Cons ev evs)
  then obtain w1 where w1: "world_step Q fld stk sys_id saddr caddr ev w = Inr w1"
    "foldE (world_step Q fld stk sys_id saddr caddr) evs w1 = Inr w'"
    by (auto simp: bindE_eq_Inr)
  obtain as bs where "foldE (sys_step Q fld) as (srv w) = Inr (srv w1)" "enqueued as = enqueued (server_events ev)"
    "foldE (sys_step Q fld) bs (srv w1) = Inr (srv w')" "enqueued bs = world_enqueued evs"
    using world_step_server [OF w1(1)] Cons.IH [OF w1(2)] by blast
  moreover have "enqueued (as @ bs) = enqueued as @ enqueued bs" by (simp add: enqueued_def)
  ultimately show ?case by (intro exI [of _ "as @ bs"]) (simp add: foldE_append)
qed

section \<open>What the client accepts\<close>

lemma begin_prefix: "check_ulog_data_begin b 0 = Inr x \<Longrightarrow> check_ulog_data_begin (b @ t) 0 = Inr x"
  by (auto simp: check_ulog_data_begin_def hdr_type_def rd_le_def rd_def bindE_eq_Inr split: if_splits)

lemma stored_all_padded:
  "length ts = length bs \<Longrightarrow> stored_all (map (\<lambda>b. (b, 0)) (map2 (@) bs ts)) bs"
  by (induction bs ts rule: list_induct2') (simp_all add: stored_def)

text \<open>A parser that is not invalid in the end has found every message valid.\<close>

lemma parse_flag: "parse stk mem p ps = Inr (ps', b) \<Longrightarrow> b \<longleftrightarrow> p_state ps' \<noteq> STATE_INVALID"
  by (erule parse_cases) simp

lemma checks_of_calls:
  assumes "foldE (parse_call stk) (map (\<lambda>b. (b, 0)) bs) ps = Inr ps'" and "p_state ps' \<noteq> STATE_INVALID"
    and "\<forall>b \<in> set bs. check_ulog_data_begin b 0 = Inr False"
  shows "foldE (check_payload stk) bs ps = Inr ps'"
  using assms
proof (induction bs arbitrary: ps)
  case Nil
  then show ?case by simp
next
  case (Cons b bs)
  then obtain ps1 v where one: "parse stk b 0 ps = Inr (ps1, v)"
    and rest: "foldE (parse_call stk) (map (\<lambda>b. (b, 0)) bs) ps1 = Inr ps'"
    by (auto simp: bindE_eq_Inr parse_call_Inr)
  have "p_state ps1 \<noteq> STATE_INVALID" using calls_invalid [of ps1 stk] rest Cons.prems(2) by auto
  then have "v" using parse_flag [OF one] by simp
  with one Cons.prems(3) have "check_payload stk b ps = Inr ps1"
    by (simp add: check_payload_def check_ulog_valid_def)
  with Cons.IH [OF rest Cons.prems(2)] Cons.prems(3) show ?case by simp
qed

text \<open>The opening and the definitions of a session, with anything behind each of them.\<close>

lemma definitions_checked:
  assumes "parses d xs (empty_view now) u" and "length ts = length ([header_message now, flags_message] @ xs)"
    and "\<forall>x \<in> set ([header_message now, flags_message] @ xs). begins x = Inr False"
  shows "\<exists>ps. foldE (check_payload (Suc d)) (map2 (@) ([header_message now, flags_message] @ xs) ts) new_parser = Inr ps \<and>
    hears d u ps"
proof -
  let ?ds = "[header_message now, flags_message] @ xs"
  let ?locs = "map (\<lambda>b. (b, 0 :: nat)) (map2 (@) ?ds ts)"
  have all: "stored_all (take 2 ?locs) [header_message now, flags_message]" "stored_all (drop 2 ?locs) xs"
    using stored_all_split [OF stored_all_padded [OF assms(2)]] by (simp_all add: numeral_2_eq_2)
  obtain ps1 where ps1: "foldE (parse_call (Suc d)) (take 2 ?locs) new_parser = Inr ps1" "hears d (empty_view now) ps1"
    using opening_parsed [OF all(1)] by blast
  obtain ps where ps: "foldE (parse_call (Suc d)) (drop 2 ?locs) ps1 = Inr ps" "hears d u ps"
    using assms(1) all(2) ps1(2) unfolding parses_def by blast
  have "foldE (parse_call (Suc d)) (take 2 ?locs @ drop 2 ?locs) new_parser = Inr ps"
    unfolding foldE_append using ps1(1) ps(1) by simp
  then have calls: "foldE (parse_call (Suc d)) ?locs new_parser = Inr ps" by (simp only: append_take_drop_id)
  have "p_state ps \<noteq> STATE_INVALID" using ps(2) by (simp add: hears_def)
  moreover have "\<forall>b \<in> set (map2 (@) ?ds ts). check_ulog_data_begin b 0 = Inr False"
    using assms(3) begin_prefix by (auto simp: begins_def dest!: set_zip_leftD)
  ultimately show ?thesis using checks_of_calls [OF calls] ps(2) by blast
qed

section \<open>A session on a closed run\<close>

lemma prefix_before:
  assumes "prefix ds (as @ ys)" and "\<forall>x \<in> set ds. \<not> P x" and "ys = [] \<or> P (hd ys)"
  shows "prefix ds as"
proof -
  from assms(1) consider "prefix ds as" | us where "us \<noteq> []" "ds = as @ us" "prefix us ys"
    unfolding prefix_append by (metis append_Nil2 prefix_order.refl)
  then show ?thesis
  proof cases
    case 2
    then have "hd us = hd ys" "hd us \<in> set ds" "ys \<noteq> []" by (auto elim!: prefixE)
    with assms(2,3) show ?thesis by auto
  qed simp
qed

lemma closed_learned:
  assumes run: "foldE (world_step Q fld stk sys_id saddr caddr) evs (new_world q) = Inr w"
    and few: "length (definitions (strm (srv w))) \<le> 65536"
  obtains n where "in_order n (srv w)"
    and "received stk (take n (definitions (strm (srv w)))) (sync_at (srv w) = Synced) (cli w)"
    and "sync_at (srv w) = Synced \<longrightarrow> n = length (definitions (strm (srv w)))"
proof -
  have ok: "world_ok stk w" by (rule world_machine.run_inv [OF world_ok_new run])
  then obtain n where n: "in_order n (srv w)"
    "received stk (take n (definitions (strm (srv w)))) (sync_at (srv w) = Synced) (cli w)"
    using few unfolding world_ok_def learned_def by blast
  with that [OF n] in_order_synced [OF n(1)] ok show thesis by (simp add: world_ok_def)
qed

text \<open>The definitions the streamer has are the first messages of the session.\<close>

lemma closed_definitions:
  assumes Q: "conc_queue Q content" and q: "content q0 = []" and fld: "fld \<le> 255"
    and run: "foldE (world_step Q fld stk sys_id saddr caddr) evs (new_world q0) = Inr w"
    and queue: "prefix (world_enqueued evs) (as @ ys)" and ys: "ys = [] \<or> begins (hd ys) = Inr True"
    and as: "\<forall>x \<in> set as. begins x = Inr False"
  shows "prefix (definitions (strm (srv w))) as" and "sync_at (srv w) = Synced \<longrightarrow> definitions (strm (srv w)) = as"
proof -
  obtain es where es: "foldE (sys_step Q fld) es (new_sys q0) = Inr (srv w)" "enqueued es = world_enqueued evs"
    using closed_run_server [OF run] by (auto simp: new_world_def)
  have flow: "flow content (world_enqueued evs) (srv w)" using flow_run [OF Q q es(1) fld] by (simp add: es(2))
  then have "prefix (definitions (strm (srv w))) (as @ ys)"
    using flow_split(1) queue prefix_order.trans by blast
  moreover have "\<forall>x \<in> set (definitions (strm (srv w))). begins x \<noteq> Inr True"
    using flow by (auto simp: flow_def)
  ultimately show "prefix (definitions (strm (srv w))) as"
    using prefix_before [of _ as ys "\<lambda>x. begins x = Inr True"] ys by blast
  have "takeWhile (\<lambda>m. begins m \<noteq> Inr True) (world_enqueued evs) = as"
    if "takeWhile (\<lambda>m. begins m \<noteq> Inr True) (world_enqueued evs) \<noteq> world_enqueued evs"
    using takeWhile_prefix [OF that queue] as ys by simp
  then show "sync_at (srv w) = Synced \<longrightarrow> definitions (strm (srv w)) = as"
    using flow_split(3,4) [OF flow] by (metis sync_pc.distinct(3))
qed

lemma closed_definitions_fewer:
  assumes Q: "conc_queue Q content" and q: "content q0 = []" and fld: "fld \<le> 255"
    and run: "foldE (world_step Q fld stk sys_id saddr caddr) evs (new_world q0) = Inr w"
  shows "length (definitions (strm (srv w))) \<le> length (world_enqueued evs)"
proof -
  obtain es where es: "foldE (sys_step Q fld) es (new_sys q0) = Inr (srv w)" "enqueued es = world_enqueued evs"
    using closed_run_server [OF run] by (auto simp: new_world_def)
  from flow_split(1) [OF flow_run [OF Q q es(1) fld]] show ?thesis by (simp add: es(2) prefix_length_le)
qed

lemma acked_new:
  assumes "in_order n s" and "received stk (take n (definitions (strm s))) synced c"
    and "(sq, dt) \<in> set (sent_definitions (strm s))" and "sq \<notin> sequence_keeper c"
  shows "n < length (definitions (strm s)) \<and> dt = definitions (strm s) ! n"
proof -
  obtain k where k: "k \<le> n" "k < length (definitions (strm s))" "sq = word_of_nat k" "dt = definitions (strm s) ! k"
    using in_order_sent [OF assms(1,3)] .
  have "length (take n (definitions (strm s))) = n" using assms(1) by (simp add: in_order_def)
  then have "sequence_keeper c = word_of_nat ` {..<n}" using assms(2) by (simp add: received_def)
  with k assms(4) show ?thesis by (cases "k = n") auto
qed

lemma definition_accepted:
  assumes xs: "parses d xs (empty_view now) u" and as: "as = [header_message now, flags_message] @ xs"
    and opens: "\<forall>x \<in> set as. begins x = Inr False" and n: "n < length as" and tails: "length tails = n"
    and sofar: "foldE (check_payload (Suc d)) (map2 (@) (take n as) tails) new_parser = Inr ps"
  shows "\<exists>ps'. check_payload (Suc d) (as ! n @ rest) ps = Inr ps'"
proof -
  let ?ts = "tails @ rest # replicate (length as - Suc n) []"
  have len: "length ?ts = length as" using n tails by simp
  obtain ps' where "foldE (check_payload (Suc d)) (map2 (@) as ?ts) new_parser = Inr ps'"
    using definitions_checked [OF xs len [unfolded as] opens [unfolded as]] as by blast
  moreover have "map2 (@) as ?ts = map2 (@) (take n as) tails @ (as ! n @ rest) # map2 (@) (drop (Suc n) as) (replicate (length as - Suc n) [])"
  proof -
    have "as = take n as @ as ! n # drop (Suc n) as" using n by (rule id_take_nth_drop)
    then have "map2 (@) as ?ts = map2 (@) (take n as @ as ! n # drop (Suc n) as) ?ts" by (rule arg_cong)
    also have "\<dots> = map2 (@) (take n as) tails @ (as ! n @ rest) # map2 (@) (drop (Suc n) as) (replicate (length as - Suc n) [])"
      using n tails by (simp add: zip_append)
    finally show ?thesis .
  qed
  ultimately show ?thesis using sofar by (auto simp: foldE_append bindE_eq_Inr)
qed

end
