(* ===== verification/Closed_Schedule.thy ===== *)
theory Closed_Schedule
  imports Closed_Session
begin

text \<open>
  A schedule on which everything comes through: the client starts the stream, the definitions are handed
  over one by one, each acknowledged at once. The turns of the streamer are those of its own schedules.
\<close>

fun own_turn :: "turn \<Rightarrow> bool" where
  "own_turn (T_Ack sq) = False"
| "own_turn (T_Cmd lc sa) = False"
| "own_turn t = True"

definition server_turns :: "turn list \<Rightarrow> world_event list" where
  "server_turns ts = map Server (concat (map turn_events ts))"

lemma server_turns_append: "server_turns (as @ bs) = server_turns as @ server_turns bs"
  by (simp add: server_turns_def)

definition wleads ::
    "(world_event \<Rightarrow> 'q world \<Rightarrow> 'q world res) \<Rightarrow> world_event list \<Rightarrow> ('q world \<Rightarrow> bool) \<Rightarrow> ('q world \<Rightarrow> bool) \<Rightarrow> bool" where
  "wleads W es P R \<longleftrightarrow> (\<forall>w. P w \<longrightarrow> (\<exists>w'. foldE W es w = Inr w' \<and> R w'))"

lemma wleads_append: "wleads W es P R \<Longrightarrow> wleads W fs R S \<Longrightarrow> wleads W (es @ fs) P S"
  unfolding wleads_def foldE_append by (metis bindE_simps(2))

lemma server_events_run:
  "list_all own_event es \<Longrightarrow> foldE (sys_step Q fld) es (srv w) = Inr s \<Longrightarrow>
   foldE (world_step Q fld stk sys_id saddr caddr) (map Server es) w = Inr (w\<lparr>srv := s\<rparr>)"
proof (induction es arbitrary: w)
  case Nil
  then show ?case by simp
next
  case (Cons e es)
  then obtain s1 where s1: "sys_step Q fld e (srv w) = Inr s1" "foldE (sys_step Q fld) es s1 = Inr s"
    by (auto simp: bindE_eq_Inr)
  then have "world_step Q fld stk sys_id saddr caddr (Server e) w = Inr (w\<lparr>srv := s1\<rparr>)"
    using Cons.prems(1) by (simp add: world_step_def server_step_def)
  with Cons.IH [of "w\<lparr>srv := s1\<rparr>"] s1(2) Cons.prems(1) show ?case by simp
qed

lemma own_turn_events: "\<forall>t \<in> set ts. own_turn t \<Longrightarrow> list_all own_event (concat (map turn_events ts))"
proof (induction ts)
  case (Cons t ts)
  then show ?case by (cases t) simp_all
qed simp

lemma turns_lifted:
  assumes "leads Q fld ts P R" and "\<forall>t \<in> set ts. own_turn t"
  shows "wleads (world_step Q fld stk sys_id saddr caddr) (server_turns ts) (\<lambda>w. P (srv w) \<and> cli w = c)
    (\<lambda>w. R (srv w) \<and> cli w = c)"
  unfolding wleads_def
proof (intro allI impI)
  fix w :: "'a world"
  assume w: "P (srv w) \<and> cli w = c"
  then obtain s where s: "foldE (turn_step Q fld) ts (srv w) = Inr s" "R s"
    using assms(1) unfolding leads_def by blast
  have "foldE (world_step Q fld stk sys_id saddr caddr) (server_turns ts) w = Inr (w\<lparr>srv := s\<rparr>)"
    unfolding server_turns_def
    by (rule server_events_run) (use own_turn_events [OF assms(2)] s(1) in \<open>simp_all add: turns_are_events\<close>)
  with w s(2) show "\<exists>w'. foldE (world_step Q fld stk sys_id saddr caddr) (server_turns ts) w = Inr w' \<and> R (srv w') \<and> cli w' = c"
    by simp
qed

section \<open>The messages on the air\<close>

text \<open>Nothing but definitions was sent.\<close>

definition only_acked :: "'q sys \<Rightarrow> bool" where
  "only_acked s \<longleftrightarrow> (\<forall>m \<in> set (sent (strm s)). acked_send m \<noteq> [])"

lemma length_acked_send: "length (acked_send m) \<le> 1"
  by (cases m rule: acked_send.cases) simp_all

lemma only_acked_nth:
  assumes "\<forall>m \<in> set ms. acked_send m \<noteq> []"
  shows "length (concat (map acked_send ms)) = length ms"
    and "i < length ms \<Longrightarrow> acked_send (ms ! i) = [concat (map acked_send ms) ! i]"
proof -
  have one: "\<exists>p. acked_send m = [p]" if "m \<in> set ms" for m
    using assms that length_acked_send [of m] by (cases "acked_send m") auto
  have eq: "map acked_send ms = map (\<lambda>p. [p]) (concat (map acked_send ms))"
    using one by (induction ms) fastforce+
  from arg_cong [OF eq, of length] show len: "length (concat (map acked_send ms)) = length ms" by simp
  from arg_cong [OF eq, of "\<lambda>xs. xs ! i"] len
  show "i < length ms \<Longrightarrow> acked_send (ms ! i) = [concat (map acked_send ms) ! i]" by simp
qed

lemma acked_send_single: "acked_send m = [(sq, dt)] \<Longrightarrow> \<exists>ts tc len first x. m = (Logging_Data_Acked ts tc sq len first dt, x)"
  by (cases m rule: acked_send.cases) auto

lemma turn_sync_only_acked:
  assumes "turn_step Q fld T_Sync s = Inr s'" and "only_acked s"
  shows "only_acked s'"
proof -
  obtain s1 where s1: "sync_load Q s = Inr s1" "sync_commit fld s1 = Inr s'"
    using assms(1) by (auto simp: turn_step_def sys_step_def bindE_eq_Inr)
  have "sent (strm s1) = sent (strm s)"
    using s1(1) by (auto simp: sync_load_def collect_step_def bindE_eq_Inr Let_def split: sync_pc.splits if_splits)
  moreover have act: "\<forall>m \<in> set (sent st'). m \<in> set (sent (strm s1)) \<or> acked_send m \<noteq> []"
    if "sync_act fld state (strm s1) = Inr st'" for state st'
    using that by (cases state) (auto simp: sync_act_def send_definition_Inr bindE_eq_Inr set_state_or_die_Inr Let_def
        definition_msg_def split: if_splits)
  have "\<forall>m \<in> set (sent (strm s')). m \<in> set (sent (strm s1)) \<or> acked_send m \<noteq> []"
  proof (cases "\<exists>state st'. sync_act fld state (strm s1) = Inr st' \<and> strm s' = st'")
    case True
    with act show ?thesis by blast
  next
    case False
    with s1(2) show ?thesis
      by (auto simp: sync_commit_def bindE_eq_Inr set_state_def split: option.splits if_splits)
  qed
  ultimately show ?thesis using assms(2) by (auto simp: only_acked_def)
qed

lemma leads_only_acked:
  assumes "leads Q fld ts P R" and "set ts \<subseteq> {T_Sync}"
  shows "leads Q fld ts (\<lambda>s. P s \<and> only_acked s) (\<lambda>s. R s \<and> only_acked s)"
proof -
  have "only_acked s'" if "foldE (turn_step Q fld) us s = Inr s'" "set us \<subseteq> {T_Sync}" "only_acked s" for us s s'
    using that by (induction us arbitrary: s) (auto simp: bindE_eq_Inr dest: turn_sync_only_acked)
  with assms show ?thesis unfolding leads_def by blast
qed

lemma sync_turn_world:
  assumes "leads Q fld [T_Sync] P R" and "P (srv w)" and "only_acked (srv w)"
  obtains w' where "foldE (world_step Q fld stk sys_id saddr caddr) (server_turns [T_Sync]) w = Inr w'"
    and "R (srv w')" and "only_acked (srv w')" and "cli w' = cli w"
proof -
  have "leads Q fld [T_Sync] (\<lambda>s. P s \<and> only_acked s) (\<lambda>s. R s \<and> only_acked s)"
    by (rule leads_only_acked [OF assms(1)]) simp
  then have "wleads (world_step Q fld stk sys_id saddr caddr) (server_turns [T_Sync])
      (\<lambda>v. (P (srv v) \<and> only_acked (srv v)) \<and> cli v = cli w) (\<lambda>v. (R (srv v) \<and> only_acked (srv v)) \<and> cli v = cli w)"
    by (rule turns_lifted) simp
  with assms(2,3) that show thesis unfolding wleads_def by blast
qed

section \<open>Handing over\<close>

text \<open>
  \<open>k\<close> definitions of \<open>ds\<close> are handed over; the client has checked them with \<open>pad\<close> behind
  each and its parser is \<open>ps\<close>.
\<close>

definition handing ::
    "nat \<Rightarrow> 'q \<Rightarrow> byte list list \<Rightarrow> nat \<Rightarrow> parser \<Rightarrow> 'q world \<Rightarrow> bool" where
  "handing fld nq ds k ps w \<longleftrightarrow>
     (\<exists>st n ss. st \<in> {STATE_CONNECTED, STATE_SEND_DEF} \<and> length ss = k \<and> phase fld nq ds k st n ss (srv w)) \<and>
     only_acked (srv w) \<and> sequence_keeper (cli w) = word_of_nat ` {..<k} \<and> length (cl_out (cli w)) = Suc k \<and>
     cl_parser (cli w) = ps"

definition hand_over :: "byte list \<Rightarrow> nat \<Rightarrow> world_event list" where
  "hand_over rest k = server_turns [T_Sync] @ [Deliver k rest, Reply (Suc k), Server Ack_Commit] @ server_turns [T_Sync]"

lemma hand_over_run:
  assumes k: "k < length ds" "k < 65536" and check: "check_payload stk (ds ! k @ rest) ps = Inr ps'"
  shows "wleads (world_step Q fld stk sys_id saddr caddr) (hand_over rest k) (handing fld nq ds k ps) (handing fld nq ds (Suc k) ps')"
  unfolding wleads_def
proof (intro allI impI)
  fix w :: "'a world"
  assume w: "handing fld nq ds k ps w"
  let ?W = "world_step Q fld stk sys_id saddr caddr" and ?sq = "word_of_nat k :: 16 word"
  obtain st n ss where st: "st \<in> {STATE_CONNECTED, STATE_SEND_DEF}" "length ss = k" "phase fld nq ds k st n ss (srv w)"
    and only: "only_acked (srv w)" using w unfolding handing_def by blast
  from st(1) have "st \<in> {STATE_CONNECTED, STATE_SEND_DEF, STATE_RESEND_DEF}" by blast
  note send = phase_send [OF this k(1)]
  obtain w1 where w1: "foldE ?W (server_turns [T_Sync]) w = Inr w1"
    "phase fld nq ds k STATE_ACK_WAIT 0 (ss @ [(?sq, ds ! k)]) (srv w1)" "only_acked (srv w1)" "cli w1 = cli w"
    by (rule sync_turn_world [OF send st(3) only])
  have defs: "concat (map acked_send (sent (strm (srv w1)))) = ss @ [(?sq, ds ! k)]"
    using w1(2) by (simp add: phase_def sent_definitions_def)
  have acked: "\<forall>m \<in> set (sent (strm (srv w1))). acked_send m \<noteq> []" using w1(3) by (simp add: only_acked_def)
  have len: "length (sent (strm (srv w1))) = Suc k" using only_acked_nth(1) [OF acked] st(2) by (simp add: defs)
  then have "acked_send (sent (strm (srv w1)) ! k) = [(?sq, ds ! k)]"
    using only_acked_nth(2) [OF acked, of k] st(2) by (simp add: defs nth_append)
  then obtain ts tc ln first x where msg: "sent (strm (srv w1)) ! k = (Logging_Data_Acked ts tc ?sq ln first (ds ! k), x)"
    using acked_send_single by blast
  have new: "?sq \<notin> sequence_keeper (cli w)"
  proof
    assume "?sq \<in> sequence_keeper (cli w)"
    then obtain j where "j < k" "?sq = word_of_nat j" using w by (auto simp: handing_def)
    then show False using word16_of_nat_inject [of k j] k(2) by simp
  qed
  define c where "c = (cli w)\<lparr>sequence_keeper := insert ?sq (sequence_keeper (cli w)), cl_parser := ps',
    cl_out := cl_out (cli w) @ [Logging_Ack ?sq (ucast (group_id saddr)) (ucast (instance_id saddr))]\<rparr>"
  have out: "length (cl_out (cli w)) = Suc k" "cl_parser (cli w) = ps" using w by (simp_all add: handing_def)
  have "?W (Deliver k rest) w1 = Inr (w1\<lparr>cli := c\<rparr>)"
    using check new out w1(4) len msg
    by (simp add: world_step_def client_receive_def on_logging_data_acked_def Let_def c_def)
  moreover obtain s2 where s2: "turn_step Q fld (T_Ack ?sq) (srv w1) = Inr s2"
    "phase fld nq ds k STATE_ACK_RECV 0 (ss @ [(?sq, ds ! k)]) s2"
    using phase_ack [of Q fld k nq ds 0 "ss @ [(?sq, ds ! k)]"] w1(2) unfolding leads_def by (auto simp: bindE_eq_Inr)
  then have "foldE ?W [Reply (Suc k), Server Ack_Commit] (w1\<lparr>cli := c\<rparr>) = Inr (w1\<lparr>srv := s2, cli := c\<rparr>)"
    using out(1) by (auto simp: world_step_def server_step_def c_def nth_append turn_step_def bindE_eq_Inr)
  ultimately have mid: "foldE ?W [Deliver k rest, Reply (Suc k), Server Ack_Commit] w1 = Inr (w1\<lparr>srv := s2, cli := c\<rparr>)"
    by simp
  have "only_acked s2"
  proof -
    have "sent (strm s2) = sent (strm (srv w1))"
      using s2(1) w1(2)
      by (auto simp: turn_step_def sys_step_def phase_def commit_ack_def Let_def set_state_or_die_Inr bindE_eq_Inr)
    then show ?thesis using w1(3) by (simp add: only_acked_def)
  qed
  let ?w = "w1\<lparr>srv := s2, cli := c\<rparr>"
  have at: "phase fld nq ds k STATE_ACK_RECV 0 (ss @ [(?sq, ds ! k)]) (srv ?w)" "only_acked (srv ?w)"
    using s2(2) \<open>only_acked s2\<close> by simp_all
  obtain w3 where w3: "foldE ?W (server_turns [T_Sync]) ?w = Inr w3"
    "phase fld nq ds (Suc k) STATE_SEND_DEF 0 (ss @ [(?sq, ds ! k)]) (srv w3)" "only_acked (srv w3)" "cli w3 = cli ?w"
    by (rule sync_turn_world [OF phase_move [OF k(1)] at])
  have "foldE ?W (hand_over rest k) w = Inr w3"
    unfolding hand_over_def foldE_append using w1(1) mid w3(1) by simp
  moreover have "handing fld nq ds (Suc k) ps' w3"
    using w3(2-4) w st(2) unfolding handing_def
    by (auto simp: c_def lessThan_Suc intro!: exI [of _ STATE_SEND_DEF] exI [of _ "ss @ [(?sq, ds ! k)]"])
  ultimately show "\<exists>w'. foldE ?W (hand_over rest k) w = Inr w' \<and> handing fld nq ds (Suc k) ps' w'" by blast
qed

text \<open>All definitions, each with \<open>rest\<close> behind it.\<close>

lemma hand_over_all:
  assumes "foldE (check_payload stk) (map (\<lambda>b. b @ rest) (drop k ds)) ps = Inr ps'" and "k + n = length ds" and "length ds \<le> 65536"
  shows "wleads (world_step Q fld stk sys_id saddr caddr) (concat (map (hand_over rest) [k..<length ds]))
    (handing fld nq ds k ps) (handing fld nq ds (length ds) ps')"
  using assms(1,2)
proof (induction n arbitrary: k ps)
  case 0
  then show ?case by (simp add: wleads_def)
next
  case (Suc n)
  then have k: "k < length ds" "k < 65536" using assms(3) by simp_all
  then have "drop k ds = ds ! k # drop (Suc k) ds" by (simp add: Cons_nth_drop_Suc)
  with Suc.prems(1) obtain ps1 where ps1: "check_payload stk (ds ! k @ rest) ps = Inr ps1"
    "foldE (check_payload stk) (map (\<lambda>b. b @ rest) (drop (Suc k) ds)) ps1 = Inr ps'"
    by (auto simp: bindE_eq_Inr)
  have "[k..<length ds] = k # [Suc k..<length ds]" using k(1) by (rule upt_conv_Cons)
  then show ?case
    using wleads_append [OF hand_over_run [OF k ps1(1)] Suc.IH [OF ps1(2)]] Suc.prems(2) by simp
qed

section \<open>The schedule\<close>

definition closed_delivery :: "byte list list \<Rightarrow> nat \<Rightarrow> byte list \<Rightarrow> world_event list" where
  "closed_delivery ms n rest =
     server_turns (map T_Enqueue ms) @ [Connect_Begin, Reply 0, Server Cmd_Commit] @
     server_turns (replicate (Suc n) T_Sync) @ concat (map (hand_over rest) [0..<n]) @ server_turns [T_Sync]"

lemma world_enqueued_append: "world_enqueued (as @ bs) = world_enqueued as @ world_enqueued bs"
  by (simp add: world_enqueued_def enqueued_def)

lemma world_enqueued_turns: "world_enqueued (server_turns ts) = enqueued (concat (map turn_events ts))"
proof -
  have "concat (map server_events (map Server es)) = es" for es by (induction es) simp_all
  then show ?thesis by (simp add: world_enqueued_def server_turns_def)
qed

lemma world_enqueued_hand_over: "world_enqueued (concat (map (hand_over rest) ks)) = []"
  by (induction ks) (simp_all add: hand_over_def world_enqueued_append world_enqueued_turns)

lemma world_enqueued_delivery: "world_enqueued (closed_delivery ms n rest) = ms"
proof -
  have "enqueued (concat (map turn_events (replicate m T_Sync))) = []" for m by (induction m) simp_all
  then show ?thesis
    unfolding closed_delivery_def world_enqueued_append world_enqueued_turns world_enqueued_hand_over enqueued_all
    by simp
qed

text \<open>The start command of the client, handled at once, sends nothing back.\<close>

context conc_queue
begin

lemma client_starts:
  assumes q: "content q = []" and caddr: "(ucast (group_id caddr) :: byte) \<noteq> 0" "(ucast (instance_id caddr) :: byte) \<noteq> 0"
  shows "wleads (world_step Q fld stk sys_id saddr caddr) (server_turns (map T_Enqueue ms) @ [Connect_Begin, Reply 0, Server Cmd_Commit])
    (\<lambda>w. w = new_world q)
    (\<lambda>w. (collecting content fld [] ms (srv w) \<and> only_acked (srv w)) \<and> cli w = command_start_logging sys_id new_client)"
proof (rule wleads_append)
  let ?s = "(new_sys q)\<lparr>net := fold (cq_enqueue Q) ms q\<rparr>"
  have "leads Q fld (map T_Enqueue ms) (\<lambda>s. s = new_sys q) (\<lambda>s. s = ?s)"
    by (simp add: leads_def enqueue_run) (simp add: new_sys_def)
  from turns_lifted [OF this, of stk sys_id saddr caddr new_client]
  show "wleads (world_step Q fld stk sys_id saddr caddr) (server_turns (map T_Enqueue ms)) (\<lambda>w. w = new_world q)
      (\<lambda>w. srv w = ?s \<and> cli w = new_client)"
    by (simp add: wleads_def new_world_def)
  show "wleads (world_step Q fld stk sys_id saddr caddr) [Connect_Begin, Reply 0, Server Cmd_Commit]
      (\<lambda>w. srv w = ?s \<and> cli w = new_client)
      (\<lambda>w. (collecting content fld [] ms (srv w) \<and> only_acked (srv w)) \<and> cli w = command_start_logging sys_id new_client)"
    using caddr q
    by (auto simp: wleads_def world_step_def server_step_def connect_begin_def command_start_logging_def new_client_def
        sys_step_def cmd_load_def decide_command_def commit_command_def Let_def set_state_or_die_def set_state_def
        new_sys_def new_streamer_def collecting_def strm_calm_def sent_definitions_def streamed_def enqueue_all only_acked_def)
qed

lemma closed_delivery_run:
  assumes q: "content q = []" and caddr: "(ucast (group_id caddr) :: byte) \<noteq> 0" "(ucast (instance_id caddr) :: byte) \<noteq> 0"
    and defs: "\<forall>d \<in> set ds. begins d = Inr False \<and> length d \<le> fld" and x: "begins x = Inr True"
    and few: "length ds \<le> 65536"
    and check: "foldE (check_payload stk) (map (\<lambda>b. b @ rest) ds) new_parser = Inr ps"
  shows "wleads (world_step Q fld stk sys_id saddr caddr) (closed_delivery (ds @ x # ms) (length ds) rest)
    (\<lambda>w. w = new_world q) (\<lambda>w. sync_at (srv w) = Synced \<and> cl_parser (cli w) = ps)"
proof -
  let ?W = "world_step Q fld stk sys_id saddr caddr" and ?c = "command_start_logging sys_id new_client"
  have "leads Q fld (replicate (length ds) T_Sync @ [T_Sync]) (collecting content fld [] (ds @ x # ms))
      (\<lambda>s. \<exists>nq (n :: nat). nq \<in> {q. content q = x # ms} \<and> phase fld nq ds 0 STATE_CONNECTED 0 [] s)"
    using leads_append [OF collect_all [OF defs, of "[]" "x # ms"] collect_last [OF x]] by simp
  then have "leads Q fld (replicate (Suc (length ds)) T_Sync) (\<lambda>s. collecting content fld [] (ds @ x # ms) s \<and> only_acked s)
      (\<lambda>s. (\<exists>nq (n :: nat). nq \<in> {q. content q = x # ms} \<and> phase fld nq ds 0 STATE_CONNECTED 0 [] s) \<and> only_acked s)"
    by (intro leads_only_acked) (auto simp: replicate_append_same)
  then have "wleads ?W (server_turns (replicate (Suc (length ds)) T_Sync))
      (\<lambda>w. (collecting content fld [] (ds @ x # ms) (srv w) \<and> only_acked (srv w)) \<and> cli w = ?c)
      (\<lambda>w. ((\<exists>nq (n :: nat). nq \<in> {q. content q = x # ms} \<and> phase fld nq ds 0 STATE_CONNECTED 0 [] (srv w)) \<and>
            only_acked (srv w)) \<and> cli w = ?c)"
    by (rule turns_lifted) simp
  then have "wleads ?W (server_turns (replicate (Suc (length ds)) T_Sync))
      (\<lambda>w. (collecting content fld [] (ds @ x # ms) (srv w) \<and> only_acked (srv w)) \<and> cli w = ?c)
      (\<lambda>w. \<exists>nq. handing fld nq ds 0 new_parser w)"
    unfolding wleads_def handing_def by (fastforce simp: command_start_logging_def new_client_def)
  from wleads_append [OF client_starts [OF q caddr] this]
  have start: "wleads ?W ((server_turns (map T_Enqueue (ds @ x # ms)) @ [Connect_Begin, Reply 0, Server Cmd_Commit]) @
      server_turns (replicate (Suc (length ds)) T_Sync)) (\<lambda>w. w = new_world q) (\<lambda>w. \<exists>nq. handing fld nq ds 0 new_parser w)" .
  have hand: "wleads ?W (concat (map (hand_over rest) [0..<length ds])) (\<lambda>w. \<exists>nq. handing fld nq ds 0 new_parser w)
      (\<lambda>w. \<exists>nq. handing fld nq ds (length ds) ps w)"
    using hand_over_all [of stk rest 0 ds new_parser ps "length ds" Q fld sys_id saddr caddr] check few
    unfolding wleads_def by simp blast
  have finish: "wleads ?W (server_turns [T_Sync]) (\<lambda>w. \<exists>nq. handing fld nq ds (length ds) ps w)
      (\<lambda>w. sync_at (srv w) = Synced \<and> cl_parser (cli w) = ps)"
    unfolding wleads_def
  proof (intro allI impI)
    fix w :: "'q world"
    assume "\<exists>nq. handing fld nq ds (length ds) ps w"
    then obtain nq st n ss where h: "phase fld nq ds (length ds) st n ss (srv w)" "only_acked (srv w)" "cl_parser (cli w) = ps"
      unfolding handing_def by blast
    obtain w' where "foldE ?W (server_turns [T_Sync]) w = Inr w'" "finished fld nq ss (srv w')" "cli w' = cli w"
      by (rule sync_turn_world [OF phase_finish h(1,2)])
    with h(3) show "\<exists>w'. foldE ?W (server_turns [T_Sync]) w = Inr w' \<and> sync_at (srv w') = Synced \<and> cl_parser (cli w') = ps"
      by (auto simp: finished_def)
  qed
  from wleads_append [OF start wleads_append [OF hand finish]] show ?thesis by (simp add: closed_delivery_def)
qed

end

end
