(* ===== verification/Closed_Connect.thy ===== *)
theory Closed_Connect
  imports Closed_Loop
begin

text \<open>
  What the ground station hears of its commands: they carry the confirmation 0, and the streamer answers
  other commands only.
\<close>

fun is_command_ack :: "mav_msg \<Rightarrow> bool" where
  "is_command_ack (Command_Ack ts tc cmd result p dts dtc) = True"
| "is_command_ack _ = False"

definition answers :: "streamer \<Rightarrow> mav_msg list" where
  "answers st = filter is_command_ack (map fst (sent st) @ posted st)"

definition unanswered :: "'q sys \<Rightarrow> bool" where
  "unanswered s \<longleftrightarrow> answers (strm s) = [] \<and> (\<forall>c \<in> set (cmds s). lc_confirmation (fst c) = 0)"

lemma answers_frame [simp]:
  "answers (st\<lparr>st_state := a\<rparr>) = answers st" "answers (st\<lparr>sync_timeout := b\<rparr>) = answers st"
  "answers (st\<lparr>seq_no := c\<rparr>) = answers st" "answers (st\<lparr>discarding := d\<rparr>) = answers st"
  "answers (st\<lparr>st_running := d\<rparr>) = answers st" "answers (st\<lparr>definitions := ds\<rparr>) = answers st"
  "answers (st\<lparr>target_system := t, target_component := u\<rparr>) = answers st"
  "answers (st\<lparr>skip_cntr := x\<rparr>) = answers st" "answers (st\<lparr>send_cntr := x\<rparr>) = answers st"
  by (simp_all add: answers_def)

lemma no_answer_posted: "\<not> is_command_ack m \<Longrightarrow> answers (st\<lparr>posted := posted st @ [m]\<rparr>) = answers st"
  by (simp add: answers_def)

lemma no_answer_sent: "\<not> is_command_ack m \<Longrightarrow> answers (st\<lparr>sent := sent st @ [(m, x)]\<rparr>) = answers st"
  by (simp add: answers_def)

lemma collect_answers: "collect_step Q st q = Inr (pc, st', q') \<Longrightarrow> answers st' = answers st"
  by (auto simp: collect_step_def bindE_eq_Inr Let_def split: if_splits)

lemma discard_answers: "discard_step Q st q = Inr (st', q') \<Longrightarrow> answers st' = answers st"
  by (auto simp: discard_step_def bindE_eq_Inr split: if_splits)

lemma send_definition_answers: "send_definition fld state st = Inr st' \<Longrightarrow> answers st' = answers st"
  by (auto simp: send_definition_Inr definition_msg_def answers_def)

lemma sync_act_answers: "sync_act fld state st = Inr st' \<Longrightarrow> answers st' = answers st"
  by (cases state) (auto simp: sync_act_def bindE_eq_Inr set_state_or_die_Inr Let_def
      dest: send_definition_answers split: if_splits)

lemma send_ulog_answers: "send_ulog fld junk bs st = Inr (ok, st') \<Longrightarrow> answers st' = answers st"
  by (auto simp: send_ulog_def bindE_eq_Inr Let_def no_answer_posted split: if_splits)

lemma stream_one_answers: "stream_one Q fld state junk st q = Inr (st', q') \<Longrightarrow> answers st' = answers st"
  by (auto simp: stream_one_def bindE_eq_Inr dest!: send_ulog_answers split: prod.splits option.splits if_splits)

lemma run_posted_answers: "run_posted st = Inr st' \<Longrightarrow> answers st = [] \<Longrightarrow> answers st' = []"
  by (auto simp: run_posted_def sendmavmsg_Inr answers_def split: list.splits if_splits)

lemma commit_ack_answers: "commit_ack sq state st = Inr st' \<Longrightarrow> answers st' = answers st"
  by (auto simp: commit_ack_def Let_def set_state_or_die_Inr split: if_splits)

lemma decide_answers: "answers (snd (decide_command lc sa state st)) = answers st"
  by (simp add: decide_command_def)

lemma commit_command_answers:
  "commit_command lc sa state new st = Inr st' \<Longrightarrow> lc_confirmation lc = 0 \<Longrightarrow> answers st' = answers st"
  by (auto simp: commit_command_def bindE_eq_Inr set_state_or_die_Inr split: if_splits)

lemma sync_commit_answers: "sync_commit fld s = Inr s' \<Longrightarrow> answers (strm s') = answers (strm s) \<and> cmds s' = cmds s"
  by (auto simp: sync_commit_def bindE_eq_Inr set_state_def dest!: sync_act_answers split: option.splits if_splits)

lemma unanswered_step:
  assumes old: "unanswered s" and step: "sys_step Q fld ev s = Inr s'"
    and ev: "\<And>lc sa. ev = Cmd_Load lc sa \<Longrightarrow> lc_confirmation lc = 0"
  shows "unanswered s'"
proof (cases ev)
  case Sync_Load
  with step old show ?thesis
    by (auto simp: sys_step_def sync_load_def bindE_eq_Inr unanswered_def dest: collect_answers split: sync_pc.splits if_splits)
next
  case Sync_Act
  with step old show ?thesis by (simp add: sys_step_def unanswered_def sync_commit_answers)
next
  case Discard
  with step old show ?thesis by (auto simp: sys_step_def bindE_eq_Inr unanswered_def dest: discard_answers)
next
  case (Main_One junk)
  with step old show ?thesis
    by (auto simp: sys_step_def main_one_def bindE_eq_Inr unanswered_def dest: stream_one_answers
        split: option.splits if_splits)
next
  case Post
  with step old show ?thesis by (auto simp: sys_step_def bindE_eq_Inr unanswered_def dest: run_posted_answers)
next
  case Ack_Commit
  show ?thesis
  proof (cases "acks s")
    case Nil
    with Ack_Commit step old show ?thesis by (simp add: sys_step_def)
  next
    case (Cons a rest)
    then obtain st where "commit_ack (fst a) (snd a) (strm s) = Inr st" "s' = s\<lparr>strm := st, acks := rest\<rparr>"
      using Ack_Commit step by (auto simp: sys_step_def bindE_eq_Inr split: prod.splits)
    with old show ?thesis by (simp add: unanswered_def commit_ack_answers)
  qed
next
  case (Cmd_Load lc sa)
  from decide_answers [of lc sa "st_state (strm s)" "strm s"] Cmd_Load step old ev [OF Cmd_Load] show ?thesis
    by (auto simp: sys_step_def cmd_load_def Let_def unanswered_def split: prod.splits if_splits)
next
  case Cmd_Commit
  show ?thesis
  proof (cases "cmds s")
    case Nil
    with Cmd_Commit step old show ?thesis by (simp add: sys_step_def)
  next
    case (Cons c rest)
    obtain lc sa state new where c: "c = (lc, sa, state, new)" by (cases c)
    then obtain st where "commit_command lc sa state new (strm s) = Inr st" "s' = s\<lparr>strm := st, cmds := rest\<rparr>"
      using Cmd_Commit step Cons by (auto simp: sys_step_def bindE_eq_Inr)
    with old Cons c show ?thesis by (simp add: unanswered_def commit_command_answers)
  qed
qed (use step old in \<open>auto simp: sys_step_def main_begin_def Let_def bindE_eq_Inr unanswered_def split: if_splits\<close>)

section \<open>Both together\<close>

definition waiting :: "'q world \<Rightarrow> bool" where
  "waiting w \<longleftrightarrow> unanswered (srv w) \<and> \<not> is_start_ack (cli w) \<and>
     (\<forall>lc. Command lc \<in> set (cl_out (cli w)) \<longrightarrow> lc_confirmation lc = 0)"

lemma waiting_new: "waiting (new_world q)"
  by (simp add: waiting_def new_world_def new_client_def unanswered_def answers_def new_sys_def new_streamer_def)

lemma waiting_client:
  assumes "waiting w" and "\<not> is_command_ack m" and "client_receive stk sa rest m (cli w) = Inr c"
  shows "waiting (w\<lparr>cli := c\<rparr>)"
  using assms by (cases m) (auto simp: waiting_def client_receive_def on_logging_data_def on_logging_data_acked_def
      Let_def bindE_eq_Inr split: if_splits)

lemma waiting_command: "waiting w \<Longrightarrow> waiting (w\<lparr>cli := command_start_logging sys_id (cli w)\<rparr>)"
  by (auto simp: waiting_def command_start_logging_def)

lemma waiting_server:
  assumes "waiting w" and "server_step Q fld ev w = Inr w'" and "\<And>lc sa. ev = Cmd_Load lc sa \<Longrightarrow> lc_confirmation lc = 0"
  shows "waiting w'"
  using assms unanswered_step by (fastforce simp: waiting_def server_step_def bindE_eq_Inr)

lemma waiting_step:
  assumes old: "waiting w" and step: "world_step Q fld stk sys_id saddr caddr ev w = Inr w'"
  shows "waiting w'"
proof (cases ev)
  case (Server e)
  show ?thesis
  proof (cases "own_event e")
    case True
    with Server step have "server_step Q fld e w = Inr w'" by (simp add: world_step_def)
    then show ?thesis by (rule waiting_server [OF old]) (use True in auto)
  next
    case False
    with Server step old show ?thesis by (simp add: world_step_def)
  qed
next
  case (Deliver i rest)
  show ?thesis
  proof (cases "i < length (sent (strm (srv w)))")
    case True
    then obtain c where c: "client_receive stk saddr rest (fst (sent (strm (srv w)) ! i)) (cli w) = Inr c" "w' = w\<lparr>cli := c\<rparr>"
      using Deliver step by (auto simp: world_step_def bindE_eq_Inr)
    have "\<forall>m \<in> set (sent (strm (srv w))). \<not> is_command_ack (fst m)"
      using old by (auto simp: waiting_def unanswered_def answers_def filter_empty_conv)
    then have "\<not> is_command_ack (fst (sent (strm (srv w)) ! i))" using True by simp
    then show ?thesis using waiting_client [OF old _ c(1)] c(2) by simp
  next
    case False
    with Deliver step old show ?thesis by (simp add: world_step_def)
  qed
next
  case (Reply i)
  show ?thesis
  proof (cases "i < length (cl_out (cli w))")
    case True
    have "lc_confirmation lc = 0" if "reply_event caddr (cl_out (cli w) ! i) = Cmd_Load lc sa" for lc sa
    proof -
      from that have "cl_out (cli w) ! i = Command lc" by (cases "cl_out (cli w) ! i") simp_all
      then have "Command lc \<in> set (cl_out (cli w))" using True nth_mem by metis
      then show ?thesis using old by (simp add: waiting_def)
    qed
    with waiting_server [OF old] Reply step True show ?thesis by (auto simp: world_step_def)
  next
    case False
    with Reply step old show ?thesis by (simp add: world_step_def)
  qed
next
  case Connect_Begin
  with step waiting_command [OF old] show ?thesis by (auto simp: world_step_def connect_begin_def)
next
  case Connect_Turn
  with step waiting_command [OF old] old show ?thesis by (auto simp: world_step_def connect_turn_def)
qed

interpretation waiting_machine: guarded_machine "world_step Q fld stk sys_id saddr caddr" waiting
  for Q fld stk sys_id saddr caddr
  by unfold_locales (rule waiting_step)

end
