(* ===== verification/Closed_Claims.thy ===== *)
theory Closed_Claims
  imports Closed_Schedule Closed_Connect Network_Claims
begin

text \<open>
  Properties of the streamer and the ground station of the repository together.
\<close>

text \<open>A session on the schedule.\<close>

lemma closed_session_run:
  assumes Q: "conc_queue Q content" and q: "content q0 = []"
    and init: "init Q date config opens now True rt (new_mu_telemetry q0) = Inr (b, mt)" and net: "with_network mt"
    and calls: "session d cs (empty_view now) v" and data: "\<exists>c \<in> set cs. is_record c"
    and sent: "foldE (api_run Q) cs mt = Inr mt'"
    and fit: "\<forall>m \<in> set (content (net_queue mt')). length m \<le> fld"
    and few: "length (takeWhile (\<lambda>c. \<not> is_record c) cs) + 2 \<le> 65536"
    and caddr: "(ucast (group_id caddr) :: byte) \<noteq> 0" "(ucast (instance_id caddr) :: byte) \<noteq> 0"
  obtains w u where "foldE (world_step Q fld (Suc d) sys_id saddr caddr)
      (closed_delivery (content (net_queue mt')) (length (takeWhile (\<lambda>c. \<not> is_record c) cs) + 2) rest) (new_world q0) = Inr w"
    and "sync_at (srv w) = Synced" and "session d (takeWhile (\<lambda>c. \<not> is_record c) cs) (empty_view now) u"
    and "v_formats u = v_formats v" and "hears d u (cl_parser (cli w))"
proof -
  obtain u xs ys where h: "session d (takeWhile (\<lambda>c. \<not> is_record c) cs) (empty_view now) u" "v_formats u = v_formats v"
    "content (net_queue mt') = ([header_message now, flags_message] @ xs) @ ys"
    "\<forall>x \<in> set ([header_message now, flags_message] @ xs). begins x = Inr False"
    "ys = [] \<or> begins (hd ys) = Inr True" "parses d xs (empty_view now) u"
    "length xs = length (takeWhile (\<lambda>c. \<not> is_record c) cs)" "ys = [] \<longleftrightarrow> (\<forall>c \<in> set cs. \<not> is_record c)"
    using net_messages [OF Q q init net calls sent] by metis
  define ds where "ds = [header_message now, flags_message] @ xs"
  obtain x ms where ys: "ys = x # ms" "begins x = Inr True" using h(5,8) data by (cases ys) auto
  have pads: "map2 (@) ds (replicate (length ds) rest) = map (\<lambda>b. b @ rest) ds"
    by (simp add: zip_replicate2)
  have "length (replicate (length ds) rest) = length ds" by simp
  then obtain ps where ps: "foldE (check_payload (Suc d)) (map (\<lambda>b. b @ rest) ds) new_parser = Inr ps" "hears d u ps"
    using definitions_checked [OF h(6) _ h(4), of "replicate (length ds) rest"] unfolding ds_def [symmetric] pads by blast
  have defs: "\<forall>d \<in> set ds. begins d = Inr False \<and> length d \<le> fld" using h(4) fit by (simp add: h(3) ds_def)
  have n: "length (takeWhile (\<lambda>c. \<not> is_record c) cs) + 2 = length ds" by (simp add: ds_def h(7))
  have msgs: "content (net_queue mt') = ds @ x # ms" by (simp add: h(3) ys(1) ds_def)
  have "wleads (world_step Q fld (Suc d) sys_id saddr caddr) (closed_delivery (ds @ x # ms) (length ds) rest)
      (\<lambda>w. w = new_world q0) (\<lambda>w. sync_at (srv w) = Synced \<and> cl_parser (cli w) = ps)"
    by (rule conc_queue.closed_delivery_run [OF Q q caddr defs ys(2) _ ps(1)]) (use few n in simp)
  then obtain w where w: "foldE (world_step Q fld (Suc d) sys_id saddr caddr) (closed_delivery (ds @ x # ms) (length ds) rest)
      (new_world q0) = Inr w" "sync_at (srv w) = Synced" "cl_parser (cli w) = ps"
    unfolding wleads_def by blast
  with that [of w u] ps(2) h(1,2) show thesis unfolding n msgs by simp
qed



text \<open>C16. The handshake of the two can end: for every session with a record whose messages fit the data field, on the schedule that
  enqueues its messages, lets the client start the stream and hands the definitions over one by one, no handler and no
  turn fails, the streamer comes to its data phase, and the parser of the client then knows the start of the log,
  the parameters and information before the first record and all formats.\<close>

theorem closed_loop_completes:
  assumes Q: "conc_queue Q content" and q: "content q0 = []"
    and init: "init Q date config opens now True rt (new_mu_telemetry q0) = Inr (b, mt)" and net: "with_network mt"
    and calls: "session d cs (empty_view now) v" and data: "\<exists>c \<in> set cs. is_record c"
    and sent: "foldE (api_run Q) cs mt = Inr mt'"
    and fit: "\<forall>m \<in> set (content (net_queue mt')). length m \<le> fld"
    and few: "length (takeWhile (\<lambda>c. \<not> is_record c) cs) + 2 \<le> 65536"
    and caddr: "(ucast (group_id caddr) :: byte) \<noteq> 0" "(ucast (instance_id caddr) :: byte) \<noteq> 0"
  shows "\<exists>w u. foldE (world_step Q fld (Suc d) sys_id saddr caddr)
      (closed_delivery (content (net_queue mt')) (length (takeWhile (\<lambda>c. \<not> is_record c) cs) + 2) rest) (new_world q0) = Inr w \<and>
    sync_at (srv w) = Synced \<and> session d (takeWhile (\<lambda>c. \<not> is_record c) cs) (empty_view now) u \<and>
    p_state (cl_parser (cli w)) \<noteq> STATE_INVALID \<and> start_time (cl_parser (cli w)) = now \<and>
    formats_map (cl_parser (cli w)) = v_formats v \<and> parameters (cl_parser (cli w)) = v_params u \<and>
    info (cl_parser (cli w)) = v_info u"
proof -
  obtain w u where w: "foldE (world_step Q fld (Suc d) sys_id saddr caddr)
      (closed_delivery (content (net_queue mt')) (length (takeWhile (\<lambda>c. \<not> is_record c) cs) + 2) rest) (new_world q0) = Inr w"
    "sync_at (srv w) = Synced" "session d (takeWhile (\<lambda>c. \<not> is_record c) cs) (empty_view now) u"
    "v_formats u = v_formats v" "hears d u (cl_parser (cli w))"
    by (rule closed_session_run [OF assms])
  moreover have "v_start u = now" using session_start [OF w(3)] by (simp add: empty_view_def)
  ultimately show ?thesis by (intro exI [of _ w] exI [of _ u]) (simp add: hears_def)
qed

text \<open>C30. On no closed run does the client learn that it is connected: its start commands carry the confirmation 0, which the
  streamer does not answer, so every turn of the loop in connect sends another one and the function never returns,
  also when the stream is running.\<close>

theorem client_never_connects:
  assumes "foldE (world_step Q fld stk sys_id saddr caddr) evs (new_world q) = Inr w"
  shows "connect_turn sys_id (cli w) = (False, command_start_logging sys_id (cli w))"
  using waiting_machine.run_inv [OF waiting_new assms] by (simp add: connect_turn_def waiting_def)

text \<open>The sample session between a streamer and a client.\<close>

abbreviation sample_world :: "world_event \<Rightarrow> byte list list world \<Rightarrow> byte list list world res" where
  "sample_world \<equiv> world_step list_queue 249 (Suc 0) 1 ground_station ground_station"

theorem client_never_connects_witness:
  "\<exists>w. foldE sample_world [Connect_Begin, Reply 0, Server Cmd_Commit] (new_world []) = Inr w \<and>
    st_state (strm (srv w)) = STATE_CONNECTED \<and> \<not> fst (connect_turn 1 (cli w))"
proof -
  obtain w where w: "foldE sample_world [Connect_Begin, Reply 0, Server Cmd_Commit] (new_world []) = Inr w"
    "st_state (strm (srv w)) = STATE_CONNECTED"
    using fifo.client_starts [of "[]" ground_station 249 "Suc 0" 1 ground_station "[]", OF _ sample_net_facts(5,6)]
    by (auto simp: wleads_def server_turns_def collecting_def simp del: foldE.simps)
  from client_never_connects [OF w(1)] w show ?thesis by auto
qed

lemma sample_three: "length (takeWhile (\<lambda>c. \<not> is_record c) sample_calls) + 2 = 3"
  using sample_net_facts(3) by simp

lemma sample_few: "length (takeWhile (\<lambda>c. \<not> is_record c) sample_calls) + 2 \<le> 65536"
  unfolding sample_three by simp

lemmas sample_closed_facts = sample_session_net sample_net_facts(2) sample_net_sent sample_net_facts(1) sample_few
  sample_net_facts(5,6)


theorem closed_loop_completes_witness:
  "\<exists>w. foldE sample_world (closed_delivery (net_queue sample_net) 3 [7]) (new_world []) = Inr w \<and>
    sync_at (srv w) = Synced \<and> formats_map (cl_parser (cli w)) = v_formats sample_view"
  using closed_loop_completes [OF sample_closed_facts, unfolded sample_three] by blast



end
