(* ===== verification/Callers.thy ===== *)
theory Callers
  imports Session Startup
begin

text \<open>
  Many threads that call the interface at the same time. A call is cut where another thread can come in between: behind the
  mutex of the type ids, behind the mutex that guards the creation of an entry in \<open>multi_id_\<close>, behind the mutex of the
  entry, and between the two queues. \<open>callers_step\<close> lets one thread take one such step; a run is any sequence of them.
\<close>

section \<open>The threads\<close>

datatype call_pc =
  At_Start | Has_Type "16 word" | Has_Entry "16 word" | To_Log "byte list" | To_Net "byte list"

record caller =
  todo :: "api_call list"
  call_pc :: call_pc

text \<open>The two halves of \<open>get_multi_id\<close>: under the mutex, and behind it.\<close>

definition new_entry :: "16 word \<Rightarrow> 'q mu_telemetry \<Rightarrow> 'q mu_telemetry" where
  "new_entry mid mt =
     (if multi_id mt mid = None then mt\<lparr>multi_id := (multi_id mt)(mid \<mapsto> new_id_gen)\<rparr> else mt)"

definition entry_id :: "16 word \<Rightarrow> string \<Rightarrow> 'q mu_telemetry \<Rightarrow> byte \<times> 'q mu_telemetry" where
  "entry_id mid inst_name mt =
     (let gen = (case multi_id mt mid of None \<Rightarrow> new_id_gen | Some g \<Rightarrow> g) in
      case get_id inst_name gen of (i, g) \<Rightarrow> (i, mt\<lparr>multi_id := (multi_id mt)(mid \<mapsto> g)\<rparr>))"

text \<open>The two halves of \<open>to_io\<close>.\<close>

definition to_log :: "'q cq_ops \<Rightarrow> byte list \<Rightarrow> 'q mu_telemetry \<Rightarrow> 'q mu_telemetry" where
  "to_log Q dp mt = (if is_log_enabled mt then mt\<lparr>log_queue := cq_enqueue Q dp (log_queue mt)\<rparr> else mt)"

definition to_net :: "'q cq_ops \<Rightarrow> byte list \<Rightarrow> 'q mu_telemetry \<Rightarrow> 'q mu_telemetry" where
  "to_net Q dp mt = (if is_net_enabled mt then mt\<lparr>net_queue := cq_enqueue Q dp (net_queue mt)\<rparr> else mt)"

text \<open>The message of a call that needs no id.\<close>

fun plain_message :: "api_call \<Rightarrow> byte list res" where
  "plain_message (Reg_Param_Int key w) = param_message key (enc_le 4 w)"
| "plain_message (Reg_Param_Float key w) = param_message key (enc_le 4 w)"
| "plain_message (Reg_Info key val) = info_message key val"
| "plain_message (Reg_Info_Multi key val c) = info_multi_message key val c"
| "plain_message (Reg_Format name flds) = format_message name flds"
| "plain_message (Store_Message msg level t) = log_message msg level t"
| "plain_message (Store_Data dt name ann t) = Inl Undefined"

definition caller_step :: "'q cq_ops \<Rightarrow> caller \<times> 'q mu_telemetry \<Rightarrow> (caller \<times> 'q mu_telemetry) res" where
  "caller_step Q = (\<lambda>(w, mt).
     case todo w of
       [] \<Rightarrow> Inr (w, mt)
     | c # cs \<Rightarrow>
         (case call_pc w of
            At_Start \<Rightarrow>
              if \<not> is_enabled mt then Inr (w\<lparr>todo := cs\<rparr>, mt)
              else
                (case c of
                   Store_Data dt name ann t \<Rightarrow>
                     (case get_msg_id name mt of (mid, mt) \<Rightarrow> Inr (w\<lparr>call_pc := Has_Type mid\<rparr>, mt))
                 | _ \<Rightarrow> bindE (plain_message c) (\<lambda>bs. Inr (w\<lparr>call_pc := To_Log bs\<rparr>, mt)))
          | Has_Type mid \<Rightarrow> Inr (w\<lparr>call_pc := Has_Entry mid\<rparr>, new_entry mid mt)
          | Has_Entry mid \<Rightarrow>
              (case c of
                 Store_Data dt name ann t \<Rightarrow>
                   (case entry_id mid ann mt of (inst, mt) \<Rightarrow>
                    bindE (data_message dt name mid inst t) (\<lambda>bs. Inr (w\<lparr>call_pc := To_Log bs\<rparr>, mt)))
               | _ \<Rightarrow> Inr (w, mt))
          | To_Log bs \<Rightarrow> Inr (w\<lparr>call_pc := To_Net bs\<rparr>, to_log Q bs mt)
          | To_Net bs \<Rightarrow> Inr (w\<lparr>todo := cs, call_pc := At_Start\<rparr>, to_net Q bs mt)))"

definition callers_step ::
    "'q cq_ops \<Rightarrow> nat \<Rightarrow> caller list \<times> 'q mu_telemetry \<Rightarrow> (caller list \<times> 'q mu_telemetry) res" where
  "callers_step Q i = (\<lambda>(ws, mt).
     if i < length ws then bindE (caller_step Q (ws ! i, mt)) (\<lambda>(w, mt). Inr (ws[i := w], mt)) else Inr (ws, mt))"

definition new_callers :: "api_call list list \<Rightarrow> caller list" where
  "new_callers progs = map (\<lambda>cs. \<lparr>todo = cs, call_pc = At_Start\<rparr>) progs"

section \<open>A caller that is not interrupted\<close>

lemma get_multi_id_pieces: "get_multi_id mid n mt = entry_id mid n (new_entry mid mt)"
  by (simp add: get_multi_id_def entry_id_def new_entry_def Let_def split: prod.splits)

lemma to_io_pieces: "to_io Q bs mt = to_net Q bs (to_log Q bs mt)"
  by (simp add: to_io_def to_net_def to_log_def Let_def is_net_enabled_def)

text \<open>How many steps a call takes.\<close>

definition call_steps :: "'q mu_telemetry \<Rightarrow> api_call \<Rightarrow> nat" where
  "call_steps mt c = (if \<not> is_enabled mt then 1 else if is_record c then 5 else 3)"

lemma api_run_wire:
  "api_run Q c mt =
     (if \<not> is_enabled mt then Inr mt
      else if is_record c then api_run Q c mt
      else bindE (plain_message c) (\<lambda>bs. Inr (to_io Q bs mt)))"
  by (cases c) (simp_all add: api_run_def register_param_int_def register_param_float_def register_info_def
      register_info_multi_def register_data_format_def store_message_def store_data_def store_data_intl_def sends_def bindE_assoc)

lemma caller_runs:
  "foldE (\<lambda>_. caller_step Q) (replicate (call_steps mt c) ()) (\<lparr>todo = c # cs, call_pc = At_Start\<rparr>, mt) =
   bindE (api_run Q c mt) (\<lambda>mt. Inr (\<lparr>todo = cs, call_pc = At_Start\<rparr>, mt))"
proof (cases "is_enabled mt \<and> is_record c")
  case True
  then obtain dt n a t where c: "c = Store_Data dt n a t" by (cases c) auto
  obtain mid mt1 where one: "get_msg_id n mt = (mid, mt1)" by fastforce
  obtain inst mt2 where two: "entry_id mid a (new_entry mid mt1) = (inst, mt2)" by fastforce
  have "get_multi_id mid a mt1 = (inst, mt2)" by (simp add: get_multi_id_pieces two)
  then show ?thesis
    using True one two
    by (simp add: c call_steps_def numeral_eq_Suc caller_step_def api_run_def store_data_def store_data_intl_def
        sends_def bindE_assoc to_io_pieces)
next
  case False
  then show ?thesis
    by (cases c) (auto simp: api_run_wire [of Q _ mt] call_steps_def numeral_eq_Suc caller_step_def bindE_assoc to_io_pieces)
qed

end
