(* ===== verification/Callers_Props.thy ===== *)
theory Callers_Props
  imports Callers "HOL-Library.Multiset"
begin

text \<open>
  What every run of the threads keeps (\<open>callers_ok\<close>): the ids that were handed out never change, the message a
  thread holds is that of its call with the ids of its type and instance, and each queue holds the messages of the calls in an order
  in which the calls of each thread are in theirs (\<open>merged\<close>).
\<close>

section \<open>Calls used as expected\<close>

text \<open>The conditions of the rules of \<open>heard_as\<close>, for calls that do not declare a format.\<close>

inductive usable :: "nat \<Rightarrow> formats \<Rightarrow> api_call \<Rightarrow> bool" for d F where
  use_int: "NUL \<notin> set name \<Longrightarrow> length name < 243 \<Longrightarrow> usable d F (Reg_Param_Int (''int32_t '' @ name) w)"
| use_float: "NUL \<notin> set name \<Longrightarrow> length name < 243 \<Longrightarrow> usable d F (Reg_Param_Float (''float '' @ name) w)"
| use_info: "key \<noteq> [] \<Longrightarrow> CHR '' '' \<notin> set key \<Longrightarrow> NUL \<notin> set key \<Longrightarrow> length val + length (info_key key val) < 255 \<Longrightarrow>
     usable d F (Reg_Info key val)"
| use_multi: "length val + length (info_key key val) < 255 \<Longrightarrow> usable d F (Reg_Info_Multi key val c)"
| use_data: "F name = Some fmt \<Longrightarrow> CHR ''.'' \<notin> set name \<Longrightarrow> length name \<le> 255 \<Longrightarrow> length stamp = 8 \<Longrightarrow>
     length payload \<le> 1492 \<Longrightarrow> conf_fields d F (fmt_fields fmt) payload vs \<Longrightarrow>
     append_vector (Suc d) F (fmt_fields fmt) [] [] = Inr cs \<Longrightarrow> usable d F (Store_Data (stamp @ payload) name ann t)"
| use_message: "length msg < 1500 \<Longrightarrow> usable d F (Store_Message msg level t)"

fun is_message :: "api_call \<Rightarrow> bool" where
  "is_message (Store_Message msg level t) = True"
| "is_message _ = False"

fun used_of :: "api_call \<Rightarrow> (string \<times> string) list" where
  "used_of (Store_Data dt name ann t) = [(name, ann)]"
| "used_of _ = []"

text \<open>No message before the first record; \<open>b\<close>: there was one already.\<close>

fun data_first :: "bool \<Rightarrow> api_call list \<Rightarrow> bool" where
  "data_first b [] \<longleftrightarrow> True"
| "data_first b (c # cs) \<longleftrightarrow> (is_message c \<longrightarrow> b) \<and> data_first (b \<or> is_record c) cs"

lemma data_first_append:
  "data_first b (as @ bs) \<longleftrightarrow> data_first b as \<and> data_first (b \<or> (\<exists>c \<in> set as. is_record c)) bs"
  by (induction as arbitrary: b) (auto simp: disj_assoc)

lemma usable_heard:
  assumes "usable d F c" and "v_formats v = F" and "is_message c \<Longrightarrow> v_used v \<noteq> []"
    and "card (set (types v) \<union> fst ` set (used_of c)) \<le> 65536"
  shows "\<exists>v'. heard_as I d c v v' \<and> v_formats v' = F \<and> v_used v' = v_used v @ used_of c"
  using assms(1)
proof cases
  case (use_int name w)
  then show ?thesis using heard_int [of name I d w v] assms(2) by fastforce
next
  case (use_float name w)
  then show ?thesis using heard_float [of name I d w v] assms(2) by fastforce
next
  case (use_info key val)
  then show ?thesis using heard_info [of key val I d v] assms(2) by fastforce
next
  case (use_multi val key c)
  then show ?thesis using heard_multi [of val key I d c v] assms(2) by fastforce
next
  case (use_data name fmt stamp payload vs cs ann t)
  have "card (set (types (v\<lparr>v_used := v_used v @ [(name, ann)]\<rparr>))) \<le> 65536"
    using assms(4) use_data(1) by simp
  then show ?thesis
    using heard_data [of v name fmt stamp payload d vs cs "v\<lparr>v_used := v_used v @ [(name, ann)]\<rparr>" ann I t]
      use_data assms(2) by fastforce
next
  case (use_message msg level t)
  then show ?thesis using heard_message [of v msg I d level t] assms(2,3) by fastforce
qed

lemma usable_wire: "usable d F c \<Longrightarrow> \<exists>bs. wire_as T I c = Inr bs"
  by (erule usable.cases)
    (simp_all add: param_key [simplified] info_message_eq info_multi_message_eq data_message_eq log_message_eq)

section \<open>Sessions with given numbers\<close>

fun session_as :: "(string \<Rightarrow> string \<Rightarrow> byte) \<Rightarrow> nat \<Rightarrow> api_call list \<Rightarrow> view \<Rightarrow> view \<Rightarrow> bool" where
  "session_as I d [] v v' \<longleftrightarrow> v' = v"
| "session_as I d (c # cs) v v' \<longleftrightarrow> (\<exists>u. heard_as I d c v u \<and> session_as I d cs u v')"

lemma session_exists:
  assumes "\<forall>c \<in> set cs. usable d F c" and "v_formats v = F" and "data_first (v_used v \<noteq> []) cs"
    and "card (set (types v) \<union> fst ` set (concat (map used_of cs))) \<le> 65536"
  shows "\<exists>v'. session_as I d cs v v' \<and> v_formats v' = F \<and> v_used v' = v_used v @ concat (map used_of cs)"
  using assms
proof (induction cs arbitrary: v)
  case Nil
  then show ?case by simp
next
  case (Cons c cs)
  have "card (set (types v) \<union> fst ` set (used_of c)) \<le> card (set (types v) \<union> fst ` set (concat (map used_of (c # cs))))"
    by (intro card_mono) auto
  with Cons.prems(4) have "card (set (types v) \<union> fst ` set (used_of c)) \<le> 65536" by simp
  then obtain u where u: "heard_as I d c v u" "v_formats u = F" "v_used u = v_used v @ used_of c"
    using usable_heard [of d F c v I] Cons.prems by auto
  have "used_of c \<noteq> [] \<longleftrightarrow> is_record c" by (cases c) simp_all
  then have "data_first (v_used u \<noteq> []) cs" using Cons.prems(3) by (simp add: u(3))
  moreover have "set (types u) = set (types v) \<union> fst ` set (used_of c)" by (simp add: types_def u(3) image_Un)
  then have "card (set (types u) \<union> fst ` set (concat (map used_of cs))) \<le> 65536"
    using Cons.prems(4) by (simp add: image_Un Un_assoc)
  ultimately obtain v' where "session_as I d cs u v'" "v_formats v' = F" "v_used v' = v_used u @ concat (map used_of cs)"
    using Cons.IH [of u] Cons.prems(1) u(2) by auto
  then show ?case using u by auto
qed

lemma heard_as_used: "heard_as I d c v v' \<Longrightarrow> v_used v' = v_used v @ used_of c"
  by (auto elim: heard_as.cases)

lemma session_as_used: "session_as I d cs v v' \<Longrightarrow> v_used v' = v_used v @ concat (map used_of cs)"
  by (induction cs arbitrary: v) (auto dest: heard_as_used)

lemma session_as_start: "session_as I d cs v v' \<Longrightarrow> v_start v' = v_start v"
  by (induction cs arbitrary: v) (auto dest: heard_frame(1))

text \<open>Reading the messages of the calls, one after the other.\<close>

lemma session_parsed:
  assumes "session_as I d cs v v'" and "list_all2 (\<lambda>c b. wire_as T I c = Inr b) cs bs" and "stored_all locs bs"
    and "hears_as T I d v ps" and "inj_on T (set (types v'))"
  shows "\<exists>ps'. foldE (parse_call (Suc d)) locs ps = Inr ps' \<and> hears_as T I d v' ps'"
  using assms
proof (induction cs arbitrary: v bs locs ps)
  case Nil
  then show ?case by (auto elim: stored_all.elims)
next
  case (Cons c cs)
  then obtain u b bs' where u: "heard_as I d c v u" "session_as I d cs u v'"
    and b: "bs = b # bs'" "wire_as T I c = Inr b" "list_all2 (\<lambda>c b. wire_as T I c = Inr b) cs bs'"
    by (auto simp: list_all2_Cons1)
  obtain mem p ls where ls: "locs = (mem, p) # ls" "stored mem p b" "stored_all ls bs'"
    using Cons.prems(3) b(1) by (cases locs) auto
  have "set (types u) \<subseteq> set (types v')" using session_as_used [OF u(2)] by (auto simp: types_def)
  then have "inj_on T (set (types u))" using Cons.prems(5) inj_on_subset by blast
  then obtain ps1 where "parse (Suc d) mem p ps = Inr (ps1, True)" "hears_as T I d u ps1"
    using heard_parsed [OF u(1) b(2) ls(2) Cons.prems(4)] by blast
  with Cons.IH [OF u(2) b(3) ls(3) _ Cons.prems(5)] show ?case by (simp add: ls(1) parse_call_def)
qed

section \<open>The numbers an object has handed out\<close>

definition type_of :: "'q mu_telemetry \<Rightarrow> string \<Rightarrow> 16 word" where
  "type_of mt n = (case ids (msg_id mt) n of Some i \<Rightarrow> i | None \<Rightarrow> 0)"

definition inst_of :: "'q mu_telemetry \<Rightarrow> string \<Rightarrow> string \<Rightarrow> byte" where
  "inst_of mt n a =
     (case multi_id mt (type_of mt n) of
        Some g \<Rightarrow> (case ids g a of Some i \<Rightarrow> i | None \<Rightarrow> 0)
      | None \<Rightarrow> 0)"

definition numbered :: "'q mu_telemetry \<Rightarrow> string \<times> string \<Rightarrow> bool" where
  "numbered mt = (\<lambda>(n, a). n \<in> dom (ids (msg_id mt)) \<and> (\<exists>g. multi_id mt (type_of mt n) = Some g \<and> a \<in> dom (ids g)))"

definition ids_le :: "'q mu_telemetry \<Rightarrow> 'q mu_telemetry \<Rightarrow> bool" where
  "ids_le mt mt' \<longleftrightarrow> (\<forall>n i. ids (msg_id mt) n = Some i \<longrightarrow> ids (msg_id mt') n = Some i) \<and>
     (\<forall>k g. multi_id mt k = Some g \<longrightarrow>
        (\<exists>g'. multi_id mt' k = Some g' \<and> (\<forall>a i. ids g a = Some i \<longrightarrow> ids g' a = Some i)))"

lemma ids_le_refl: "ids_le mt mt"
  by (auto simp: ids_le_def)

lemma ids_le_trans: "ids_le a b \<Longrightarrow> ids_le b c \<Longrightarrow> ids_le a c"
  unfolding ids_le_def by meson

lemma numbers_stay:
  assumes le: "ids_le mt mt'" and num: "numbered mt (n, a)"
  shows "numbered mt' (n, a)" and "type_of mt' n = type_of mt n" and "inst_of mt' n a = inst_of mt n a"
proof -
  obtain i g k where i: "ids (msg_id mt) n = Some i" "multi_id mt i = Some g" "ids g a = Some k"
    using num by (auto simp: numbered_def type_of_def)
  obtain g' where "ids (msg_id mt') n = Some i" "multi_id mt' i = Some g'" "ids g' a = Some k"
    using le i unfolding ids_le_def by metis
  with i show "numbered mt' (n, a)" "type_of mt' n = type_of mt n" "inst_of mt' n a = inst_of mt n a"
    by (auto simp: numbered_def type_of_def inst_of_def)
qed

text \<open>The message of a call, with the numbers it has.\<close>

definition wired :: "'q mu_telemetry \<Rightarrow> api_call \<Rightarrow> byte list \<Rightarrow> bool" where
  "wired mt c b \<longleftrightarrow> (\<forall>u \<in> set (used_of c). numbered mt u) \<and> wire_as (type_of mt) (inst_of mt) c = Inr b"

lemma wired_stays: "ids_le mt mt' \<Longrightarrow> wired mt c b \<Longrightarrow> wired mt' c b"
proof (cases c)
  case (Store_Data dt n a t)
  then show "ids_le mt mt' \<Longrightarrow> wired mt c b \<Longrightarrow> ?thesis" using numbers_stay [of mt mt' n a] by (simp add: wired_def)
qed (simp_all add: wired_def)

lemma wired_plain: "\<not> is_record c \<Longrightarrow> plain_message c = Inr b \<Longrightarrow> wired mt c b"
  by (cases c) (simp_all add: wired_def)

lemma wired_ids:
  "wired mt c b \<Longrightarrow> msg_id mt' = msg_id mt \<Longrightarrow> multi_id mt' = multi_id mt \<Longrightarrow> wired mt' c b" for mt mt' :: "'q mu_telemetry"
  using wired_stays [of mt mt' c b] by (simp add: ids_le_def)

section \<open>The order of the calls in a queue\<close>

text \<open>\<open>ts\<close> lists calls with the number of their thread: of thread \<open>i\<close> the first \<open>cnt i\<close>, in their order.\<close>

definition merged :: "api_call list list \<Rightarrow> (nat \<times> api_call) list \<Rightarrow> (nat \<Rightarrow> nat) \<Rightarrow> bool" where
  "merged progs ts cnt \<longleftrightarrow> (\<forall>x \<in> set ts. fst x < length progs) \<and>
     (\<forall>i < length progs. map snd (filter (\<lambda>x. fst x = i) ts) = take (cnt i) (progs ! i))"

lemma merged_new: "merged progs [] (\<lambda>_. 0)"
  by (simp add: merged_def)

lemma merged_snoc:
  assumes "merged progs ts cnt" and "i < length progs" and "cnt i < length (progs ! i)"
  shows "merged progs (ts @ [(i, progs ! i ! cnt i)]) (cnt(i := Suc (cnt i)))"
  using assms by (auto simp: merged_def take_Suc_conv_app_nth)

lemma merged_calls: "merged progs ts cnt \<Longrightarrow> x \<in> set ts \<Longrightarrow> snd x \<in> set (concat progs)"
proof -
  assume m: "merged progs ts cnt" and x: "x \<in> set ts"
  then have i: "fst x < length progs" by (simp add: merged_def)
  have "snd x \<in> set (map snd (filter (\<lambda>y. fst y = fst x) ts))" using x by auto
  also have "\<dots> = set (take (cnt (fst x)) (progs ! fst x))" using m i by (simp only: merged_def)
  finally show ?thesis using i by (auto dest: in_set_takeD)
qed

lemma merged_has: "merged progs ts cnt \<Longrightarrow> i < length progs \<Longrightarrow> c \<in> set (take (cnt i) (progs ! i)) \<Longrightarrow> c \<in> set (map snd ts)"
proof -
  assume "merged progs ts cnt" "i < length progs" "c \<in> set (take (cnt i) (progs ! i))"
  then have "c \<in> set (map snd (filter (\<lambda>x. fst x = i) ts))" by (simp only: merged_def)
  then show ?thesis by auto
qed

text \<open>All calls of all threads: the same calls in every such order.\<close>

lemma mset_by_thread:
  fixes n :: nat
  assumes "\<forall>x \<in> set ts. fst x < n"
  shows "mset (map snd ts) = (\<Sum>i<n. mset (map snd (filter (\<lambda>x. fst x = i) ts)))"
  using assms
proof (induction ts)
  case Nil
  then show ?case by simp
next
  case (Cons x ts)
  have "(\<Sum>i<n. mset (map snd (filter (\<lambda>y. fst y = i) (x # ts)))) =
      (\<Sum>i<n. (if fst x = i then {#snd x#} else {#}) + mset (map snd (filter (\<lambda>y. fst y = i) ts)))"
    by (intro sum.cong) auto
  also have "\<dots> = {#snd x#} + mset (map snd ts)"
    using Cons by (simp add: sum.distrib)
  finally show ?case by simp
qed

lemma merged_all:
  assumes "merged progs ts cnt" and "\<forall>i < length progs. length (progs ! i) \<le> cnt i"
  shows "mset (map snd ts) = mset (concat progs)"
proof -
  have "mset (map snd ts) = (\<Sum>i<length progs. mset (map snd (filter (\<lambda>x. fst x = i) ts)))"
    using assms(1) by (intro mset_by_thread) (simp add: merged_def)
  also have "\<dots> = (\<Sum>i<length progs. mset (progs ! i))"
    using assms by (intro sum.cong) (auto simp: merged_def)
  also have "\<dots> = mset (concat progs)"
    by (simp add: mset_concat sum_list_sum_nth atLeast0LessThan)
  finally show ?thesis .
qed

section \<open>What every run keeps\<close>

definition calls_done :: "api_call list list \<Rightarrow> caller list \<Rightarrow> nat \<Rightarrow> nat" where
  "calls_done progs ws i = length (progs ! i) - length (todo (ws ! i))"

text \<open>Between the two queues a call is in the first and not yet in the second.\<close>

definition logged :: "api_call list list \<Rightarrow> caller list \<Rightarrow> nat \<Rightarrow> nat" where
  "logged progs ws i = calls_done progs ws i + (case call_pc (ws ! i) of To_Net bs \<Rightarrow> 1 | _ \<Rightarrow> 0)"

definition pc_ok :: "'q mu_telemetry \<Rightarrow> caller \<Rightarrow> bool" where
  "pc_ok mt w \<longleftrightarrow>
     (case todo w of
        [] \<Rightarrow> call_pc w = At_Start
      | c # cs \<Rightarrow>
          (case call_pc w of
             At_Start \<Rightarrow> True
           | Has_Type mid \<Rightarrow> is_record c \<and> (\<forall>(n, a) \<in> set (used_of c). ids (msg_id mt) n = Some mid)
           | Has_Entry mid \<Rightarrow> is_record c \<and> (\<forall>(n, a) \<in> set (used_of c). ids (msg_id mt) n = Some mid) \<and> multi_id mt mid \<noteq> None
           | To_Log bs \<Rightarrow> wired mt c bs
           | To_Net bs \<Rightarrow> wired mt c bs))"

lemma pc_ok_stays: "ids_le mt mt' \<Longrightarrow> pc_ok mt w \<Longrightarrow> pc_ok mt' w"
proof -
  assume le: "ids_le mt mt'" and ok: "pc_ok mt w"
  have types: "ids (msg_id mt) n = Some i \<Longrightarrow> ids (msg_id mt') n = Some i" for n i using le by (simp add: ids_le_def)
  have entry: "multi_id mt k \<noteq> None \<Longrightarrow> multi_id mt' k \<noteq> None" for k using le unfolding ids_le_def by fastforce
  from ok show ?thesis
    unfolding pc_ok_def using types entry wired_stays [OF le]
    by (auto split: list.splits call_pc.splits)
qed

text \<open>What the threads have put into a queue that had the content \<open>old\<close>.\<close>

definition queue_ok ::
    "api_call list list \<Rightarrow> 'q mu_telemetry \<Rightarrow> byte list list \<Rightarrow> byte list list \<Rightarrow> (nat \<Rightarrow> nat) \<Rightarrow> (nat \<times> api_call) list \<Rightarrow> bool" where
  "queue_ok progs mt old now cnt ts \<longleftrightarrow>
     (\<exists>bs. now = old @ bs \<and> list_all2 (\<lambda>x b. wired mt (snd x) b) ts bs \<and> merged progs ts cnt)"

lemma queue_ok_stays: "queue_ok progs mt old now cnt ts \<Longrightarrow> ids_le mt mt' \<Longrightarrow> queue_ok progs mt' old now cnt ts"
  unfolding queue_ok_def using wired_stays by (blast intro: list_all2_mono)

lemma queue_ok_cnt:
  "queue_ok progs mt old now cnt ts \<Longrightarrow> (\<And>i. i < length progs \<Longrightarrow> cnt' i = cnt i) \<Longrightarrow> queue_ok progs mt old now cnt' ts"
  by (fastforce simp: queue_ok_def merged_def)

lemma queue_ok_snoc:
  assumes "queue_ok progs mt old now cnt ts" and "i < length progs" and "cnt i < length (progs ! i)"
    and "wired mt (progs ! i ! cnt i) b"
  shows "queue_ok progs mt old (now @ [b]) (cnt(i := Suc (cnt i))) (ts @ [(i, progs ! i ! cnt i)])"
proof -
  obtain bs where bs: "now = old @ bs" "list_all2 (\<lambda>x b. wired mt (snd x) b) ts bs" "merged progs ts cnt"
    using assms(1) by (auto simp: queue_ok_def)
  then have "list_all2 (\<lambda>x b. wired mt (snd x) b) (ts @ [(i, progs ! i ! cnt i)]) (bs @ [b])"
    using assms(4) by (auto intro: list_all2_appendI)
  then show ?thesis using bs merged_snoc [OF bs(3) assms(2,3)] by (auto simp: queue_ok_def)
qed

end
