(* ===== verification/Callers_Run.thy ===== *)
theory Callers_Run
  imports Callers_Props
begin

text \<open>
  Every step of a thread that uses the interface as expected succeeds and keeps \<open>callers_ok\<close>, whatever the others do.
\<close>

section \<open>One step of one thread\<close>

definition ids_good :: "string set \<Rightarrow> 'q mu_telemetry \<Rightarrow> bool" where
  "ids_good U mt \<longleftrightarrow> id_gen_ok (msg_id mt) \<and> id_gen_fresh (msg_id mt) \<and> dom (ids (msg_id mt)) \<subseteq> U"

lemma get_id_good:
  fixes g :: "16 word id_gen"
  assumes "id_gen_ok g" and "id_gen_fresh g" and "dom (ids g) \<subseteq> U" and "finite U" and "card U \<le> 65536" and "n \<in> U"
  shows "id_gen_ok (snd (get_id n g)) \<and> id_gen_fresh (snd (get_id n g)) \<and> dom (ids (snd (get_id n g))) \<subseteq> U"
proof (cases "ids g n")
  case None
  then have "dom (ids g) \<subset> U" using assms(3,6) by (auto simp: domIff)
  then have "card (dom (ids g)) < card U" by (rule psubset_card_mono [OF assms(4)])
  then have "card (dom (ids g)) < 2 ^ LENGTH(16)" using assms(5) by simp
  then have "id_gen_fresh (snd (get_id n g))" by (rule get_id_fresh [OF assms(1,2)])
  then show ?thesis using get_id_ok [OF assms(1)] assms(3,6) by (simp add: dom_get_id)
next
  case (Some i)
  then show ?thesis using assms by (simp add: get_id_laws(3))
qed

text \<open>What the step of a thread does: nothing to the queues, or the message of its call goes into one of them.\<close>

definition stepped ::
    "('q \<Rightarrow> byte list list) \<Rightarrow> caller \<times> 'q mu_telemetry \<Rightarrow> caller \<times> 'q mu_telemetry \<Rightarrow> bool" where
  "stepped content = (\<lambda>(w, mt) (w', mt').
     (case call_pc w of
        To_Log bs \<Rightarrow> todo w' = todo w \<and> call_pc w' = To_Net bs \<and> content (net_queue mt') = content (net_queue mt) \<and>
          (with_local_log mt \<longrightarrow> content (log_queue mt') = content (log_queue mt) @ [bs])
      | To_Net bs \<Rightarrow> todo w' = tl (todo w) \<and> call_pc w' = At_Start \<and> content (log_queue mt') = content (log_queue mt) \<and>
          (with_network mt \<longrightarrow> content (net_queue mt') = content (net_queue mt) @ [bs])
      | _ \<Rightarrow> todo w' = todo w \<and> (\<forall>bs. call_pc w' \<noteq> To_Net bs) \<and> log_queue mt' = log_queue mt \<and> net_queue mt' = net_queue mt))"

context conc_queue
begin

lemma to_log_frame:
  "msg_id (to_log Q bs mt) = msg_id mt" "multi_id (to_log Q bs mt) = multi_id mt"
  "with_local_log (to_log Q bs mt) = with_local_log mt" "with_network (to_log Q bs mt) = with_network mt"
  "net_queue (to_log Q bs mt) = net_queue mt"
  "with_local_log mt \<Longrightarrow> content (log_queue (to_log Q bs mt)) = content (log_queue mt) @ [bs]"
  by (simp_all add: to_log_def is_log_enabled_def enqueue_content)

lemma to_net_frame:
  "msg_id (to_net Q bs mt) = msg_id mt" "multi_id (to_net Q bs mt) = multi_id mt"
  "with_local_log (to_net Q bs mt) = with_local_log mt" "with_network (to_net Q bs mt) = with_network mt"
  "log_queue (to_net Q bs mt) = log_queue mt"
  "with_network mt \<Longrightarrow> content (net_queue (to_net Q bs mt)) = content (net_queue mt) @ [bs]"
  by (simp_all add: to_net_def is_net_enabled_def enqueue_content)

lemma caller_step_ok:
  assumes ok: "pc_ok mt w" and use: "todo w = c # cs" "usable d F c" and on: "is_enabled mt"
    and good: "ids_good U mt" and U: "finite U" "card U \<le> 65536" "fst ` set (used_of c) \<subseteq> U"
  shows "\<exists>w' mt'. caller_step Q (w, mt) = Inr (w', mt') \<and> pc_ok mt' w' \<and> ids_le mt mt' \<and> ids_good U mt' \<and>
    with_local_log mt' = with_local_log mt \<and> with_network mt' = with_network mt \<and> stepped content (w, mt) (w', mt')"
proof (cases "call_pc w")
  case At_Start
  show ?thesis
  proof (cases "is_record c")
    case True
    then obtain dt n a t where c: "c = Store_Data dt n a t" by (cases c) auto
    let ?mt = "mt\<lparr>msg_id := snd (get_id n (msg_id mt))\<rparr>" and ?i = "fst (get_id n (msg_id mt))"
    have "caller_step Q (w, mt) = Inr (w\<lparr>call_pc := Has_Type ?i\<rparr>, ?mt)"
      using At_Start use(1) on by (simp add: caller_step_def c get_msg_id_def split_beta)
    moreover have "pc_ok ?mt (w\<lparr>call_pc := Has_Type ?i\<rparr>)" using use(1) by (simp add: pc_ok_def c get_id_laws(1))
    moreover have "ids_le mt ?mt" using get_id_stable by (auto simp: ids_le_def)
    moreover have "ids_good U ?mt"
      using get_id_good [of "msg_id mt" U n] good U by (simp add: ids_good_def c)
    ultimately show ?thesis using At_Start by (fastforce simp: stepped_def)
  next
    case False
    obtain bs where bs: "wire_as (type_of mt) (inst_of mt) c = Inr bs" using usable_wire [OF use(2)] by blast
    then have plain: "plain_message c = Inr bs" using False by (cases c) simp_all
    then have "caller_step Q (w, mt) = Inr (w\<lparr>call_pc := To_Log bs\<rparr>, mt)"
      using At_Start use(1) on False by (cases c) (simp_all add: caller_step_def)
    moreover have "pc_ok mt (w\<lparr>call_pc := To_Log bs\<rparr>)"
      using use(1) wired_plain [OF False plain] by (simp add: pc_ok_def)
    ultimately show ?thesis using At_Start good ids_le_refl by (fastforce simp: stepped_def)
  qed
next
  case (Has_Type mid)
  then have step: "caller_step Q (w, mt) = Inr (w\<lparr>call_pc := Has_Entry mid\<rparr>, new_entry mid mt)"
    using use(1) by (simp add: caller_step_def)
  have le: "ids_le mt (new_entry mid mt)" by (auto simp: ids_le_def new_entry_def)
  have "pc_ok (new_entry mid mt) (w\<lparr>call_pc := Has_Entry mid\<rparr>)"
    using ok Has_Type use(1) by (auto simp: pc_ok_def new_entry_def)
  moreover have "ids_good U (new_entry mid mt)" using good by (simp add: ids_good_def new_entry_def)
  ultimately show ?thesis
    using step le Has_Type by (fastforce simp: stepped_def new_entry_def)
next
  case (Has_Entry mid)
  then have "is_record c" using ok use(1) by (simp add: pc_ok_def)
  then obtain dt n a t where c: "c = Store_Data dt n a t" by (cases c) auto
  have mid: "ids (msg_id mt) n = Some mid" and "multi_id mt mid \<noteq> None"
    using ok Has_Entry use(1) by (simp_all add: pc_ok_def c)
  then obtain g where g: "multi_id mt mid = Some g" by blast
  let ?k = "fst (get_id a g)" and ?mt = "mt\<lparr>multi_id := (multi_id mt)(mid \<mapsto> snd (get_id a g))\<rparr>"
  obtain bs where bs: "wire_as (\<lambda>_. mid) (\<lambda>_ _. ?k) c = Inr bs" using usable_wire [OF use(2)] by blast
  then have step: "caller_step Q (w, mt) = Inr (w\<lparr>call_pc := To_Log bs\<rparr>, ?mt)"
    using Has_Entry use(1) by (simp add: caller_step_def c entry_id_def g split_beta)
  have le: "ids_le mt ?mt" using get_id_stable [of g] g by (auto simp: ids_le_def)
  have "type_of ?mt n = mid" "inst_of ?mt n a = ?k" "numbered ?mt (n, a)"
    using mid get_id_laws(1) [of a g] by (auto simp: type_of_def inst_of_def numbered_def)
  then have "pc_ok ?mt (w\<lparr>call_pc := To_Log bs\<rparr>)"
    using use(1) bs by (simp add: pc_ok_def wired_def c)
  moreover have "ids_good U ?mt" using good by (simp add: ids_good_def)
  ultimately show ?thesis using step le Has_Entry by (fastforce simp: stepped_def)
next
  case (To_Log bs)
  then have step: "caller_step Q (w, mt) = Inr (w\<lparr>call_pc := To_Net bs\<rparr>, to_log Q bs mt)"
    using use(1) by (simp add: caller_step_def)
  have "wired mt c bs" using ok To_Log use(1) by (simp add: pc_ok_def)
  from wired_ids [OF this, of "to_log Q bs mt"] have "pc_ok (to_log Q bs mt) (w\<lparr>call_pc := To_Net bs\<rparr>)"
    using use(1) by (simp add: pc_ok_def to_log_frame)
  moreover have "ids_le mt (to_log Q bs mt)" "ids_good U (to_log Q bs mt)"
    using good by (auto simp: ids_le_def ids_good_def to_log_frame)
  ultimately show ?thesis using step To_Log by (fastforce simp: stepped_def to_log_frame)
next
  case (To_Net bs)
  then have step: "caller_step Q (w, mt) = Inr (w\<lparr>todo := cs, call_pc := At_Start\<rparr>, to_net Q bs mt)"
    using use(1) by (simp add: caller_step_def)
  have "pc_ok (to_net Q bs mt) (w\<lparr>todo := cs, call_pc := At_Start\<rparr>)" by (simp add: pc_ok_def split: list.splits)
  moreover have "ids_le mt (to_net Q bs mt)" "ids_good U (to_net Q bs mt)"
    using good by (auto simp: ids_le_def ids_good_def to_net_frame)
  ultimately show ?thesis using step To_Net use(1) by (fastforce simp: stepped_def to_net_frame)
qed

end

section \<open>All threads\<close>

definition callers_ok ::
    "('q \<Rightarrow> byte list list) \<Rightarrow> api_call list list \<Rightarrow> string set \<Rightarrow> 'q mu_telemetry \<Rightarrow> caller list \<times> 'q mu_telemetry \<Rightarrow> bool" where
  "callers_ok content progs U mt0 = (\<lambda>(ws, mt).
     length ws = length progs \<and> (\<forall>i < length progs. pc_ok mt (ws ! i) \<and> (\<exists>ds. progs ! i = ds @ todo (ws ! i))) \<and>
     ids_le mt0 mt \<and> ids_good U mt \<and> with_local_log mt = with_local_log mt0 \<and> with_network mt = with_network mt0 \<and>
     (with_local_log mt0 \<longrightarrow>
        (\<exists>ts. queue_ok progs mt (content (log_queue mt0)) (content (log_queue mt)) (logged progs ws) ts)) \<and>
     (with_network mt0 \<longrightarrow>
        (\<exists>ts. queue_ok progs mt (content (net_queue mt0)) (content (net_queue mt)) (calls_done progs ws) ts)))"

text \<open>What the programs of the threads may be.\<close>

definition programs_ok :: "nat \<Rightarrow> formats \<Rightarrow> string set \<Rightarrow> api_call list list \<Rightarrow> bool" where
  "programs_ok d F U progs \<longleftrightarrow> finite U \<and> card U \<le> 65536 \<and>
     (\<forall>c \<in> set (concat progs). usable d F c \<and> fst ` set (used_of c) \<subseteq> U)"

lemma counts_update:
  assumes "i < length ws" and "progs ! i = ds @ todo (ws ! i)" and "todo (ws ! i) = c # cs"
  shows "calls_done progs ws i = length ds" and "progs ! i ! length ds = c"
    and "todo w = c # cs \<Longrightarrow> calls_done progs (ws[i := w]) = calls_done progs ws"
    and "todo w = cs \<Longrightarrow> calls_done progs (ws[i := w]) = (calls_done progs ws)(i := Suc (length ds))"
  using assms by (auto simp: calls_done_def fun_eq_iff nth_list_update)

lemma callers_start:
  assumes "ids_good U mt0"
  shows "callers_ok content progs U mt0 (new_callers progs, mt0)"
proof -
  have "pc_ok mt0 (new_callers progs ! i)" "todo (new_callers progs ! i) = progs ! i"
    "call_pc (new_callers progs ! i) = At_Start" if "i < length progs" for i
    using that by (simp_all add: new_callers_def pc_ok_def split: list.splits)
  moreover from this have "queue_ok progs mt0 q q (logged progs (new_callers progs)) []"
    "queue_ok progs mt0 q q (calls_done progs (new_callers progs)) []" for q
    by (auto simp: queue_ok_def merged_def logged_def calls_done_def)
  ultimately show ?thesis
    using assms ids_le_refl by (auto simp: callers_ok_def new_callers_def)
qed

text \<open>The step of thread \<open>i\<close>, seen from the two queues.\<close>

lemma log_step:
  assumes q: "queue_ok progs mt' old (content (log_queue mt)) (logged progs ws) ts"
    and i: "i < length ws" "length ws = length progs" and ds: "progs ! i = ds @ todo (ws ! i)" and c: "todo (ws ! i) = c # cs"
    and step: "stepped content (ws ! i, mt) (w', mt')" and on: "with_local_log mt"
    and wired: "\<And>bs. call_pc (ws ! i) = To_Log bs \<Longrightarrow> wired mt' c bs"
  shows "\<exists>ts. queue_ok progs mt' old (content (log_queue mt')) (logged progs (ws[i := w'])) ts"
proof -
  note cnt = counts_update [OF i(1) ds c]
  consider bs where "call_pc (ws ! i) = To_Log bs" | bs where "call_pc (ws ! i) = To_Net bs"
    | "\<forall>bs. call_pc (ws ! i) \<noteq> To_Log bs \<and> call_pc (ws ! i) \<noteq> To_Net bs" by blast
  then show ?thesis
  proof cases
    case (1 bs)
    then have eff: "todo w' = c # cs" "call_pc w' = To_Net bs" "content (log_queue mt') = content (log_queue mt) @ [bs]"
      using step c on by (simp_all add: stepped_def)
    have at: "logged progs ws i = length ds" using 1 by (simp add: logged_def cnt(1))
    have "logged progs (ws[i := w']) = (logged progs ws)(i := Suc (logged progs ws i))"
      using i(1) 1 eff(2) by (auto simp: logged_def cnt(3) [OF eff(1)] nth_list_update fun_eq_iff)
    then show ?thesis
      using queue_ok_snoc [OF q, of i bs] wired [OF 1] i at ds c cnt(2) eff(3) by auto
  next
    case (2 bs)
    then have eff: "todo w' = cs" "call_pc w' = At_Start" "content (log_queue mt') = content (log_queue mt)"
      using step c by (simp_all add: stepped_def)
    have "logged progs (ws[i := w']) = logged progs ws"
      using i(1) 2 eff(2) by (auto simp: logged_def cnt(1) cnt(4) [OF eff(1)] nth_list_update fun_eq_iff)
    then show ?thesis using q eff(3) by auto
  next
    case 3
    then have eff: "todo w' = c # cs" "\<forall>bs. call_pc w' \<noteq> To_Net bs" "content (log_queue mt') = content (log_queue mt)"
      using step c by (auto simp: stepped_def split: call_pc.splits)
    have "logged progs (ws[i := w']) = logged progs ws"
      using i(1) 3 eff(2) by (auto simp: logged_def cnt(3) [OF eff(1)] nth_list_update fun_eq_iff split: call_pc.splits)
    then show ?thesis using q eff(3) by auto
  qed
qed

lemma net_step:
  assumes q: "queue_ok progs mt' old (content (net_queue mt)) (calls_done progs ws) ts"
    and i: "i < length ws" "length ws = length progs" and ds: "progs ! i = ds @ todo (ws ! i)" and c: "todo (ws ! i) = c # cs"
    and step: "stepped content (ws ! i, mt) (w', mt')" and on: "with_network mt"
    and wired: "\<And>bs. call_pc (ws ! i) = To_Net bs \<Longrightarrow> wired mt' c bs"
  shows "\<exists>ts. queue_ok progs mt' old (content (net_queue mt')) (calls_done progs (ws[i := w'])) ts"
proof -
  note cnt = counts_update [OF i(1) ds c]
  show ?thesis
  proof (cases "\<exists>bs. call_pc (ws ! i) = To_Net bs")
    case True
    then obtain bs where bs: "call_pc (ws ! i) = To_Net bs" ..
    then have eff: "todo w' = cs" "content (net_queue mt') = content (net_queue mt) @ [bs]"
      using step c on by (simp_all add: stepped_def)
    then show ?thesis
      using queue_ok_snoc [OF q, of i bs] wired [OF bs] i ds c cnt(1,2) cnt(4) [OF eff(1)] by auto
  next
    case False
    then have "content (net_queue mt') = content (net_queue mt)" "todo w' = c # cs"
      using step c by (auto simp: stepped_def split: call_pc.splits)
    with q cnt(3) show ?thesis by auto
  qed
qed

lemma stepped_todo: "stepped content (w, mt) (w', mt') \<Longrightarrow> todo w = c # cs \<Longrightarrow> todo w' = c # cs \<or> todo w' = cs"
  by (auto simp: stepped_def split: call_pc.splits)

context conc_queue
begin

lemma callers_step_ok:
  assumes ok: "callers_ok content progs U mt0 s" and progs: "programs_ok d F U progs" and on: "is_enabled mt0"
  shows "\<exists>s'. callers_step Q i s = Inr s' \<and> callers_ok content progs U mt0 s'"
proof -
  obtain ws mt where s: "s = (ws, mt)" by fastforce
  note inv = ok [unfolded s callers_ok_def prod.case]
  show ?thesis
  proof (cases "i < length ws \<and> todo (ws ! i) \<noteq> []")
    case False
    then have "callers_step Q i s = Inr s" by (auto simp: callers_step_def caller_step_def s)
    then show ?thesis using ok by blast
  next
    case True
    then obtain c cs where c: "todo (ws ! i) = c # cs" and i: "i < length ws" by (auto simp: neq_Nil_conv)
    have len: "length ws = length progs" using inv by blast
    obtain ds where ds: "progs ! i = ds @ todo (ws ! i)" using inv i by auto
    then have "c \<in> set (progs ! i)" by (simp add: c)
    then have "c \<in> set (concat progs)" using i len by auto
    then have use: "usable d F c" "fst ` set (used_of c) \<subseteq> U" and U: "finite U" "card U \<le> 65536"
      using progs by (auto simp: programs_ok_def)
    have enabled: "is_enabled mt" and good: "ids_good U mt" and pc: "pc_ok mt (ws ! i)"
      using inv on i by (auto simp: is_enabled_def)
    obtain w' mt' where step: "caller_step Q (ws ! i, mt) = Inr (w', mt')" "pc_ok mt' w'" "ids_le mt mt'" "ids_good U mt'"
      "with_local_log mt' = with_local_log mt" "with_network mt' = with_network mt" "stepped content (ws ! i, mt) (w', mt')"
      using caller_step_ok [OF pc c use(1) enabled good U use(2)] by blast
    have wired: "wired mt' c bs" if "call_pc (ws ! i) = To_Log bs \<or> call_pc (ws ! i) = To_Net bs" for bs
      using pc that c wired_stays [OF step(3)] by (auto simp: pc_ok_def)
    have pcs: "pc_ok mt' (ws[i := w'] ! j) \<and> (\<exists>ds. progs ! j = ds @ todo (ws[i := w'] ! j))" if "j < length progs" for j
    proof (cases "j = i")
      case True
      have "\<exists>ds. progs ! i = ds @ todo w'" using stepped_todo [OF step(7) c] ds by (auto simp: c)
      then show ?thesis using True i step(2) by simp
    next
      case False
      then show ?thesis using inv that pc_ok_stays [OF step(3)] by auto
    qed
    have logs: "with_local_log mt0 \<longrightarrow> (\<exists>ts. queue_ok progs mt' (content (log_queue mt0)) (content (log_queue mt')) (logged progs (ws[i := w'])) ts)"
    proof
      assume log: "with_local_log mt0"
      then obtain ts where q: "queue_ok progs mt (content (log_queue mt0)) (content (log_queue mt)) (logged progs ws) ts"
        using inv by blast
      have "with_local_log mt" using log inv by blast
      then show "\<exists>ts. queue_ok progs mt' (content (log_queue mt0)) (content (log_queue mt')) (logged progs (ws[i := w'])) ts"
        using log_step [OF queue_ok_stays [OF q step(3)] i len ds c step(7)] wired by blast
    qed
    have nets: "with_network mt0 \<longrightarrow> (\<exists>ts. queue_ok progs mt' (content (net_queue mt0)) (content (net_queue mt')) (calls_done progs (ws[i := w'])) ts)"
    proof
      assume net: "with_network mt0"
      then obtain ts where q: "queue_ok progs mt (content (net_queue mt0)) (content (net_queue mt)) (calls_done progs ws) ts"
        using inv by blast
      have "with_network mt" using net inv by blast
      then show "\<exists>ts. queue_ok progs mt' (content (net_queue mt0)) (content (net_queue mt')) (calls_done progs (ws[i := w'])) ts"
        using net_step [OF queue_ok_stays [OF q step(3)] i len ds c step(7)] wired by blast
    qed
    have "callers_step Q i s = Inr (ws[i := w'], mt')" using i step(1) by (simp add: callers_step_def s)
    moreover have "callers_ok content progs U mt0 (ws[i := w'], mt')"
      unfolding callers_ok_def prod.case length_list_update
      using inv pcs logs nets step(4-6) ids_le_trans [OF _ step(3), of mt0] by simp
    ultimately show ?thesis by blast
  qed
qed

lemma callers_run_ok:
  assumes "callers_ok content progs U mt0 s" and "programs_ok d F U progs" and "is_enabled mt0"
  shows "\<exists>s'. foldE (callers_step Q) evs s = Inr s' \<and> callers_ok content progs U mt0 s'"
  using assms(1)
proof (induction evs arbitrary: s)
  case Nil
  then show ?case by simp
next
  case (Cons i evs)
  then obtain s1 where "callers_step Q i s = Inr s1" "callers_ok content progs U mt0 s1"
    using callers_step_ok [OF _ assms(2,3)] by blast
  with Cons.IH [of s1] show ?case by simp
qed

end

section \<open>Every call returns\<close>

text \<open>How many steps a thread has left at most.\<close>

definition rank :: "caller \<Rightarrow> nat" where
  "rank w = 5 * length (todo w) -
     (case call_pc w of At_Start \<Rightarrow> 0 | Has_Type mid \<Rightarrow> 1 | Has_Entry mid \<Rightarrow> 2 | To_Log bs \<Rightarrow> 3 | To_Net bs \<Rightarrow> 4)"

lemma rank_step: "caller_step Q (w, mt) = Inr (w', mt') \<Longrightarrow> pc_ok mt w \<Longrightarrow> todo w \<noteq> [] \<Longrightarrow> rank w' < rank w"
  by (auto simp: caller_step_def pc_ok_def rank_def bindE_eq_Inr neq_Nil_conv
      split: list.splits call_pc.splits if_splits prod.splits api_call.splits)

lemma rank_0: "pc_ok mt w \<Longrightarrow> rank w = 0 \<Longrightarrow> todo w = []"
  by (cases "todo w") (auto simp: rank_def split: call_pc.splits)

lemma rank_others:
  assumes "callers_step Q i (ws, mt) = Inr (ws', mt')" and "j < length ws" and "pc_ok mt (ws ! j)"
  shows "rank (ws' ! j) + of_bool (i = j) \<le> max (rank (ws ! j)) (of_bool (i = j))" and "length ws' = length ws"
proof -
  consider "i < length ws" "todo (ws ! i) \<noteq> []" | "ws' = ws" "i < length ws \<longrightarrow> todo (ws ! i) = []"
    using assms(1) by (cases "i < length ws"; cases "todo (ws ! i)") (auto simp: callers_step_def caller_step_def)
  then have "rank (ws' ! j) + of_bool (i = j) \<le> max (rank (ws ! j)) (of_bool (i = j)) \<and> length ws' = length ws"
  proof cases
    case 1
    then obtain w' where "caller_step Q (ws ! i, mt) = Inr (w', mt')" "ws' = ws[i := w']"
      using assms(1) by (auto simp: callers_step_def bindE_eq_Inr)
    then show ?thesis
      using rank_step [of Q "ws ! i" mt w' mt'] 1 assms(2,3) by (auto simp: nth_list_update)
  next
    case 2
    moreover have "rank (ws ! j) = 0" if "i = j" using 2 that assms(2,3) by (simp add: pc_ok_def rank_def)
    ultimately show ?thesis by (auto simp: of_bool_def)
  qed
  then show "rank (ws' ! j) + of_bool (i = j) \<le> max (rank (ws ! j)) (of_bool (i = j))" "length ws' = length ws"
    by simp_all
qed

context conc_queue
begin

lemma callers_return:
  assumes "callers_ok content progs U mt0 s" and "programs_ok d F U progs" and "is_enabled mt0"
    and "foldE (callers_step Q) evs s = Inr s'" and "j < length progs" and "rank (fst s ! j) \<le> count_list evs j"
  shows "rank (fst s' ! j) = 0"
  using assms(1,4,6)
proof (induction evs arbitrary: s)
  case Nil
  then show ?case by simp
next
  case (Cons i evs)
  obtain s1 where s1: "callers_step Q i s = Inr s1" "foldE (callers_step Q) evs s1 = Inr s'" "callers_ok content progs U mt0 s1"
    using callers_step_ok [OF Cons.prems(1) assms(2,3), of i] Cons.prems(2) by auto
  have "j < length (fst s)" "pc_ok (snd s) (fst s ! j)"
    using Cons.prems(1) assms(5) by (auto simp: callers_ok_def split: prod.splits)
  then have "rank (fst s1 ! j) + of_bool (i = j) \<le> max (rank (fst s ! j)) (of_bool (i = j))"
    using rank_others(1) [of Q i "fst s" "snd s" "fst s1" "snd s1" j] s1(1) by simp
  then have "rank (fst s1 ! j) \<le> count_list evs j"
    using Cons.prems(3) by (cases "i = j") auto
  then show ?case using Cons.IH [OF s1(3,2)] by blast
qed

end

end
