(* ===== verification/Callers_Claims.thy ===== *)
theory Callers_Claims
  imports Callers_Run Network Samples
begin

text \<open>
  Properties of an object that is used by many threads.
\<close>

section \<open>Where the threads start\<close>

lemma start_good:
  assumes track: "ids_track v mt" and U: "set (types v) \<subseteq> U" "finite U" "card U \<le> 65536"
  shows "ids_good U mt"
proof -
  let ?g = "get_all (types v) (new_id_gen :: 16 word id_gen)"
  have dom: "dom (ids ?g) = set (types v)" by (simp add: dom_get_all new_id_gen_def)
  have "card (set (types v)) \<le> 65536" using card_mono [OF U(2,1)] U(3) by simp
  then have "id_gen_fresh ?g"
    using id_gen_ok_new id_gen_fresh_new by (intro get_all_fresh) (simp_all add: new_id_gen_def)
  moreover have "id_gen_ok ?g" by (rule get_all_ok [OF id_gen_ok_new])
  ultimately show ?thesis using track dom U(1) by (simp add: ids_good_def ids_track_def)
qed

lemma start_numbers:
  assumes track: "ids_track v mt" and used: "(n, a) \<in> set (v_used v)"
  shows "numbered mt (n, a)" and "type_of mt n = type_id v n" and "inst_of mt n a = inst_id v n a"
proof -
  have n: "n \<in> set (types v)" using used by (force simp: types_def)
  have "ids (msg_id mt) n = Some (type_id v n)"
    using track get_all_known [OF n] by (simp add: ids_track_def type_id_def)
  moreover have "multi_id mt (type_id v n) = Some (get_all (instances v n) new_id_gen)"
    using track n by (simp add: ids_track_def)
  moreover have "ids (get_all (instances v n) (new_id_gen :: 8 word id_gen)) a = Some (inst_id v n a)"
    using get_all_known [of a "instances v n"] used by (simp add: inst_id_def instances_used)
  ultimately show "numbered mt (n, a)" "type_of mt n = type_id v n" "inst_of mt n a = inst_id v n a"
    by (auto simp: numbered_def type_of_def inst_of_def)
qed






section \<open>Examples\<close>

text \<open>Two threads that store records of the format of Samples, one of them also a string.\<close>

definition formats_view :: view where
  "formats_view = (empty_view 5)\<lparr>v_formats := [''T'' \<mapsto> read_back ''T'' [] sample_field]\<rparr>"

definition sample_threads :: "api_call list list" where
  "sample_threads = [[Store_Data (replicate 8 0 @ [7]) ''T'' ''x'' 6, Store_Message ''hi'' Info 9],
     [Store_Data (replicate 8 0 @ [8]) ''T'' ''y'' 7]]"




lemma sample_usable: "usable 0 (v_formats formats_view) (Store_Data (replicate 8 0 @ [w]) ''T'' ann t)"
proof -
  let ?f = "sample_field\<lparr>field_name := field_name sample_field @ [NUL]\<rparr>"
  have fields: "fmt_fields (read_back ''T'' [] sample_field) = [?f]" by (simp add: read_back_def)
  have f: "field_type ?f = UINT8" "array_size ?f = 1" "\<not> is_padding ?f"
    by (simp_all add: sample_field_def is_padding_def starts_with_def NUL_def)
  show ?thesis
    by (rule use_data [where fmt = "read_back ''T'' [] sample_field" and vs = "[double_of_int (uint w)]"
          and cs = "[(''/'' @ field_name ?f, [])]"])
      (simp_all only: fields one_byte_conf [OF f] one_byte_channel [OF f], simp_all add: formats_view_def)
qed

lemma sample_threads_ok: "programs_ok 0 (v_formats formats_view) {''T''} sample_threads"
  using sample_usable use_message by (simp add: programs_ok_def sample_threads_def)

text \<open>The object after the session of Samples: the type has been stored.\<close>

definition stored_mt :: "byte list list mu_telemetry" where
  "stored_mt = (case foldE (api_run list_queue) sample_calls started_mt of Inr mt \<Rightarrow> mt | Inl _ \<Rightarrow> started_mt)"

lemma stored_mt_track: "ids_track sample_view stored_mt" "is_enabled stored_mt"
proof -
  have on: "is_enabled started_mt" using started_mt_init(2) by (simp add: is_enabled_def)
  note start = init_starts(3,4) [OF fifo.conc_queue_axioms refl started_mt_init(1) on]
  obtain mt bs where mt: "foldE (api_run list_queue) sample_calls started_mt = Inr mt" "queued (\<lambda>q. q) bs started_mt mt" "ids_track sample_view mt"
    using fifo.session_refined [OF sample_session ids_track_empty [OF start] on] by blast
  then show "ids_track sample_view stored_mt" "is_enabled stored_mt"
    using queued_enabled [OF mt(2)] on by (simp_all add: stored_mt_def)
qed

section \<open>Properties\<close>







section \<open>The unguarded access\<close>

text \<open>
  \<open>get_multi_id\<close> reads \<open>multi_id_[msg_id]\<close> behind the mutex that guards the map. It races with a thread that is about to
  insert an entry of another type.
\<close>

definition multi_id_race :: "caller list \<Rightarrow> 'q mu_telemetry \<Rightarrow> bool" where
  "multi_id_race ws mt \<longleftrightarrow>
     (\<exists>i < length ws. \<exists>j < length ws. i \<noteq> j \<and> todo (ws ! i) \<noteq> [] \<and> todo (ws ! j) \<noteq> [] \<and>
        (\<exists>k. call_pc (ws ! i) = Has_Type k \<and> multi_id mt k = None) \<and> (\<exists>l. call_pc (ws ! j) = Has_Entry l))"


text \<open>C24. Once every type the threads use has been stored, no run of them has that race.\<close>

theorem known_types_never_race:
  assumes Q: "conc_queue Q content" and track: "ids_track v mt" and on: "is_enabled mt"
    and progs: "programs_ok d F (set (types v)) progs"
  shows "\<exists>ws mt'. foldE (callers_step Q) evs (new_callers progs, mt) = Inr (ws, mt') \<and> \<not> multi_id_race ws mt'"
proof -
  have U: "finite (set (types v))" "card (set (types v)) \<le> 65536" using progs by (simp_all add: programs_ok_def)
  obtain ws mt' where run: "foldE (callers_step Q) evs (new_callers progs, mt) = Inr (ws, mt')"
    "callers_ok content progs (set (types v)) mt (ws, mt')"
    using conc_queue.callers_run_ok [OF Q callers_start [OF start_good [OF track order_refl U]] progs on, of evs] by auto
  have known: "multi_id mt' k \<noteq> None" if i: "i < length ws" "todo (ws ! i) \<noteq> []" "call_pc (ws ! i) = Has_Type k" for i k
  proof -
    have len: "length ws = length progs" and pc: "pc_ok mt' (ws ! i)" and le: "ids_le mt mt'"
      and suffix: "\<exists>ds. progs ! i = ds @ todo (ws ! i)"
      using run(2) i(1) by (auto simp: callers_ok_def)
    obtain c cs where c: "todo (ws ! i) = c # cs" using i(2) by (auto simp: neq_Nil_conv)
    then obtain dt n a t where st: "c = Store_Data dt n a t" and id: "ids (msg_id mt') n = Some k"
      using pc i(3) by (cases c) (auto simp: pc_ok_def)
    have "c \<in> set (progs ! i)" using suffix c by auto
    then have "c \<in> set (concat progs)" using i(1) len by auto
    then have "fst ` set (used_of c) \<subseteq> set (types v)" using progs unfolding programs_ok_def by blast
    then have n: "n \<in> set (types v)" by (simp add: st)
    then obtain b where used: "(n, b) \<in> set (v_used v)" by (auto simp: types_def)
    note num = start_numbers [OF track used]
    have "type_of mt' n = k" using id by (simp add: type_of_def)
    then show ?thesis using numbers_stay [OF le num(1)] by (auto simp: numbered_def)
  qed
  then have "\<not> multi_id_race ws mt'" by (auto simp: multi_id_race_def)
  with run(1) show ?thesis by blast
qed

theorem known_types_never_race_witness:
  "\<exists>ws mt'. foldE (callers_step list_queue) [0, 1, 0, 1] (new_callers sample_threads, stored_mt) = Inr (ws, mt') \<and>
    \<not> multi_id_race ws mt'"
proof -
  have types: "types sample_view = [''T'']" by (simp add: types_def sample_view_def)
  have "v_formats formats_view = v_formats sample_view" by (simp add: formats_view_def sample_view_def)
  then have progs: "programs_ok 0 (v_formats sample_view) (set (types sample_view)) sample_threads"
    using sample_threads_ok by (simp add: types)
  show ?thesis by (rule known_types_never_race [OF fifo.conc_queue_axioms stored_mt_track(1,2) progs])
qed

end
