(* ===== verification/Test_Types.thy ===== *)
theory Test_Types
  imports Session
begin

text \<open>
  The data types of the test program, \<open>tests/test_types.h\<close>, the serializers of \<open>tests/mutelemetry_test.cc\<close> and the
  texts the types are declared with: what the formats declare is what the serializers write. The structs are
  packed; \<open>unsigned int\<close> and \<open>float\<close> have 32 bits, a C array is a list of its length.
\<close>

section \<open>Types\<close>

record data_type0 =
  d0_timestamp :: "64 word"
  d0_a :: double
  d0_b :: "32 word"
  d0_c :: "16 word"

record data_type1 =
  d1_a :: "32 word list"
  d1_b :: "32 word list"

record data_type2 =
  d2_a :: "double list"
  d2_b :: "string list"
  d2_c :: bool

record data_type3 =
  d3_a :: "data_type0 list"
  d3_b :: data_type1
  d3_c :: data_type2

type_synonym data_type4 = "data_type3 list"

text \<open>The initial values: \<open>1111.2222\<close>, \<open>1.02f\<close> and so on as the bits of the literals.\<close>

definition new_data_type0 :: data_type0 where
  "new_data_type0 = \<lparr>d0_timestamp = 0, d0_a = 0x40915CE3886594AF, d0_b = 3, d0_c = - 4\<rparr>"

definition new_data_type1 :: data_type1 where
  "new_data_type1 = \<lparr>d1_a = [0x3F828F5C, 0xC001EB85, 0x40428F5C], d1_b = [1, - 2, 3, - 4]\<rparr>"

definition new_data_type2 :: data_type2 where
  "new_data_type2 = \<lparr>d2_a = [0x40A15CAAA64C2F83, 0xC0B15C8E353F7CEE, 0x40BA0AC71758E219],
     d2_b = [''abc'', ''defg'', ''hijkl'', ''m''], d2_c = True\<rparr>"

definition new_data_type3 :: data_type3 where
  "new_data_type3 = \<lparr>d3_a = replicate 3 new_data_type0, d3_b = new_data_type1, d3_c = new_data_type2\<rparr>"

definition new_data_type4 :: data_type4 where
  "new_data_type4 = replicate 3 new_data_type3"

definition fields0 :: string where "fields0 = ''double a;uint32_t b;int16_t c;''"
definition fields1 :: string where "fields1 = ''float[3] a;int32_t[4] b;''"
definition fields2 :: string where "fields2 = ''double[3] a;char[3] b1;char[4] b2;char[5] b3;char[1] b4;bool c;''"
definition fields3 :: string where "fields3 = ''DataType0[3] a;DataType1 b;DataType2 c;''"

section \<open>Serializers\<close>

definition serialize0 :: "data_type0 \<Rightarrow> byte list res" where
  "serialize0 d =
     (let serialized = replicate 22 0; len = 0 in
      bindE (memcpy_at serialized 0 (enc_le 8 (d0_timestamp d))) (\<lambda>serialized. let len = len + 8 in
      bindE (memcpy_at serialized len (enc_le 8 (d0_a d))) (\<lambda>serialized. let len = len + 8 in
      bindE (memcpy_at serialized len (enc_le 4 (d0_b d))) (\<lambda>serialized. let len = len + 4 in
      bindE (memcpy_at serialized len (enc_le 2 (d0_c d))) (\<lambda>serialized.
      bindE (assertE (length serialized = 2 + len)) (\<lambda>_. Inr serialized))))))"

text \<open>\<open>DataType1Serializable::serialize\<close>; an array is copied as the bytes of its elements.\<close>

definition serialize1 :: "data_type1 \<Rightarrow> byte list res" where
  "serialize1 d =
     (let serialized = replicate (8 + 28) 0; len = 8 in
      bindE (memcpy_at serialized 0 (enc_le 8 (0 :: 64 word))) (\<lambda>serialized.
      bindE (memcpy_at serialized len (concat (map (enc_le 4) (d1_a d)))) (\<lambda>serialized. let len = len + 12 in
      bindE (memcpy_at serialized len (concat (map (enc_le 4) (d1_b d)))) (\<lambda>serialized.
      bindE (assertE (length serialized = 16 + len)) (\<lambda>_. Inr serialized)))))"

text \<open>The loops over the two vectors; the state is the buffer, \<open>len\<close> and, in the second, \<open>new_size\<close>.\<close>

definition copy_double :: "double \<Rightarrow> byte list \<times> nat \<Rightarrow> (byte list \<times> nat) res" where
  "copy_double v = (\<lambda>(serialized, len).
     bindE (memcpy_at serialized len (enc_le 8 v)) (\<lambda>serialized. Inr (serialized, len + 8)))"

definition copy_string :: "string \<Rightarrow> byte list \<times> nat \<times> nat \<Rightarrow> (byte list \<times> nat \<times> nat) res" where
  "copy_string v = (\<lambda>(serialized, len, new_size).
     let v_size = length v; new_size = new_size + v_size;
         serialized = take new_size serialized @ replicate (new_size - length serialized) 0 in
     bindE (memcpy_at serialized len (bytes_of v)) (\<lambda>serialized. Inr (serialized, len + v_size, new_size)))"

definition DataType2_serialize :: "data_type2 \<Rightarrow> byte list res" where
  "DataType2_serialize d2 =
     (let new_size = 8 + length (d2_a d2) * 8; serialized = replicate new_size 0 in
      bindE (memcpy_at serialized 0 (enc_le 8 (0 :: 64 word))) (\<lambda>serialized.
      bindE (foldE copy_double (d2_a d2) (serialized, 8)) (\<lambda>(serialized, len).
      bindE (foldE copy_string (d2_b d2) (serialized, len, new_size)) (\<lambda>(serialized, len, new_size).
      Inr (serialized @ [of_bool (d2_c d2)])))))"

definition append_serialized :: "('a \<Rightarrow> byte list res) \<Rightarrow> 'a \<Rightarrow> byte list \<Rightarrow> byte list res" where
  "append_serialized ser v serialized = bindE (ser v) (\<lambda>part. Inr (serialized @ part))"

definition DataType3_serialize :: "data_type3 \<Rightarrow> byte list res" where
  "DataType3_serialize d3 =
     bindE (memcpy_at (replicate 8 0) 0 (enc_le 8 (0 :: 64 word))) (\<lambda>serialized.
     bindE (foldE (append_serialized serialize0) (d3_a d3) serialized) (\<lambda>serialized.
     let d1 = new_data_type1\<lparr>d1_a := d1_a (d3_b d3), d1_b := d1_b (d3_b d3)\<rparr> in
     bindE (append_serialized serialize1 d1 serialized) (\<lambda>serialized.
     append_serialized DataType2_serialize (d3_c d3) serialized)))"

definition DataType4_serialize :: "data_type4 \<Rightarrow> byte list res" where
  "DataType4_serialize d4 =
     bindE (memcpy_at (replicate 8 0) 0 (enc_le 8 (0 :: 64 word))) (\<lambda>serialized.
     foldE (append_serialized DataType3_serialize) d4 serialized)"

section \<open>What the serializers write\<close>

definition bytes0 :: "data_type0 \<Rightarrow> byte list" where
  "bytes0 d = enc_le 8 (d0_a d) @ enc_le 4 (d0_b d) @ enc_le 2 (d0_c d)"

definition bytes1 :: "data_type1 \<Rightarrow> byte list" where
  "bytes1 d = concat (map (enc_le 4) (d1_a d)) @ concat (map (enc_le 4) (d1_b d))"

definition bytes2 :: "data_type2 \<Rightarrow> byte list" where
  "bytes2 d = concat (map (enc_le 8) (d2_a d)) @ concat (map bytes_of (d2_b d)) @ [of_bool (d2_c d)]"

definition bytes3 :: "data_type3 \<Rightarrow> byte list" where
  "bytes3 d = concat (map (\<lambda>v. enc_le 8 (d0_timestamp v) @ bytes0 v) (d3_a d)) @
     enc_le 8 (0 :: 64 word) @ bytes1 (d3_b d) @ enc_le 8 (0 :: 64 word) @ bytes2 (d3_c d)"

definition bytes4 :: "data_type4 \<Rightarrow> byte list" where
  "bytes4 d = concat (map (\<lambda>v. enc_le 8 (0 :: 64 word) @ bytes3 v) d)"

lemma length_concat_const: "(\<And>x. x \<in> set xs \<Longrightarrow> length (f x) = k) \<Longrightarrow> length (concat (map f xs)) = length xs * k"
  by (induction xs) simp_all

lemma serialize0_eq: "serialize0 d = Inr (enc_le 8 (d0_timestamp d) @ bytes0 d)"
  by (simp add: serialize0_def memcpy_at_def bytes0_def Let_def)

text \<open>The sizes of the C arrays.\<close>

definition wf1 :: "data_type1 \<Rightarrow> bool" where
  "wf1 d \<longleftrightarrow> length (d1_a d) = 3 \<and> length (d1_b d) = 4"

definition wf3 :: "data_type3 \<Rightarrow> bool" where
  "wf3 d \<longleftrightarrow> length (d3_a d) = 3 \<and> wf1 (d3_b d)"

lemma serialize1_eq: "wf1 d \<Longrightarrow> serialize1 d = Inr (enc_le 8 (0 :: 64 word) @ bytes1 d)"
  by (simp add: serialize1_def memcpy_at_def bytes1_def Let_def wf1_def length_concat_const [where k = 4])

lemma copy_doubles:
  "foldE copy_double vs (pre @ replicate (length vs * 8 + n) 0, length pre) =
     Inr (pre @ concat (map (enc_le 8) vs) @ replicate n 0, length pre + length vs * 8)"
proof (induction vs arbitrary: pre)
  case Nil
  then show ?case by simp
next
  case (Cons v vs)
  have "copy_double v (pre @ replicate (length (v # vs) * 8 + n) 0, length pre) =
      Inr ((pre @ enc_le 8 v) @ replicate (length vs * 8 + n) 0, length (pre @ enc_le 8 v))"
    by (simp add: copy_double_def memcpy_at_def)
  with Cons.IH [of "pre @ enc_le 8 v"] show ?case by simp
qed

lemma copy_strings:
  "foldE copy_string vs (pre, length pre, length pre) =
     Inr (pre @ concat (map bytes_of vs), length pre + length (concat vs), length pre + length (concat vs))"
proof (induction vs arbitrary: pre)
  case Nil
  then show ?case by simp
next
  case (Cons v vs)
  have "copy_string v (pre, length pre, length pre) =
      Inr (pre @ bytes_of v, length (pre @ bytes_of v), length (pre @ bytes_of v))"
    by (simp add: copy_string_def memcpy_at_def Let_def)
  with Cons.IH [of "pre @ bytes_of v"] show ?case by (simp add: add.assoc)
qed

lemma serialize2_eq: "DataType2_serialize d = Inr (enc_le 8 (0 :: 64 word) @ bytes2 d)"
proof -
  let ?pre = "enc_le 8 (0 :: 64 word)"
  have "memcpy_at (replicate (8 + length (d2_a d) * 8) 0) 0 ?pre = Inr (?pre @ replicate (length (d2_a d) * 8 + 0) 0)"
    by (simp add: memcpy_at_def)
  moreover have "foldE copy_double (d2_a d) (?pre @ replicate (length (d2_a d) * 8 + 0) 0, 8) =
      Inr (?pre @ concat (map (enc_le 8) (d2_a d)), 8 + length (d2_a d) * 8)"
    using copy_doubles [of "d2_a d" ?pre 0] by simp
  moreover have "length (?pre @ concat (map (enc_le 8) (d2_a d))) = 8 + length (d2_a d) * 8"
    by (simp add: length_concat_const [where k = 8])
  then have "foldE copy_string (d2_b d) (?pre @ concat (map (enc_le 8) (d2_a d)), 8 + length (d2_a d) * 8, 8 + length (d2_a d) * 8) =
      Inr ((?pre @ concat (map (enc_le 8) (d2_a d))) @ concat (map bytes_of (d2_b d)),
           8 + length (d2_a d) * 8 + length (concat (d2_b d)), 8 + length (d2_a d) * 8 + length (concat (d2_b d)))"
    using copy_strings [of "d2_b d" "?pre @ concat (map (enc_le 8) (d2_a d))"] by metis
  ultimately show ?thesis by (simp add: DataType2_serialize_def bytes2_def Let_def)
qed

lemma append_all:
  assumes "\<And>v. v \<in> set vs \<Longrightarrow> ser v = Inr (f v)"
  shows "foldE (append_serialized ser) vs pre = Inr (pre @ concat (map f vs))"
  using assms by (induction vs arbitrary: pre) (simp_all add: append_serialized_def)

lemma serialize3_eq:
  assumes "wf3 d"
  shows "DataType3_serialize d = Inr (enc_le 8 (0 :: 64 word) @ bytes3 d)"
proof -
  have "memcpy_at (replicate 8 0) 0 (enc_le 8 (0 :: 64 word)) = Inr (enc_le 8 (0 :: 64 word))"
    by (simp add: memcpy_at_def)
  moreover have "foldE (append_serialized serialize0) (d3_a d) pre =
      Inr (pre @ concat (map (\<lambda>v. enc_le 8 (d0_timestamp v) @ bytes0 v) (d3_a d)))" for pre
    by (rule append_all) (rule serialize0_eq)
  moreover have d1: "new_data_type1\<lparr>d1_a := d1_a (d3_b d), d1_b := d1_b (d3_b d)\<rparr> = d3_b d"
    by (cases "d3_b d") (simp add: new_data_type1_def)
  have "append_serialized serialize1 (new_data_type1\<lparr>d1_a := d1_a (d3_b d), d1_b := d1_b (d3_b d)\<rparr>) pre =
      Inr (pre @ enc_le 8 (0 :: 64 word) @ bytes1 (d3_b d))" for pre
    unfolding d1 using serialize1_eq [of "d3_b d"] assms by (simp add: append_serialized_def wf3_def)
  moreover have "append_serialized DataType2_serialize (d3_c d) pre =
      Inr (pre @ enc_le 8 (0 :: 64 word) @ bytes2 (d3_c d))" for pre
    by (simp add: append_serialized_def serialize2_eq)
  ultimately show ?thesis by (simp add: DataType3_serialize_def Let_def bytes3_def)
qed

lemma serialize4_eq:
  assumes "\<forall>v \<in> set d. wf3 v"
  shows "DataType4_serialize d = Inr (enc_le 8 (0 :: 64 word) @ bytes4 d)"
proof -
  have "foldE (append_serialized DataType3_serialize) d pre =
      Inr (pre @ concat (map (\<lambda>v. enc_le 8 (0 :: 64 word) @ bytes3 v) d))" for pre
    by (rule append_all) (use assms serialize3_eq in blast)
  then show ?thesis by (simp add: DataType4_serialize_def memcpy_at_def bytes4_def)
qed

end
