(* ===== verification/Test_Formats.thy ===== *)
theory Test_Formats
  imports Test_Types
begin

text \<open>
  The formats of the test program and their payloads: each text declares its fields, each serializer
  writes what they ask for, and the values are those of the struct, member by member.
\<close>

section \<open>Declared fields\<close>

definition scalar :: "format_type \<Rightarrow> string \<Rightarrow> int \<Rightarrow> field" where
  "scalar t name n = \<lparr>field_type = t, field_name = name, other_type_id = [], array_size = n\<rparr>"

definition nested :: "string \<Rightarrow> string \<Rightarrow> int \<Rightarrow> field" where
  "nested other name n = \<lparr>field_type = OTHER, field_name = name, other_type_id = other, array_size = n\<rparr>"

text \<open>Without and with the last field.\<close>

definition init0 :: "field list" where "init0 = [scalar DOUBLE ''a'' 1, scalar UINT32 ''b'' 1]"
definition last0 :: field where "last0 = scalar INT16 ''c'' 1"
definition init1 :: "field list" where "init1 = [scalar FLOAT ''a'' 3]"
definition last1 :: field where "last1 = scalar INT32 ''b'' 4"
definition init2 :: "field list" where
  "init2 = [scalar DOUBLE ''a'' 3, scalar CHAR_T ''b1'' 3, scalar CHAR_T ''b2'' 4, scalar CHAR_T ''b3'' 5, scalar CHAR_T ''b4'' 1]"
definition last2 :: field where "last2 = scalar BOOL ''c'' 1"
definition init3 :: "field list" where "init3 = [nested ''DataType0'' ''a'' 3, nested ''DataType1'' ''b'' 1]"
definition last3 :: field where "last3 = nested ''DataType2'' ''c'' 1"
definition last4 :: field where "last4 = nested ''DataType3'' ''array'' 3"

lemmas test_fields_defs = init0_def last0_def init1_def last1_def init2_def last2_def init3_def last3_def last4_def
  scalar_def nested_def

lemma test_fields_ok: "\<forall>f \<in> set (init0 @ init1 @ init2 @ init3 @ [last0, last1, last2, last3, last4]). field_ok f"
  by (simp add: test_fields_defs field_ok_def plain_def NUL_def builtin_type_def builtin_types_def starts_with_def)

lemma test_digits: "digit_char 3 = CHR ''3''" "digit_char 4 = CHR ''4''" "digit_char 5 = CHR ''5''"
  by code_simp+

lemma test_texts:
  "declares fields0 (init0 @ [last0])" "declares fields1 (init1 @ [last1])" "declares fields2 (init2 @ [last2])"
  "declares fields3 (init3 @ [last3])" "declares ''DataType3[3] array;'' ([] @ [last4])"
proof -
  note defs = sections_text_def section_of_def test_fields_defs field_text_def array_text_def dec_nat_def digits_in.simps
    digit_chars test_digits
  note ok = test_fields_ok [unfolded test_fields_defs, simplified]
  show "declares fields0 (init0 @ [last0])" unfolding declares_def fields0_def
    by (intro exI [of _ "[''double a'', ''uint32_t b'', ''int16_t c'']"]) (use ok in \<open>simp add: defs\<close>)
  show "declares fields1 (init1 @ [last1])" unfolding declares_def fields1_def
    by (intro exI [of _ "[''float[3] a'', ''int32_t[4] b'']"]) (use ok in \<open>simp add: defs\<close>)
  show "declares fields2 (init2 @ [last2])" unfolding declares_def fields2_def
    by (intro exI [of _ "[''double[3] a'', ''char[3] b1'', ''char[4] b2'', ''char[5] b3'', ''char[1] b4'', ''bool c'']"])
      (use ok in \<open>simp add: defs\<close>)
  show "declares fields3 (init3 @ [last3])" unfolding declares_def fields3_def
    by (intro exI [of _ "[''DataType0[3] a'', ''DataType1 b'', ''DataType2 c'']"]) (use ok in \<open>simp add: defs\<close>)
  show "declares ''DataType3[3] array;'' ([] @ [last4])" unfolding declares_def
    by (intro exI [of _ "[''DataType3[3] array'']"]) (use ok in \<open>simp add: defs\<close>)
qed

section \<open>Payloads\<close>

text \<open>Arrays of scalars and of nested records.\<close>

lemma conf_scalars:
  assumes "field_type f \<noteq> OTHER"
    and "\<forall>x \<in> set xs. length (enc x) = scalar_size (field_type f) \<and> read_scalar (field_type f) (enc x) 0 = Inr (val x)"
  shows "conf_elems d F f (length xs) (concat (map enc xs)) (map val xs)"
  using assms(2) by (induction xs) (simp_all add: conf_none conf_scalar [OF assms(1)])

lemma conf_scalar_field:
  assumes "conf_fields d F fs bs vs" and "field_type f \<noteq> OTHER" and "\<not> is_padding f" and "array_size f = int (length xs)"
    and "\<forall>x \<in> set xs. length (enc x) = scalar_size (field_type f) \<and> read_scalar (field_type f) (enc x) 0 = Inr (val x)"
  shows "conf_fields d F (f # fs) (concat (map enc xs) @ bs) (map val xs @ vs)"
  using conf_field [OF assms(3) _ assms(1)] conf_scalars [OF assms(2,5)] assms(4) by simp

lemma conf_records:
  assumes "field_type f = OTHER" and "F (other_type_id f) = Some g"
    and "\<forall>x \<in> set xs. length (stamp x) = 8 \<and> conf_fields d F (fmt_fields g) (enc x) (val x)"
  shows "conf_elems (Suc d) F f (length xs) (concat (map (\<lambda>x. stamp x @ enc x) xs)) (concat (map val xs))"
  using assms(3)
proof (induction xs)
  case (Cons x xs)
  then have "conf_elems (Suc d) F f (Suc (length xs)) (stamp x @ enc x @ concat (map (\<lambda>x. stamp x @ enc x) xs))
      (val x @ concat (map val xs))"
    by (intro conf_nested [where F = F, OF assms(1,2)]) simp_all
  then show ?case by simp
qed (simp add: conf_none)

lemma conf_record_field:
  assumes "conf_fields (Suc d) F fs bs vs" and "field_type f = OTHER" and "\<not> is_padding f" and "array_size f = int (length xs)"
    and "F (other_type_id f) = Some g" and "\<forall>x \<in> set xs. length (stamp x) = 8 \<and> conf_fields d F (fmt_fields g) (enc x) (val x)"
  shows "conf_fields (Suc d) F (f # fs) (concat (map (\<lambda>x. stamp x @ enc x) xs) @ bs) (concat (map val xs) @ vs)"
  using conf_field [OF assms(3) _ assms(1)] conf_records [where F = F and d = d, OF assms(2,5,6)] assms(4) by simp

text \<open>The values of each type.\<close>

definition values0 :: "data_type0 \<Rightarrow> double list" where
  "values0 d = [d0_a d, double_of_int (uint (d0_b d)), double_of_int (sint (d0_c d))]"

definition values1 :: "data_type1 \<Rightarrow> double list" where
  "values1 d = map double_of_float (d1_a d) @ map (\<lambda>w. double_of_int (sint w)) (d1_b d)"

definition values2 :: "data_type2 \<Rightarrow> double list" where
  "values2 d = d2_a d @ map (\<lambda>c. double_of_int (sint (byte_of_char c))) (concat (d2_b d)) @ [double_of_int (of_bool (d2_c d))]"

definition values3 :: "data_type3 \<Rightarrow> double list" where
  "values3 d = concat (map values0 (d3_a d)) @ values1 (d3_b d) @ values2 (d3_c d)"

definition values4 :: "data_type4 \<Rightarrow> double list" where
  "values4 d = concat (map values3 d)"

definition wf2 :: "data_type2 \<Rightarrow> bool" where
  "wf2 d \<longleftrightarrow> length (d2_a d) = 3 \<and> map length (d2_b d) = [3, 4, 5, 1]"

lemma rd_enc:
  "rd_u16 (enc_le 2 h) 0 = Inr (h :: 16 word)" "rd_u32 (enc_le 4 w) 0 = Inr (w :: 32 word)"
  "rd_u64 (enc_le 8 v) 0 = Inr (v :: 64 word)" "rd_u8 [b] 0 = Inr b" "rd_le (Suc 0) [b] 0 = Inr (b :: byte)"
  using rd_le_at(2) [of 0 "[]" h "[]"] rd_le_at(3) [of 0 "[]" w "[]"] rd_le_at(4) [of 0 "[]" v "[]"]
  by (simp_all add: rd_le_def rd_def dec_le_def)

lemma not_padding: "is_padding f = False" if "field_name f = c # s" "c \<noteq> CHR ''_''"
  using that by (simp add: is_padding_def starts_with_def)

lemma conf0: "conf_fields d F (fmt_fields (read_back n init0 last0)) (bytes0 x) (values0 x)"
proof -
  let ?last = "last0\<lparr>field_name := field_name last0 @ [NUL]\<rparr>"
  note conf = conf_scalar_field [OF conf_scalar_field [OF conf_scalar_field [OF conf_nil]],
      of ?last "[d0_c x]" "enc_le 2" "\<lambda>w. double_of_int (sint w)" "init0 ! 1" "[d0_b x]" "enc_le 4" "\<lambda>w. double_of_int (uint w)"
        "init0 ! 0" "[d0_a x]" "enc_le 8" "\<lambda>v. v" d F]
  have "conf_fields d F (init0 ! 0 # init0 ! 1 # ?last # []) (concat (map (enc_le 8) [d0_a x]) @ concat (map (enc_le 4) [d0_b x]) @
      concat (map (enc_le 2) [d0_c x]) @ []) (map (\<lambda>v. v) [d0_a x] @ map (\<lambda>w. double_of_int (uint w)) [d0_b x] @
      map (\<lambda>w. double_of_int (sint w)) [d0_c x] @ [])"
    by (rule conf) (simp_all add: test_fields_defs not_padding rd_enc)
  then show ?thesis by (simp add: read_back_def bytes0_def values0_def test_fields_defs)
qed

lemma conf1:
  assumes "wf1 x"
  shows "conf_fields d F (fmt_fields (read_back n init1 last1)) (bytes1 x) (values1 x)"
proof -
  let ?last = "last1\<lparr>field_name := field_name last1 @ [NUL]\<rparr>"
  have "conf_fields d F [?last] (concat (map (enc_le 4) (d1_b x)) @ []) (map (\<lambda>w. double_of_int (sint w)) (d1_b x) @ [])"
    by (rule conf_scalar_field [OF conf_nil]) (use assms in \<open>simp_all add: test_fields_defs not_padding rd_enc wf1_def\<close>)
  then have "conf_fields d F (hd init1 # [?last]) (concat (map (enc_le 4) (d1_a x)) @ concat (map (enc_le 4) (d1_b x)) @ [])
      (map double_of_float (d1_a x) @ map (\<lambda>w. double_of_int (sint w)) (d1_b x) @ [])"
    by (rule conf_scalar_field) (use assms in \<open>simp_all add: test_fields_defs not_padding rd_enc wf1_def\<close>)
  then show ?thesis by (simp add: read_back_def bytes1_def values1_def init1_def)
qed

text \<open>A string as an array of characters.\<close>

lemma conf_string_field:
  assumes "conf_fields d F fs bs vs" and "array_size f = int (length s)" and "field_type f = CHAR_T" and "\<not> is_padding f"
  shows "conf_fields d F (f # fs) (bytes_of s @ bs) (map (\<lambda>c. double_of_int (sint (byte_of_char c))) s @ vs)"
proof -
  have "bytes_of s = concat (map (\<lambda>c. [byte_of_char c]) s)" by (induction s) simp_all
  then show ?thesis
    using conf_scalar_field [OF assms(1) _ assms(4,2), where enc = "\<lambda>c. [byte_of_char c]"
        and val = "\<lambda>c. double_of_int (sint (byte_of_char c))"] assms(3)
    by (simp add: rd_enc)
qed

lemma conf2:
  assumes "wf2 x"
  shows "conf_fields d F (fmt_fields (read_back n init2 last2)) (bytes2 x) (values2 x)"
proof -
  let ?last = "last2\<lparr>field_name := field_name last2 @ [NUL]\<rparr>" and ?v = "map (\<lambda>c. double_of_int (sint (byte_of_char c)))"
  obtain s1 s2 s3 s4 where s: "d2_b x = [s1, s2, s3, s4]" "length s1 = 3" "length s2 = 4" "length s3 = 5" "length s4 = 1"
    using assms by (auto simp: wf2_def map_eq_Cons_conv)
  have f: "init2 = [init2 ! 0, init2 ! 1, init2 ! 2, init2 ! 3, init2 ! 4]" by (simp add: init2_def)
  have "conf_fields d F [?last] (concat (map (\<lambda>p. [of_bool p]) [d2_c x]) @ []) (map (\<lambda>p. double_of_int (of_bool p)) [d2_c x] @ [])"
    by (rule conf_scalar_field [OF conf_nil]) (simp_all add: test_fields_defs not_padding rd_enc)
  then have "conf_fields d F [init2 ! 4, ?last] (bytes_of s4 @ concat (map (\<lambda>p. [of_bool p]) [d2_c x]) @ [])
      (?v s4 @ map (\<lambda>p. double_of_int (of_bool p)) [d2_c x] @ [])"
    by (rule conf_string_field) (simp_all add: s test_fields_defs not_padding)
  then have "conf_fields d F [init2 ! 3, init2 ! 4, ?last] (bytes_of s3 @ bytes_of s4 @ concat (map (\<lambda>p. [of_bool p]) [d2_c x]) @ [])
      (?v s3 @ ?v s4 @ map (\<lambda>p. double_of_int (of_bool p)) [d2_c x] @ [])"
    by (rule conf_string_field) (simp_all add: s test_fields_defs not_padding)
  then have "conf_fields d F [init2 ! 2, init2 ! 3, init2 ! 4, ?last]
      (bytes_of s2 @ bytes_of s3 @ bytes_of s4 @ concat (map (\<lambda>p. [of_bool p]) [d2_c x]) @ [])
      (?v s2 @ ?v s3 @ ?v s4 @ map (\<lambda>p. double_of_int (of_bool p)) [d2_c x] @ [])"
    by (rule conf_string_field) (simp_all add: s test_fields_defs not_padding)
  then have "conf_fields d F [init2 ! 1, init2 ! 2, init2 ! 3, init2 ! 4, ?last]
      (bytes_of s1 @ bytes_of s2 @ bytes_of s3 @ bytes_of s4 @ concat (map (\<lambda>p. [of_bool p]) [d2_c x]) @ [])
      (?v s1 @ ?v s2 @ ?v s3 @ ?v s4 @ map (\<lambda>p. double_of_int (of_bool p)) [d2_c x] @ [])"
    by (rule conf_string_field) (simp_all add: s test_fields_defs not_padding)
  then have "conf_fields d F [init2 ! 0, init2 ! 1, init2 ! 2, init2 ! 3, init2 ! 4, ?last]
      (concat (map (enc_le 8) (d2_a x)) @ bytes_of s1 @ bytes_of s2 @ bytes_of s3 @ bytes_of s4 @ concat (map (\<lambda>p. [of_bool p]) [d2_c x]) @ [])
      (map (\<lambda>v. v) (d2_a x) @ ?v s1 @ ?v s2 @ ?v s3 @ ?v s4 @ map (\<lambda>p. double_of_int (of_bool p)) [d2_c x] @ [])"
    by (rule conf_scalar_field) (use assms in \<open>simp_all add: test_fields_defs not_padding rd_enc wf2_def\<close>)
  then show ?thesis by (simp add: read_back_def bytes2_def values2_def s(1) init2_def)
qed

text \<open>All formats together, as a parser that has read the five declarations has them.\<close>

definition test_formats :: formats where
  "test_formats = [''DataType0'' \<mapsto> read_back ''DataType0'' init0 last0, ''DataType1'' \<mapsto> read_back ''DataType1'' init1 last1,
     ''DataType2'' \<mapsto> read_back ''DataType2'' init2 last2, ''DataType3'' \<mapsto> read_back ''DataType3'' init3 last3,
     ''DataType4'' \<mapsto> read_back ''DataType4'' [] last4]"

lemma test_formats [simp]:
  "test_formats ''DataType0'' = Some (read_back ''DataType0'' init0 last0)"
  "test_formats ''DataType1'' = Some (read_back ''DataType1'' init1 last1)"
  "test_formats ''DataType2'' = Some (read_back ''DataType2'' init2 last2)"
  "test_formats ''DataType3'' = Some (read_back ''DataType3'' init3 last3)"
  "test_formats ''DataType4'' = Some (read_back ''DataType4'' [] last4)"
  by (simp_all add: test_formats_def)

definition wf_all3 :: "data_type3 \<Rightarrow> bool" where
  "wf_all3 d \<longleftrightarrow> wf3 d \<and> wf2 (d3_c d)"

lemma conf3:
  assumes "wf_all3 x"
  shows "conf_fields (Suc d) test_formats (fmt_fields (read_back n init3 last3)) (bytes3 x) (values3 x)"
proof -
  let ?last = "last3\<lparr>field_name := field_name last3 @ [NUL]\<rparr>" and ?z = "enc_le 8 (0 :: 64 word)"
  have wf: "length (d3_a x) = 3" "wf1 (d3_b x)" "wf2 (d3_c x)" using assms by (simp_all add: wf_all3_def wf3_def)
  have "conf_fields (Suc d) test_formats [?last] (concat (map (\<lambda>v. ?z @ bytes2 v) [d3_c x]) @ []) (concat (map values2 [d3_c x]) @ [])"
    by (rule conf_record_field [OF conf_nil, where g = "read_back ''DataType2'' init2 last2"])
      (use wf conf2 in \<open>simp_all add: last3_def nested_def not_padding\<close>)
  then have "conf_fields (Suc d) test_formats [init3 ! 1, ?last]
      (concat (map (\<lambda>v. ?z @ bytes1 v) [d3_b x]) @ concat (map (\<lambda>v. ?z @ bytes2 v) [d3_c x]) @ [])
      (concat (map values1 [d3_b x]) @ concat (map values2 [d3_c x]) @ [])"
    by (rule conf_record_field [where g = "read_back ''DataType1'' init1 last1"])
      (use wf conf1 in \<open>simp_all add: init3_def nested_def not_padding\<close>)
  then have "conf_fields (Suc d) test_formats [init3 ! 0, init3 ! 1, ?last]
      (concat (map (\<lambda>v. enc_le 8 (d0_timestamp v) @ bytes0 v) (d3_a x)) @
       concat (map (\<lambda>v. ?z @ bytes1 v) [d3_b x]) @ concat (map (\<lambda>v. ?z @ bytes2 v) [d3_c x]) @ [])
      (concat (map values0 (d3_a x)) @ concat (map values1 [d3_b x]) @ concat (map values2 [d3_c x]) @ [])"
    by (rule conf_record_field [where g = "read_back ''DataType0'' init0 last0"])
      (use wf conf0 in \<open>simp_all add: init3_def nested_def not_padding\<close>)
  then show ?thesis by (simp add: read_back_def bytes3_def values3_def init3_def)
qed

lemma conf4:
  assumes "length x = 3" and "\<forall>v \<in> set x. wf_all3 v"
  shows "conf_fields (Suc (Suc d)) test_formats (fmt_fields (read_back n [] last4)) (bytes4 x) (values4 x)"
proof -
  let ?last = "last4\<lparr>field_name := field_name last4 @ [NUL]\<rparr>"
  have "conf_fields (Suc (Suc d)) test_formats [?last] (concat (map (\<lambda>v. enc_le 8 (0 :: 64 word) @ bytes3 v) x) @ []) (concat (map values3 x) @ [])"
    by (rule conf_record_field [OF conf_nil, where g = "read_back ''DataType3'' init3 last3"])
      (use assms conf3 in \<open>simp_all add: last4_def nested_def not_padding\<close>)
  then show ?thesis by (simp add: read_back_def bytes4_def values4_def)
qed

section \<open>Channels\<close>

text \<open>Formats whose channels get names: custom types are known, arrays have at most ten elements.\<close>

fun nameable :: "nat \<Rightarrow> formats \<Rightarrow> field list \<Rightarrow> bool" where
  "nameable 0 F flds = False"
| "nameable (Suc d) F flds = list_all (\<lambda>f. array_size f \<le> 10 \<and>
     (field_type f \<noteq> OTHER \<or> (case F (other_type_id f) of None \<Rightarrow> False | Some g \<Rightarrow> nameable d F (fmt_fields g)))) flds"

lemma element_suffix_small: "array_size f \<le> 10 \<Longrightarrow> i \<in> set (indices f) \<Longrightarrow> \<exists>s. element_suffix f i = Inr s"
proof -
  assume "array_size f \<le> 10" "i \<in> set (indices f)"
  then have "i < 10" by (auto simp: indices_def)
  then have "dec_nat i = [digit_char i]" unfolding dec_nat_def by (subst digits_in.simps) simp
  then show ?thesis by (simp add: element_suffix_def dot_02d_def pad_left_def)
qed

lemma foldE_total: "(\<And>x s. x \<in> set xs \<Longrightarrow> \<exists>t. f x s = Inr t) \<Longrightarrow> \<exists>t. foldE f xs s = Inr t"
proof (induction xs arbitrary: s)
  case (Cons x xs)
  obtain u where "f x s = Inr u" using Cons.prems [of x s] by auto
  with Cons.IH Cons.prems show ?case by simp
qed simp

lemma nameable_channels: "nameable d F flds \<Longrightarrow> \<exists>cs. append_vector d F flds prefix dat = Inr cs"
proof (induction d arbitrary: flds prefix dat)
  case 0
  then show ?case by simp
next
  case (Suc d)
  have elem: "\<exists>t. channel_elem (append_vector d F) F prefix f i s = Inr t"
    if f: "f \<in> set flds" and i: "i \<in> set (indices f)" for f i s
  proof -
    have n: "array_size f \<le> 10" "field_type f \<noteq> OTHER \<or> (\<exists>g. F (other_type_id f) = Some g \<and> nameable d F (fmt_fields g))"
      using Suc.prems f by (auto simp: list_all_iff split: option.splits)
    obtain suffix where "element_suffix f i = Inr suffix" using element_suffix_small [OF n(1) i] by blast
    then show ?thesis using n(2) Suc.IH by (auto simp: channel_elem_def Let_def lookup_at_def)
  qed
  show ?case unfolding append_vector.simps walk_def
  proof (rule foldE_total)
    fix f s
    assume "f \<in> set flds"
    then have "\<exists>t. foldE (channel_elem (append_vector d F) F prefix f) (indices f) s = Inr t"
      by (intro foldE_total elem)
    then show "\<exists>t. (if is_padding f then Inr s else foldE (channel_elem (append_vector d F) F prefix f) (indices f) s) = Inr t"
      by simp
  qed
qed

lemma test_nameable:
  "nameable (Suc (Suc (Suc 0))) test_formats (fmt_fields (read_back n init0 last0))"
  "nameable (Suc (Suc (Suc 0))) test_formats (fmt_fields (read_back n init1 last1))"
  "nameable (Suc (Suc (Suc 0))) test_formats (fmt_fields (read_back n init2 last2))"
  "nameable (Suc (Suc (Suc 0))) test_formats (fmt_fields (read_back n init3 last3))"
  "nameable (Suc (Suc (Suc 0))) test_formats (fmt_fields (read_back n [] last4))"
  by (simp_all add: read_back_def test_fields_defs)

end
