(* ===== verification/Test_Program.thy ===== *)
theory Test_Program
  imports Test_Formats Startup
begin

text \<open>
  The test program \<open>tests/mutelemetry_test.cc\<close>: what \<open>main\<close> registers and the threads that store records of the five
  types and messages. A call of the library is one step; the threads take their steps in any
  order. \<open>tid\<close> is the text of a thread's id. The handler of exceptions has no place here, nothing throws.
\<close>

section \<open>The program\<close>

definition register_all :: "'q cq_ops \<Rightarrow> 'q mu_telemetry \<Rightarrow> 'q mu_telemetry res" where
  "register_all Q mt =
     bindE (register_info Q ''company'' ''EDEL LLC'' mt) (\<lambda>(_, mt).
     bindE (register_info Q ''sys_name'' ''RBPi4'' mt) (\<lambda>(_, mt).
     bindE (register_info Q ''replay'' (log_file mt) mt) (\<lambda>(_, mt).
     bindE (register_param_int Q ''int32_t param1'' 123 mt) (\<lambda>(_, mt).
     bindE (register_data_format Q ''DataType0'' fields0 mt) (\<lambda>(_, mt).
     bindE (register_data_format Q ''DataType1'' fields1 mt) (\<lambda>(_, mt).
     bindE (register_data_format Q ''DataType2'' fields2 mt) (\<lambda>(_, mt).
     bindE (register_data_format Q ''DataType3'' fields3 mt) (\<lambda>(_, mt).
     bindE (register_data_format Q ''DataType4'' ''DataType3[3] array;'' mt) (\<lambda>(_, mt).
     bindE (register_param_float Q ''float param2'' 0xC040A3D7 mt) (\<lambda>(_, mt).
     Inr mt))))))))))"

text \<open>Where a thread is: at the head of its loop, before the second record of an iteration, before the message.\<close>

datatype gen_pc = Loop_Head | Second | Report | Gone

record generator =
  gen_type :: nat
  n_repeats :: int
  iteration :: nat
  gen_ret :: bool
  gen_pc :: gen_pc

definition params :: "nat list" where
  "params = [100, 80, 50, 20, 20]"

definition new_generator :: "nat \<Rightarrow> generator" where
  "new_generator type = \<lparr>gen_type = type, n_repeats = int (params ! type), iteration = 0, gen_ret = True, gen_pc = Loop_Head\<rparr>"

text \<open>The \<open>switch\<close>: the first record of an iteration, and the second one of types 0 and 1.\<close>

definition first_record :: "'q cq_ops \<Rightarrow> nat \<Rightarrow> 64 word \<Rightarrow> 'q mu_telemetry \<Rightarrow> (bool \<times> 'q mu_telemetry) res" where
  "first_record Q type now mt =
     (if type = 0 then
        bindE (serialize0 new_data_type0) (\<lambda>dt. store_data_serialized Q (\<lambda>_. dt) ''DataType0'' ''d01'' now mt)
      else if type = 1 then
        bindE (serialize1 new_data_type1) (\<lambda>dt. store_data_serialized Q (\<lambda>_. dt) ''DataType1'' ''d1'' now mt)
      else if type = 2 then
        bindE (DataType2_serialize new_data_type2) (\<lambda>dt. store_data_serialized Q (\<lambda>_. dt) ''DataType2'' ''d2'' now mt)
      else if type = 3 then
        bindE (DataType3_serialize new_data_type3) (\<lambda>dt. store_data_serialized Q (\<lambda>_. dt) ''DataType3'' ''d3'' now mt)
      else if type = 4 then
        bindE (DataType4_serialize new_data_type4) (\<lambda>dt. store_data Q dt ''DataType4'' ''d4'' now mt)
      else Inr (False, mt))"

definition second_record :: "'q cq_ops \<Rightarrow> nat \<Rightarrow> 64 word \<Rightarrow> 'q mu_telemetry \<Rightarrow> (bool \<times> 'q mu_telemetry) res" where
  "second_record Q type now mt =
     bindE (serialize0 new_data_type0) (\<lambda>dt.
     store_data_serialized Q (\<lambda>_. dt) ''DataType0'' (if type = 0 then ''d02'' else ''d03'') now mt)"

definition report_text :: "string \<Rightarrow> nat \<Rightarrow> bool \<Rightarrow> string" where
  "report_text tid i ret = ''Thread ['' @ tid @ '']: iteration: '' @ dec_nat i @ '' result: '' @ (if ret then ''1'' else ''0'')"

definition gen_step ::
    "'q cq_ops \<Rightarrow> string \<Rightarrow> 64 word \<Rightarrow> generator \<times> 'q mu_telemetry \<Rightarrow> (generator \<times> 'q mu_telemetry) res" where
  "gen_step Q tid now = (\<lambda>(g, mt).
     case gen_pc g of
       Loop_Head \<Rightarrow>
         let more = 0 < n_repeats g \<and> gen_ret g; g = g\<lparr>n_repeats := n_repeats g - 1\<rparr> in
         if more then
           bindE (first_record Q (gen_type g) now mt) (\<lambda>(ok, mt).
           Inr (g\<lparr>gen_ret := ok, gen_pc := (if ok \<and> gen_type g \<le> 1 then Second else Report)\<rparr>, mt))
         else Inr (g\<lparr>gen_pc := Gone\<rparr>, mt)
     | Second \<Rightarrow>
         bindE (second_record Q (gen_type g) now mt) (\<lambda>(ok, mt). Inr (g\<lparr>gen_ret := ok, gen_pc := Report\<rparr>, mt))
     | Report \<Rightarrow>
         bindE (store_message Q (report_text tid (iteration g) (gen_ret g)) Info now mt) (\<lambda>(_, mt).
         Inr (g\<lparr>iteration := iteration g + 1, gen_pc := Loop_Head\<rparr>, mt))
     | Gone \<Rightarrow> Inr (g, mt))"

text \<open>A step of the program: a thread, and the clock it reads.\<close>

definition program_step ::
    "'q cq_ops \<Rightarrow> (nat \<Rightarrow> string) \<Rightarrow> nat \<times> 64 word \<Rightarrow> generator list \<times> 'q mu_telemetry \<Rightarrow>
     (generator list \<times> 'q mu_telemetry) res" where
  "program_step Q tids = (\<lambda>(i, now) (gs, mt).
     if i < length gs then bindE (gen_step Q (tids i) now (gs ! i, mt)) (\<lambda>(g, mt). Inr (gs[i := g], mt))
     else Inr (gs, mt))"

definition new_generators :: "nat \<Rightarrow> generator list" where
  "new_generators n_threads = map (\<lambda>i. new_generator (i mod 5)) [0..<n_threads]"

section \<open>What main registers\<close>

definition registrations :: "string \<Rightarrow> api_call list" where
  "registrations logname = [Reg_Info ''company'' ''EDEL LLC'', Reg_Info ''sys_name'' ''RBPi4'', Reg_Info ''replay'' logname,
     Reg_Param_Int ''int32_t param1'' 123, Reg_Format ''DataType0'' fields0, Reg_Format ''DataType1'' fields1,
     Reg_Format ''DataType2'' fields2, Reg_Format ''DataType3'' fields3, Reg_Format ''DataType4'' ''DataType3[3] array;'',
     Reg_Param_Float ''float param2'' 0xC040A3D7]"

lemma to_io_log_file [simp]: "log_file (to_io Q bs mt) = log_file mt"
  by (simp add: to_io_def Let_def)

lemma register_all_calls: "register_all Q mt = foldE (api_run Q) (registrations (log_file mt)) mt"
proof -
  have same: "log_file mt' = log_file mt" if "register_info Q k v mt = Inr (b, mt')" for k v b mt' and mt :: "'a mu_telemetry"
    using that by (auto simp: register_info_def sends_def bindE_eq_Inr split: if_splits)
  show ?thesis
    by (auto simp: register_all_def registrations_def api_run_def bindE_assoc split_beta same intro!: bindE_cong)
qed

end
