(* ===== verification/Test_Session.thy ===== *)
theory Test_Session
  imports Test_Program
begin

text \<open>
  Every run of the test program is a session: the registrations, and each record and message whenever its thread takes the step.
\<close>

section \<open>Registrations\<close>

definition registered :: "64 word \<Rightarrow> string \<Rightarrow> view" where
  "registered now logname = (empty_view now)\<lparr>v_formats := test_formats,
     v_info := [''company'' \<mapsto> ''EDEL LLC'', ''sys_name'' \<mapsto> ''RBPi4'', ''replay'' \<mapsto> logname],
     v_params := [\<lparr>param_name = ''param1'', param_bits = 123, param_type = INT32\<rparr>,
                  \<lparr>param_name = ''param2'', param_bits = 0xC040A3D7, param_type = FLOAT\<rparr>]\<rparr>"

lemma session_Cons: "heard d c v u \<Longrightarrow> session d cs u v' \<Longrightarrow> session d (c # cs) v v'"
  by auto

lemma format_text_short: "length flds \<le> 100 \<Longrightarrow> length name \<le> 100 \<Longrightarrow> length (format_text name flds) \<le> 1500"
  by (simp add: format_text_def)

lemma info_short: "length val \<le> 200 \<Longrightarrow> length key \<le> 20 \<Longrightarrow> length val + length (info_key key val) < 255"
  using length_dec_nat [of "length val"] length_c_str [of key] by (simp add: info_key_def)

lemma registrations_heard:
  assumes "length logname \<le> 200"
  shows "session d (registrations logname) (empty_view now) (registered now logname)"
proof -
  have int: "heard d (Reg_Param_Int ''int32_t param1'' 123) v
      (v\<lparr>v_params := v_params v @ [\<lparr>param_name = ''param1'', param_bits = 123, param_type = INT32\<rparr>]\<rparr>)" for v
    using heard_int [of "''param1''" _ d 123 v] by (simp add: NUL_def)
  have float: "heard d (Reg_Param_Float ''float param2'' 0xC040A3D7) v
      (v\<lparr>v_params := v_params v @ [\<lparr>param_name = ''param2'', param_bits = 0xC040A3D7, param_type = FLOAT\<rparr>]\<rparr>)" for v
    using heard_float [of "''param2''" _ d "0xC040A3D7" v] by (simp add: NUL_def)
  have info: "heard d (Reg_Info key val) v (v\<lparr>v_info := map_insert key val (v_info v)\<rparr>)"
    if "key \<in> {''company'', ''sys_name'', ''replay''}" "length val \<le> 200" for key val v
    using that by (intro heard_info info_short) (auto simp: NUL_def)
  have fmt: "heard d (Reg_Format name flds) v (v\<lparr>v_formats := (v_formats v)(name \<mapsto> read_back name fs f)\<rparr>)"
    if "v_used v = []" "name \<in> {''DataType0'', ''DataType1'', ''DataType2'', ''DataType3'', ''DataType4''}"
      "declares flds (fs @ [f])" "length flds \<le> 100" for name flds fs f v
    using that by (intro heard_format format_text_short) (auto simp: NUL_def)
  note texts = fields0_def fields1_def fields2_def fields3_def
  show ?thesis
    unfolding registrations_def
    apply (rule session_Cons [OF info], simp, simp)
    apply (rule session_Cons [OF info], simp, simp)
    apply (rule session_Cons [OF info], simp, rule assms)
    apply (rule session_Cons [OF int])
    apply (rule session_Cons [OF fmt [OF _ _ test_texts(1)]], simp add: empty_view_def, simp, simp add: texts)
    apply (rule session_Cons [OF fmt [OF _ _ test_texts(2)]], simp add: empty_view_def, simp, simp add: texts)
    apply (rule session_Cons [OF fmt [OF _ _ test_texts(3)]], simp add: empty_view_def, simp, simp add: texts)
    apply (rule session_Cons [OF fmt [OF _ _ test_texts(4)]], simp add: empty_view_def, simp, simp add: texts)
    apply (rule session_Cons [OF fmt [OF _ _ test_texts(5)]], simp add: empty_view_def, simp, simp)
    apply (rule session_Cons [OF float])
    apply (simp add: registered_def empty_view_def test_formats_def)
    done
qed

section \<open>Records and messages\<close>

definition type_names :: "string list" where
  "type_names = [''DataType0'', ''DataType1'', ''DataType2'', ''DataType3'', ''DataType4'']"

text \<open>What is stored and what is to be read of each type.\<close>

definition record_of :: "nat \<Rightarrow> byte list \<times> double list" where
  "record_of k = [(bytes0 new_data_type0, values0 new_data_type0), (bytes1 new_data_type1, values1 new_data_type1),
     (bytes2 new_data_type2, values2 new_data_type2), (bytes3 new_data_type3, values3 new_data_type3),
     (bytes4 new_data_type4, values4 new_data_type4)] ! k"

lemma new_data_wf:
  "wf1 new_data_type1" "wf2 new_data_type2" "wf_all3 new_data_type3"
  "length new_data_type4 = 3" "\<forall>v \<in> set new_data_type4. wf_all3 v"
  by (simp_all add: wf1_def wf2_def wf_all3_def wf3_def new_data_type1_def new_data_type2_def new_data_type3_def new_data_type4_def)

lemma record_lengths:
  "length (bytes0 new_data_type0) = 14" "length (bytes1 new_data_type1) = 28" "length (bytes2 new_data_type2) = 38"
  "length (bytes3 new_data_type3) = 148" "length (bytes4 new_data_type4) = 468"
proof -
  show sizes: "length (bytes0 new_data_type0) = 14" "length (bytes1 new_data_type1) = 28" "length (bytes2 new_data_type2) = 38"
    by (simp_all add: bytes0_def bytes1_def bytes2_def new_data_type1_def new_data_type2_def)
  then show "length (bytes3 new_data_type3) = 148" by (simp add: bytes3_def new_data_type3_def numeral_3_eq_3)
  then show "length (bytes4 new_data_type4) = 468" by (simp add: bytes4_def new_data_type4_def numeral_3_eq_3)
qed

lemma record_sizes: "k < 5 \<Longrightarrow> length (fst (record_of k)) \<le> 1492"
  using record_lengths by (auto simp: record_of_def less_Suc_eq numeral_eq_Suc)

lemma record_conf:
  assumes "k < 5"
  obtains fmt cs where "test_formats (type_names ! k) = Some fmt"
    and "conf_fields (Suc (Suc 0)) test_formats (fmt_fields fmt) (fst (record_of k)) (snd (record_of k))"
    and "append_vector (Suc (Suc (Suc 0))) test_formats (fmt_fields fmt) [] [] = Inr cs"
proof -
  from assms consider "k = 0" | "k = 1" | "k = 2" | "k = 3" | "k = 4" by linarith
  then have "\<exists>fmt. test_formats (type_names ! k) = Some fmt \<and>
      conf_fields (Suc (Suc 0)) test_formats (fmt_fields fmt) (fst (record_of k)) (snd (record_of k)) \<and>
      nameable (Suc (Suc (Suc 0))) test_formats (fmt_fields fmt)"
    by cases (simp_all del: nameable.simps add: type_names_def record_of_def conf0 conf1 conf2 conf3 conf4 new_data_wf test_nameable)
  with nameable_channels that show thesis by metis
qed

text \<open>A view while the threads run: \<open>n\<close> records and \<open>m\<close> messages so far.\<close>

definition running_view :: "nat \<Rightarrow> nat \<Rightarrow> view \<Rightarrow> bool" where
  "running_view n m v \<longleftrightarrow> v_formats v = test_formats \<and> set (types v) \<subseteq> set type_names \<and> length (v_used v) = n \<and>
     length (v_data v) = n \<and> length (v_logs v) = m \<and>
     (\<forall>md \<in> set (v_data v). \<exists>k < 5. md_name md \<in> {type_names ! k, type_names ! k @ ''.00''} \<and>
        map snd (structured_data md) = snd (record_of k))"

lemma record_heard:
  assumes view: "running_view n m v" and k: "k < 5" and stamp: "length stamp = 8"
  shows "\<exists>v'. heard (Suc (Suc 0)) (Store_Data (stamp @ fst (record_of k)) (type_names ! k) ann now) v v' \<and> running_view (Suc n) m v'"
proof -
  let ?name = "type_names ! k"
  obtain fmt cs where r: "test_formats ?name = Some fmt"
    "conf_fields (Suc (Suc 0)) test_formats (fmt_fields fmt) (fst (record_of k)) (snd (record_of k))"
    "append_vector (Suc (Suc (Suc 0))) test_formats (fmt_fields fmt) [] [] = Inr cs"
    using record_conf [OF k] .
  let ?v = "v\<lparr>v_used := v_used v @ [(?name, ann)]\<rparr>"
  let ?md = "\<lparr>md_name = heard_name (inst_id ?v) ?v ?name, md_timestamp = now, structured_data = zip (map fst cs) (snd (record_of k))\<rparr>"
  have "length type_names = 5" by (simp add: type_names_def)
  then have name: "?name \<in> set type_names" using k by (intro nth_mem) simp
  then have plain: "CHR ''.'' \<notin> set ?name" "length ?name \<le> 255" by (auto simp: type_names_def)
  have types: "set (types ?v) \<subseteq> set type_names" using view name by (simp add: running_view_def)
  then have "card (set (types ?v)) \<le> card (set type_names)" by (intro card_mono) simp_all
  also have "\<dots> \<le> 5" using card_length [of type_names] by (simp add: type_names_def)
  finally have room: "card (set (types ?v)) \<le> 65536" by simp
  have fm: "v_formats v = test_formats" using view by (simp add: running_view_def)
  have "heard (Suc (Suc 0)) (Store_Data (stamp @ fst (record_of k)) ?name ann now) v (?v\<lparr>v_data := v_data v @ [?md]\<rparr>)"
    by (rule heard_record [OF _ plain stamp record_sizes [OF k], where fmt = fmt])
      (use r room in \<open>simp_all only: fm\<close>)
  moreover have "length (map fst cs) = length (snd (record_of k))"
    using conf_fields_leaves [OF r(2), of 0] append_vector_empty [OF r(3), of 0] by simp
  then have "map snd (structured_data ?md) = snd (record_of k)" by simp
  then have "running_view (Suc n) m (?v\<lparr>v_data := v_data v @ [?md]\<rparr>)"
    using view types k unfolding running_view_def by (auto simp: heard_name_seq)
  ultimately show ?thesis by blast
qed

lemma report_heard:
  assumes "running_view n m v" and "0 < n" and "i < 1000" and "length tid \<le> 100"
  shows "\<exists>v'. heard (Suc (Suc 0)) (Store_Message (report_text tid i ret) Info now) v v' \<and> running_view n (Suc m) v'"
proof -
  have "length (report_text tid i ret) < 1500"
    using length_dec_nat [OF assms(3)] assms(4) by (simp add: report_text_def)
  then show ?thesis
    unfolding heard_message_iff using assms(1,2) by (auto simp: running_view_def)
qed

section \<open>Runs\<close>

text \<open>How many records and messages a thread has stored.\<close>

definition per_iteration :: "nat \<Rightarrow> nat" where
  "per_iteration type = (if type \<le> 1 then 2 else 1)"

definition records_done :: "generator \<Rightarrow> nat" where
  "records_done g = per_iteration (gen_type g) * iteration g +
     (case gen_pc g of Second \<Rightarrow> 1 | Report \<Rightarrow> per_iteration (gen_type g) | _ \<Rightarrow> 0)"

text \<open>A thread that has had no failure, with the iterations it has left.\<close>

definition gen_ok :: "generator \<Rightarrow> bool" where
  "gen_ok g \<longleftrightarrow> gen_type g < 5 \<and> gen_ret g \<and> (gen_pc g = Second \<longrightarrow> gen_type g \<le> 1) \<and>
     (case gen_pc g of
        Gone \<Rightarrow> iteration g = params ! gen_type g
      | Loop_Head \<Rightarrow> 0 \<le> n_repeats g \<and> n_repeats g = int (params ! gen_type g) - int (iteration g)
      | _ \<Rightarrow> 0 \<le> n_repeats g \<and> n_repeats g = int (params ! gen_type g) - int (iteration g) - 1)"

lemma params_bound: "k < 5 \<Longrightarrow> params ! k \<le> 100"
  by (auto simp: params_def less_Suc_eq numeral_eq_Suc)

lemma gen_ok_new: "k < 5 \<Longrightarrow> gen_ok (new_generator k) \<and> records_done (new_generator k) = 0 \<and> iteration (new_generator k) = 0"
  by (simp add: gen_ok_def new_generator_def records_done_def)

text \<open>A call of the library that is heard succeeds.\<close>

lemma api_step_true: "api_step Q c mt = Inr (b, mt') \<Longrightarrow> is_enabled mt \<Longrightarrow> b"
  by (cases c) (auto simp: register_param_int_def register_param_float_def register_info_def register_info_multi_def
      register_data_format_def store_data_def store_data_intl_ids store_message_def sends_def bindE_eq_Inr split: if_splits)

definition tracks :: "('q \<Rightarrow> byte list list) \<Rightarrow> 'q cq_ops \<Rightarrow> 64 word \<Rightarrow> 'q mu_telemetry \<Rightarrow> api_call list \<Rightarrow> view \<Rightarrow> 'q mu_telemetry \<Rightarrow> bool" where
  "tracks content Q now mt0 cs v mt \<longleftrightarrow> session (Suc (Suc 0)) cs (empty_view now) v \<and> foldE (api_run Q) cs mt0 = Inr mt \<and>
     ids_track v mt \<and> is_enabled mt"

lemma session_snoc: "session d cs v u \<Longrightarrow> heard d c u v' \<Longrightarrow> session d (cs @ [c]) v v'"
  by (induction cs arbitrary: v) auto

lemma tracks_call:
  assumes Q: "conc_queue Q content" and tr: "tracks content Q now mt0 cs v mt" and heard: "heard (Suc (Suc 0)) c v v'"
  shows "\<exists>mt'. api_step Q c mt = Inr (True, mt') \<and> tracks content Q now mt0 (cs @ [c]) v' mt'"
proof -
  obtain b where b: "wire v c = Inr b" using heard_wire [OF heard] by blast
  have old: "ids_track v mt" "is_enabled mt" using tr by (simp_all add: tracks_def)
  obtain mt' where mt': "api_run Q c mt = Inr mt'" "queued content [b] mt mt'" "ids_track v' mt'"
    using conc_queue.heard_queued [OF Q heard old b] by blast
  obtain ok where ok: "api_step Q c mt = Inr (ok, mt')" using mt'(1) by (auto simp: api_run_def bindE_eq_Inr)
  have "tracks content Q now mt0 (cs @ [c]) v' mt'"
    using tr mt' session_snoc [OF _ heard] queued_enabled [OF mt'(2)] by (simp add: tracks_def foldE_append)
  then show ?thesis using ok api_step_true [OF ok old(2)] by auto
qed

lemma first_record_api:
  assumes "k < 5"
  obtains stamp ann where "length stamp = 8"
    and "\<forall>mt. first_record Q k now mt = api_step Q (Store_Data (stamp @ fst (record_of k)) (type_names ! k) ann now) mt"
proof -
  let ?z = "enc_le 8 (0 :: 64 word)"
  have wf: "wf3 new_data_type3" "\<forall>v \<in> set new_data_type4. wf3 v" using new_data_wf by (auto simp: wf_all3_def)
  have zero: "enc_le 8 (d0_timestamp new_data_type0) = ?z" by (simp add: new_data_type0_def)
  from assms consider "k = 0" | "k = 1" | "k = 2" | "k = 3" | "k = 4" by linarith
  then have "\<exists>ann. \<forall>mt. first_record Q k now mt = api_step Q (Store_Data (?z @ fst (record_of k)) (type_names ! k) ann now) mt"
    by cases (auto simp: first_record_def serialize0_eq serialize1_eq serialize2_eq serialize3_eq serialize4_eq new_data_wf wf zero
        store_data_serialized_def store_data_def record_of_def type_names_def)
  with that [of ?z] show thesis by auto
qed

lemma second_record_api:
  obtains ann where "\<forall>mt. second_record Q k now mt = api_step Q (Store_Data (enc_le 8 (0 :: 64 word) @ fst (record_of 0)) (type_names ! 0) ann now) mt"
  by (auto simp: second_record_def serialize0_eq store_data_serialized_def store_data_def record_of_def type_names_def
      new_data_type0_def)

text \<open>A step of a thread.\<close>

lemma gen_step_ok:
  assumes Q: "conc_queue Q content" and tr: "tracks content Q now mt0 cs v mt" and view: "running_view n m v" and ok: "gen_ok g"
    and n: "records_done g \<le> n" and tid: "length tid \<le> 100"
  shows "\<exists>g' mt' cs' v' n' m'. gen_step Q tid t (g, mt) = Inr (g', mt') \<and> gen_ok g' \<and> tracks content Q now mt0 cs' v' mt' \<and>
    running_view n' m' v' \<and> n' + records_done g = n + records_done g' \<and> m' + iteration g = m + iteration g'"
proof (cases "gen_pc g")
  case Loop_Head
  show ?thesis
  proof (cases "0 < n_repeats g")
    case True
    have k: "gen_type g < 5" using ok by (simp add: gen_ok_def)
    obtain stamp ann where s: "length stamp = 8"
      "\<forall>mt. first_record Q (gen_type g) t mt = api_step Q (Store_Data (stamp @ fst (record_of (gen_type g))) (type_names ! gen_type g) ann t) mt"
      by (rule first_record_api [where Q = Q and now = t, OF k])
    obtain v' where v': "heard (Suc (Suc 0)) (Store_Data (stamp @ fst (record_of (gen_type g))) (type_names ! gen_type g) ann t) v v'"
      "running_view (Suc n) m v'" using record_heard [OF view k s(1)] by blast
    obtain mt' where mt': "first_record Q (gen_type g) t mt = Inr (True, mt')"
      "tracks content Q now mt0 (cs @ [Store_Data (stamp @ fst (record_of (gen_type g))) (type_names ! gen_type g) ann t]) v' mt'"
      using tracks_call [OF Q tr v'(1)] s(2) by metis
    let ?g = "g\<lparr>n_repeats := n_repeats g - 1, gen_ret := True, gen_pc := (if gen_type g \<le> 1 then Second else Report)\<rparr>"
    have "gen_step Q tid t (g, mt) = Inr (?g, mt')"
      using Loop_Head True ok mt'(1) by (simp add: gen_step_def gen_ok_def Let_def)
    moreover have "gen_ok ?g \<and> Suc n + records_done g = n + records_done ?g"
      using Loop_Head True ok by (auto simp: gen_ok_def records_done_def per_iteration_def)
    ultimately show ?thesis using mt'(2) v'(2) by fastforce
  next
    case False
    then have "gen_step Q tid t (g, mt) = Inr (g\<lparr>n_repeats := n_repeats g - 1, gen_pc := Gone\<rparr>, mt)"
      using Loop_Head by (simp add: gen_step_def Let_def)
    moreover have "gen_ok (g\<lparr>n_repeats := n_repeats g - 1, gen_pc := Gone\<rparr>) \<and>
        records_done (g\<lparr>n_repeats := n_repeats g - 1, gen_pc := Gone\<rparr>) = records_done g"
      using Loop_Head False ok by (auto simp: gen_ok_def records_done_def)
    ultimately show ?thesis using tr view by fastforce
  qed
next
  case Second
  let ?c = "\<lambda>ann. Store_Data (enc_le 8 (0 :: 64 word) @ fst (record_of 0)) (type_names ! 0) ann t"
  obtain ann where s: "\<forall>mt. second_record Q (gen_type g) t mt = api_step Q (?c ann) mt"
    by (rule second_record_api [where Q = Q and now = t and k = "gen_type g"])
  obtain v' where v': "heard (Suc (Suc 0)) (?c ann) v v'" "running_view (Suc n) m v'"
    using record_heard [OF view, of 0 "enc_le 8 (0 :: 64 word)" ann t] by auto
  obtain mt' where mt': "second_record Q (gen_type g) t mt = Inr (True, mt')" "tracks content Q now mt0 (cs @ [?c ann]) v' mt'"
    using tracks_call [OF Q tr v'(1)] s by metis
  have "gen_step Q tid t (g, mt) = Inr (g\<lparr>gen_ret := True, gen_pc := Report\<rparr>, mt')"
    using Second mt'(1) by (simp add: gen_step_def)
  moreover have "gen_ok (g\<lparr>gen_ret := True, gen_pc := Report\<rparr>) \<and>
      Suc n + records_done g = n + records_done (g\<lparr>gen_ret := True, gen_pc := Report\<rparr>)"
    using Second ok by (simp add: gen_ok_def records_done_def per_iteration_def)
  ultimately show ?thesis using mt'(2) v'(2) by fastforce
next
  case Report
  let ?c = "Store_Message (report_text tid (iteration g) (gen_ret g)) Info t"
  have "int (iteration g) < int (params ! gen_type g)" "params ! gen_type g \<le> 100"
    using Report ok params_bound by (auto simp: gen_ok_def)
  then have i: "iteration g < 1000" by simp
  have "0 < n" using n Report by (auto simp: records_done_def per_iteration_def split: if_splits)
  then obtain v' where v': "heard (Suc (Suc 0)) ?c v v'" "running_view n (Suc m) v'"
    using report_heard [OF view _ i tid] by blast
  obtain mt' where mt': "api_step Q ?c mt = Inr (True, mt')" "tracks content Q now mt0 (cs @ [?c]) v' mt'"
    using tracks_call [OF Q tr v'(1)] by blast
  have "gen_step Q tid t (g, mt) = Inr (g\<lparr>iteration := iteration g + 1, gen_pc := Loop_Head\<rparr>, mt')"
    using Report mt'(1) by (simp add: gen_step_def)
  moreover have "gen_ok (g\<lparr>iteration := iteration g + 1, gen_pc := Loop_Head\<rparr>) \<and>
      records_done g = records_done (g\<lparr>iteration := iteration g + 1, gen_pc := Loop_Head\<rparr>)"
    using Report ok by (simp add: gen_ok_def records_done_def)
  ultimately show ?thesis using mt'(2) v'(2) by fastforce
next
  case Gone
  then have "gen_step Q tid t (g, mt) = Inr (g, mt)" by (simp add: gen_step_def)
  with ok tr view show ?thesis by blast
qed

text \<open>A run of all threads.\<close>

definition program_ok ::
    "('q \<Rightarrow> byte list list) \<Rightarrow> 'q cq_ops \<Rightarrow> 64 word \<Rightarrow> 'q mu_telemetry \<Rightarrow> generator list \<times> 'q mu_telemetry \<Rightarrow> bool" where
  "program_ok content Q now mt0 = (\<lambda>(gs, mt). (\<forall>g \<in> set gs. gen_ok g) \<and>
     (\<exists>cs v. tracks content Q now mt0 cs v mt \<and>
        running_view (sum_list (map records_done gs)) (sum_list (map iteration gs)) v))"

lemma sum_list_map_update:
  "i < length gs \<Longrightarrow> n' + f (gs ! i) = sum_list (map f gs) + f g \<Longrightarrow> n' = sum_list (map f (gs[i := g]))" for f :: "'b \<Rightarrow> nat"
  using elem_le_sum_list [of i "map f gs"] by (simp add: map_update sum_list_update)

lemma program_step_ok:
  assumes Q: "conc_queue Q content" and tids: "\<forall>i. length (tids i) \<le> 100" and ok: "program_ok content Q now mt0 s"
  shows "\<exists>s'. program_step Q tids ev s = Inr s' \<and> program_ok content Q now mt0 s'"
proof -
  obtain gs mt i t where s: "s = (gs, mt)" and ev: "ev = (i, t)" by (cases s, cases ev) blast
  show ?thesis
  proof (cases "i < length gs")
    case False
    with ok show ?thesis by (simp add: program_step_def s ev)
  next
    case True
    obtain cs v where tr: "tracks content Q now mt0 cs v mt"
      and view: "running_view (sum_list (map records_done gs)) (sum_list (map iteration gs)) v"
      and gens: "\<forall>g \<in> set gs. gen_ok g"
      using ok by (auto simp: program_ok_def s)
    have "records_done (gs ! i) \<le> sum_list (map records_done gs)"
      using elem_le_sum_list [of i "map records_done gs"] True by simp
    then obtain g' mt' cs' v' n' m' where st: "gen_step Q (tids i) t (gs ! i, mt) = Inr (g', mt')" "gen_ok g'"
      "tracks content Q now mt0 cs' v' mt'" "running_view n' m' v'"
      "n' + records_done (gs ! i) = sum_list (map records_done gs) + records_done g'"
      "m' + iteration (gs ! i) = sum_list (map iteration gs) + iteration g'"
      using gen_step_ok [OF Q tr view, of "gs ! i" "tids i" t] gens True tids nth_mem by blast
    have "\<forall>g \<in> set (gs[i := g']). gen_ok g" using gens st(2) set_update_subset_insert [of gs i g'] by blast
    then have "program_ok content Q now mt0 (gs[i := g'], mt')"
      using st(3,4) sum_list_map_update [OF True st(5)] sum_list_map_update [OF True st(6)]
      by (auto simp: program_ok_def)
    with st(1) True show ?thesis by (simp add: program_step_def s ev)
  qed
qed

lemma program_run_ok:
  assumes "conc_queue Q content" and "\<forall>i. length (tids i) \<le> 100" and "program_ok content Q now mt0 s"
  shows "\<exists>s'. foldE (program_step Q tids) evs s = Inr s' \<and> program_ok content Q now mt0 s'"
  using assms(3)
proof (induction evs arbitrary: s)
  case Nil
  then show ?case by simp
next
  case (Cons ev evs)
  obtain s1 where "program_step Q tids ev s = Inr s1" "program_ok content Q now mt0 s1"
    using program_step_ok [OF assms(1,2) Cons.prems] by blast
  with Cons.IH [of s1] show ?case by simp
qed

lemma program_ok_start:
  assumes Q: "conc_queue Q content" and track: "ids_track (empty_view now) mt" and on: "is_enabled mt"
    and name: "length (log_file mt) \<le> 200"
  obtains mt1 where "register_all Q mt = Inr mt1" and "program_ok content Q now mt (new_generators n, mt1)"
proof -
  let ?cs = "registrations (log_file mt)" and ?v = "registered now (log_file mt)"
  have heard: "session (Suc (Suc 0)) ?cs (empty_view now) ?v" by (rule registrations_heard [OF name])
  obtain mt1 bs where r: "foldE (api_run Q) ?cs mt = Inr mt1" "queued content bs mt mt1" "ids_track ?v mt1"
    using conc_queue.session_refined [OF Q heard track on] by blast
  have "tracks content Q now mt ?cs ?v mt1"
    using heard r queued_enabled [OF r(2)] on by (simp add: tracks_def)
  moreover have gens: "gen_ok g \<and> records_done g = 0 \<and> iteration g = 0" if "g \<in> set (new_generators n)" for g
    using that gen_ok_new by (auto simp: new_generators_def)
  then have "sum_list (map records_done (new_generators n)) = 0" "sum_list (map iteration (new_generators n)) = 0"
    by (simp_all add: sum_list_eq_0_iff)
  then have "running_view (sum_list (map records_done (new_generators n))) (sum_list (map iteration (new_generators n))) ?v"
    by (simp add: running_view_def registered_def empty_view_def types_def)
  ultimately have "program_ok content Q now mt (new_generators n, mt1)" using gens by (auto simp: program_ok_def)
  with that r(1) show thesis by (simp add: register_all_calls)
qed

end
