(* ===== verification/Test_Claims.thy ===== *)
theory Test_Claims
  imports Test_Session Network Samples
begin

text \<open>
  Properties of the test program of the repository.
\<close>




text \<open>Over the network the records of the largest type never arrive: their messages are longer than the data field.\<close>

lemma type4_not_streamed:
  assumes "wire v (Store_Data (stamp @ bytes4 new_data_type4) ''DataType4'' ann t) = Inr bs" and "length stamp = 8"
  shows "send_ulog 249 junk bs st = Inr (False, st)"
proof -
  have "bs = frame 65 ([inst_id v ''DataType4'' ann] @ enc_le 2 (type_id v ''DataType4'') @ bytes_of ''DataType4'') @
      frame 68 (enc_le 2 (type_id v ''DataType4'') @ enc_le 8 t @ bytes4 new_data_type4)"
    using assms record_lengths(5) by (simp add: data_message_eq)
  then have "length bs = 496" using record_lengths(5) by (simp add: frame_def)
  then show ?thesis by (simp add: send_ulog_def)
qed

end
