(* ===== verification/Layout.thy ===== *)
theory Layout
  imports Timeseries
begin

text \<open>
  The static layout of a format: for every channel its name, the offset of its scalar in a payload
  and the type there, and the size of the payload. A format that has a layout is well typed: every
  custom type in it is known and the nesting ends. The walks of the parser over such a format do not go
  wrong on any payload that is long enough, and amount to reading each scalar at its offset.
\<close>

type_synonym slot = "string \<times> nat \<times> format_type"

definition slot_elem ::
    "(field list \<Rightarrow> string \<Rightarrow> slot list \<times> nat \<Rightarrow> (slot list \<times> nat) res) \<Rightarrow> formats \<Rightarrow> string \<Rightarrow> field \<Rightarrow> nat
     \<Rightarrow> slot list \<times> nat \<Rightarrow> (slot list \<times> nat) res" where
  "slot_elem rec F prefix f i = (\<lambda>(slots, n).
     bindE (element_suffix f i) (\<lambda>suffix.
     let name = prefix @ ''/'' @ field_name f @ suffix in
     if field_type f \<noteq> OTHER then Inr (slots @ [(name, n, field_type f)], n + scalar_size (field_type f))
     else bindE (lookup_at F (other_type_id f)) (\<lambda>g. rec (fmt_fields g) name (slots, n + 8))))"

definition slot_pad :: "field \<Rightarrow> slot list \<times> nat \<Rightarrow> (slot list \<times> nat) res" where
  "slot_pad f = (\<lambda>(slots, n). if array_size f < 0 then Inl Undefined else Inr (slots, n + nat (array_size f)))"

fun layout :: "nat \<Rightarrow> formats \<Rightarrow> field list \<Rightarrow> string \<Rightarrow> slot list \<times> nat \<Rightarrow> (slot list \<times> nat) res" where
  "layout 0 F flds prefix s = Inl Stack_Overflow"
| "layout (Suc d) F flds prefix s = walk slot_pad (slot_elem (layout d F) F prefix) flds s"

section \<open>Layouts grow\<close>

text \<open>Slots are appended, do not overlap, and end before the size.\<close>

definition slots_ok :: "slot list \<times> nat \<Rightarrow> bool" where
  "slots_ok s \<longleftrightarrow> sorted_wrt (\<lambda>(_, o1, t1) (_, o2, _). o1 + scalar_size t1 \<le> o2) (fst s) \<and>
     (\<forall>(_, o1, t) \<in> set (fst s). o1 + scalar_size t \<le> snd s \<and> t \<noteq> OTHER)"

definition extends :: "slot list \<times> nat \<Rightarrow> slot list \<times> nat \<Rightarrow> bool" where
  "extends s s' \<longleftrightarrow> (\<exists>new. fst s' = fst s @ new) \<and> snd s \<le> snd s' \<and> (slots_ok s \<longrightarrow> slots_ok s')"

lemma extends_refl: "extends s s"
  by (simp add: extends_def)

lemma extends_trans: "extends s t \<Longrightarrow> extends t u \<Longrightarrow> extends s u"
  by (auto simp: extends_def)

lemma extends_skip: "n \<le> m \<Longrightarrow> extends (ls, n) (ls, m)"
  by (auto simp: extends_def slots_ok_def)

lemma extends_slot: "t \<noteq> OTHER \<Longrightarrow> extends (ls, n) (ls @ [(name, n, t)], n + scalar_size t)"
  by (fastforce simp: extends_def slots_ok_def sorted_wrt_append)

lemma slot_pad_extends: "slot_pad f s = Inr s' \<Longrightarrow> extends s s'"
  by (auto simp: slot_pad_def intro: extends_skip split: if_splits prod.splits)

lemma slot_elem_extends:
  assumes step: "slot_elem rec F prefix f i s = Inr s'"
    and rec: "\<And>flds name s s'. rec flds name s = Inr s' \<Longrightarrow> extends s s'"
  shows "extends s s'"
proof -
  obtain ls n where s: "s = (ls, n)" by fastforce
  obtain suffix where suffix: "element_suffix f i = Inr suffix"
    using step by (cases "element_suffix f i") (simp_all add: slot_elem_def s)
  let ?name = "prefix @ ''/'' @ field_name f @ suffix"
  show ?thesis
  proof (cases "field_type f = OTHER")
    case False
    with step suffix have "s' = (ls @ [(?name, n, field_type f)], n + scalar_size (field_type f))"
      by (simp add: slot_elem_def s Let_def)
    then show ?thesis using extends_slot [OF False] s by simp
  next
    case True
    with step suffix obtain g :: format where "rec (fmt_fields g) ?name (ls, n + 8) = Inr s'"
      by (cases "lookup_at F (other_type_id f)") (auto simp: slot_elem_def s Let_def)
    from extends_trans [OF extends_skip rec [OF this], of n] show ?thesis by (simp add: s)
  qed
qed

lemma walk_extends:
  assumes "walk pad elem flds s = Inr s'"
    and "\<And>f s s'. pad f s = Inr s' \<Longrightarrow> extends s s'" and "\<And>f i s s'. elem f i s = Inr s' \<Longrightarrow> extends s s'"
  shows "extends s s'"
proof -
  have elems: "extends s s'" if "foldE (elem f) is s = Inr s'" for f "is" s s'
    using that by (rule foldE_invariant [where P = "extends s", OF _ extends_refl]) (blast intro: extends_trans assms(3))
  show ?thesis
    using assms(1) unfolding walk_def
    by (rule foldE_invariant [where P = "extends s", OF _ extends_refl])
      (auto intro: extends_trans assms(2) elems split: if_splits)
qed

lemma layout_extends: "layout d F flds prefix s = Inr s' \<Longrightarrow> extends s s'"
proof (induction d arbitrary: flds prefix s s')
  case (Suc d)
  then show ?case
    using walk_extends [of slot_pad "slot_elem (layout d F) F prefix" flds s s'] slot_pad_extends slot_elem_extends
    by (metis layout.simps(2))
qed simp

section \<open>Walks whose end is known to be good\<close>

text \<open>Like \<open>walk_sim\<close>, for a property of the last state that every earlier state inherits.\<close>

lemma foldE_sim_back:
  assumes "foldE f xs s = Inr s'" and "R s t" and "P s'"
    and closed: "\<And>x s s'. f x s = Inr s' \<Longrightarrow> P s' \<Longrightarrow> P s"
    and sim: "\<And>x s s' t. x \<in> set xs \<Longrightarrow> R s t \<Longrightarrow> f x s = Inr s' \<Longrightarrow> P s' \<Longrightarrow> \<exists>t'. g x t = Inr t' \<and> R s' t'"
  shows "\<exists>t'. foldE g xs t = Inr t' \<and> R s' t'"
  using assms(1-3) sim
proof (induction xs arbitrary: s t)
  case Nil
  then show ?case by auto
next
  case (Cons x xs)
  then obtain u where u: "f x s = Inr u" "foldE f xs u = Inr s'" by (auto simp: bindE_eq_Inr)
  have "P u" using u(2) Cons.prems(3)
  proof (induction xs arbitrary: u)
    case (Cons y ys)
    then obtain w where "f y u = Inr w" "foldE f ys w = Inr s'" by (auto simp: bindE_eq_Inr)
    then show ?case using Cons closed by blast
  qed simp
  then obtain v where v: "g x t = Inr v" "R u v" using Cons.prems(2,4) u(1) by (meson list.set_intros(1))
  have "\<exists>t'. foldE g xs v = Inr t' \<and> R s' t'"
    using Cons.prems(4) by (intro Cons.IH [OF u(2) v(2) Cons.prems(3)]) (meson list.set_intros(2))
  with v(1) show ?case by simp
qed

lemma foldE_back:
  "foldE f xs s = Inr s' \<Longrightarrow> P s' \<Longrightarrow> (\<And>x s s'. f x s = Inr s' \<Longrightarrow> P s' \<Longrightarrow> P s) \<Longrightarrow> P s"
proof (induction xs arbitrary: s)
  case (Cons x xs)
  then obtain u where "f x s = Inr u" "foldE f xs u = Inr s'" by (auto simp: bindE_eq_Inr)
  then show ?case using Cons by blast
qed simp

lemma walk_sim_back:
  assumes "walk pad elem flds s = Inr s'" and "R s t" and "P s'"
    and pad_closed: "\<And>f s s'. pad f s = Inr s' \<Longrightarrow> P s' \<Longrightarrow> P s"
    and elem_closed: "\<And>f i s s'. elem f i s = Inr s' \<Longrightarrow> P s' \<Longrightarrow> P s"
    and pad_sim: "\<And>f s s' t. R s t \<Longrightarrow> pad f s = Inr s' \<Longrightarrow> P s' \<Longrightarrow> \<exists>t'. pad' f t = Inr t' \<and> R s' t'"
    and elem_sim: "\<And>f i s s' t. R s t \<Longrightarrow> elem f i s = Inr s' \<Longrightarrow> P s' \<Longrightarrow> \<exists>t'. elem' f i t = Inr t' \<and> R s' t'"
  shows "\<exists>t'. walk pad' elem' flds t = Inr t' \<and> R s' t'"
proof -
  let ?step = "\<lambda>pad elem f s. if is_padding f then pad f s else foldE (elem f) (indices f) s"
  have closed: "P s" if "?step pad elem f s = Inr s'" "P s'" for f s s'
    using that foldE_back [of "elem f" "indices f" s s' P] pad_closed elem_closed by (cases "is_padding f") auto
  have sim: "\<exists>t'. ?step pad' elem' f t = Inr t' \<and> R s' t'" if "R s t" "?step pad elem f s = Inr s'" "P s'" for f s s' t
  proof (cases "is_padding f")
    case True
    with that pad_sim show ?thesis by simp
  next
    case False
    with that(2) have "foldE (elem f) (indices f) s = Inr s'" by simp
    from foldE_sim_back [where P = P and R = R and g = "elem' f", OF this that(1,3)] elem_closed elem_sim
    have "\<exists>t'. foldE (elem' f) (indices f) t = Inr t' \<and> R s' t'" by blast
    with False show ?thesis by simp
  qed
  show ?thesis
    using foldE_sim_back [where P = P and R = R and g = "?step pad' elem'", OF assms(1) [unfolded walk_def] assms(2,3)]
      closed sim unfolding walk_def by blast
qed

section \<open>Decoding by the layout\<close>

text \<open>The scalar of a slot, and the slots a payload has a value for; an object of type \<open>bool\<close> holds 0 or 1.\<close>

definition slot_value :: "byte list \<Rightarrow> nat \<Rightarrow> slot \<Rightarrow> double" where
  "slot_value mem p = (\<lambda>(_, off, t). case read_scalar t mem (p + off) of Inr v \<Rightarrow> v | Inl _ \<Rightarrow> 0)"

lemma read_scalar_in:
  assumes "t \<noteq> OTHER" and "p + scalar_size t \<le> length mem" and "t = BOOL \<longrightarrow> mem ! p \<le> 1"
  obtains v where "read_scalar t mem p = Inr v"
proof -
  have u8: "rd_u8 mem p = Inr (mem ! p)" if "p + 1 \<le> length mem"
    using that by (auto simp: rd_le_def rd_def dec_le_def take_Suc hd_drop_conv_nth)
  have "\<exists>v. read_scalar t mem p = Inr v"
    using assms u8 by (cases t) (auto simp: rd_le_def rd_def)
  then show thesis using that by blast
qed

text \<open>The parser's state for a layout state, in a walk that began with the slots \<open>ls0\<close> at channel \<open>i0\<close>.\<close>

definition decoded ::
    "byte list \<Rightarrow> nat \<Rightarrow> nat \<Rightarrow> nat \<Rightarrow> channel list \<Rightarrow> slot list \<times> nat \<Rightarrow> walk_state \<Rightarrow> bool" where
  "decoded mem p k0 i0 dat = (\<lambda>(ls, n) (q, i, dt). k0 \<le> length ls \<and> q = p + n \<and> i = i0 + (length ls - k0) \<and>
     dt = fill dat i0 (map (slot_value mem p) (drop k0 ls)))"

definition in_range :: "byte list \<Rightarrow> nat \<Rightarrow> nat \<Rightarrow> nat \<Rightarrow> channel list \<Rightarrow> slot list \<times> nat \<Rightarrow> bool" where
  "in_range mem p k0 i0 dat = (\<lambda>(ls, n). p + n \<le> length mem \<and> i0 + (length ls - k0) \<le> length dat \<and>
     (\<forall>(_, off, t) \<in> set ls. t = BOOL \<longrightarrow> mem ! (p + off) \<le> 1))"

lemma in_range_extends: "extends s s' \<Longrightarrow> in_range mem p k0 i0 dat s' \<Longrightarrow> in_range mem p k0 i0 dat s"
  by (auto simp: extends_def in_range_def split: prod.splits) (metis UnI1)+

lemma slot_elem_decoded:
  assumes R: "decoded mem p k0 i0 dat s t" and step: "slot_elem (layout d F) F prefix f i s = Inr s'"
    and P: "in_range mem p k0 i0 dat s'"
    and rec: "\<And>flds prefix s t. layout d F flds prefix s = Inr s' \<Longrightarrow> decoded mem p k0 i0 dat s t \<Longrightarrow>
      \<exists>t'. parse_data_intl d F mem flds t = Inr t' \<and> decoded mem p k0 i0 dat s' t'"
  shows "\<exists>t'. intl_elem (parse_data_intl d F mem) F mem f t = Inr t' \<and> decoded mem p k0 i0 dat s' t'"
proof -
  obtain ls n where s: "s = (ls, n)" by fastforce
  obtain suffix where suffix: "element_suffix f i = Inr suffix"
    using step by (cases "element_suffix f i") (simp_all add: slot_elem_def s)
  let ?name = "prefix @ ''/'' @ field_name f @ suffix" and ?dt = "fill dat i0 (map (slot_value mem p) (drop k0 ls))"
  have t: "t = (p + n, i0 + (length ls - k0), ?dt)" and k0: "k0 \<le> length ls"
    using R by (auto simp: decoded_def s split: prod.splits)
  show ?thesis
  proof (cases "field_type f = OTHER")
    case False
    let ?slot = "(?name, n, field_type f)"
    have s': "s' = (ls @ [?slot], n + scalar_size (field_type f))"
      using step suffix False by (simp add: slot_elem_def s Let_def)
    have "p + n + scalar_size (field_type f) \<le> length mem" "field_type f = BOOL \<longrightarrow> mem ! (p + n) \<le> 1"
      "i0 + (length ls - k0) < length dat"
      using P k0 by (auto simp: in_range_def s' Suc_diff_le)
    with False obtain v where v: "read_scalar (field_type f) mem (p + n) = Inr v" using read_scalar_in by metis
    then have "slot_value mem p ?slot = v" by (simp add: slot_value_def)
    with v \<open>i0 + (length ls - k0) < length dat\<close> False k0 show ?thesis
      by (simp add: intl_elem_def t s' assign_at_def decoded_def fill_snoc Suc_diff_le add.assoc)
  next
    case True
    with step suffix obtain g where g: "F (other_type_id f) = Some g"
      and "layout d F (fmt_fields g) ?name (ls, n + 8) = Inr s'"
      by (cases "lookup_at F (other_type_id f)") (auto simp: slot_elem_def s Let_def lookup_at_Inr)
    moreover have "decoded mem p k0 i0 dat (ls, n + 8) (p + n + 8, i0 + (length ls - k0), ?dt)"
      using k0 by (simp add: decoded_def)
    ultimately obtain t' where "parse_data_intl d F mem (fmt_fields g) (p + n + 8, i0 + (length ls - k0), ?dt) = Inr t'"
      "decoded mem p k0 i0 dat s' t'" using rec by blast
    moreover have "extends (ls, n + 8) s'" using layout_extends \<open>layout d F (fmt_fields g) ?name (ls, n + 8) = Inr s'\<close> .
    then have "p + n + 8 \<le> length mem" using in_range_extends [OF _ P] by (fastforce simp: in_range_def)
    then have "adv mem (p + n) 8 = Inr (p + n + 8)" using adv_nat [of "p + n" 8 mem] by simp
    ultimately show ?thesis using True g by (simp add: intl_elem_def t lookup_at_def)
  qed
qed

lemma slot_pad_decoded:
  assumes "decoded mem p k0 i0 dat s t" and "slot_pad f s = Inr s'" and "in_range mem p k0 i0 dat s'"
  shows "\<exists>t'. intl_pad mem f t = Inr t' \<and> decoded mem p k0 i0 dat s' t'"
proof -
  obtain ls n where s: "s = (ls, n)" by fastforce
  with assms(2) have a: "0 \<le> array_size f" and s': "s' = (ls, n + nat (array_size f))"
    by (auto simp: slot_pad_def split: if_splits)
  then have "adv mem (p + n) (array_size f) = Inr (p + n + nat (array_size f))"
    using assms(3) adv_nat [of "p + n" "nat (array_size f)" mem] by (simp add: in_range_def add.assoc)
  then show ?thesis using assms(1) by (auto simp: decoded_def s s' intl_pad_def split: prod.splits)
qed

lemma layout_decoded:
  assumes "layout d F flds prefix s = Inr s'" and "decoded mem p k0 i0 dat s t" and "in_range mem p k0 i0 dat s'"
  shows "\<exists>t'. parse_data_intl d F mem flds t = Inr t' \<and> decoded mem p k0 i0 dat s' t'"
  using assms
proof (induction d arbitrary: flds prefix s s' t)
  case 0
  then show ?case by simp
next
  case (Suc d)
  let ?P = "in_range mem p k0 i0 dat" and ?R = "decoded mem p k0 i0 dat"
  let ?elem = "slot_elem (layout d F) F prefix"
  have closed: "?P u" if "extends u v" "?P v" for u v using in_range_extends that .
  have "\<exists>t'. walk (intl_pad mem) (\<lambda>f _. intl_elem (parse_data_intl d F mem) F mem f) flds t = Inr t' \<and> ?R s' t'"
  proof (rule walk_sim_back [where P = ?P and pad = slot_pad and elem = ?elem])
    show "walk slot_pad ?elem flds s = Inr s'" using Suc.prems(1) by simp
  next
    fix f u v
    assume "slot_pad f u = Inr v" "?P v"
    then show "?P u" using closed slot_pad_extends by blast
  next
    fix f i u v
    assume "?elem f i u = Inr v" "?P v"
    then show "?P u" using closed slot_elem_extends layout_extends by metis
  next
    fix f u v w
    assume "?R u w" "slot_pad f u = Inr v" "?P v"
    then show "\<exists>w'. intl_pad mem f w = Inr w' \<and> ?R v w'" by (rule slot_pad_decoded)
  next
    fix f i u v w
    assume "?R u w" "?elem f i u = Inr v" "?P v"
    then show "\<exists>w'. intl_elem (parse_data_intl d F mem) F mem f w = Inr w' \<and> ?R v w'"
      using slot_elem_decoded Suc.IH by blast
  qed (fact Suc.prems)+
  then show ?case by simp
qed

text \<open>The channels are named by the slots.\<close>

definition slot_channel :: "slot \<Rightarrow> channel" where
  "slot_channel s = (fst s, [])"

lemma layout_channels:
  "layout d F flds prefix s = Inr s' \<Longrightarrow>
   append_vector d F flds prefix (map slot_channel (fst s)) =
     Inr (map slot_channel (fst s'))"
proof (induction d arbitrary: flds prefix s s')
  case 0
  then show ?case by simp
next
  case (Suc d)
  let ?ch = "map slot_channel" and ?R = "\<lambda>s dat. dat = map slot_channel (fst s)"
  have "\<exists>dat. walk (\<lambda>f data. Inr data) (channel_elem (append_vector d F) F prefix) flds (?ch (fst s)) = Inr dat \<and> ?R s' dat"
  proof (rule walk_sim [where R = ?R and pad = slot_pad and elem = "slot_elem (layout d F) F prefix"])
    show "walk slot_pad (slot_elem (layout d F) F prefix) flds s = Inr s'" using Suc.prems by simp
    fix f u v and dat :: "channel list"
    assume "?R u dat" "slot_pad f u = Inr v"
    then show "\<exists>dat'. Inr dat = Inr dat' \<and> ?R v dat'" by (auto simp: slot_pad_def split: if_splits prod.splits)
  next
    fix f i u v and dat :: "channel list"
    assume R: "?R u dat" and step: "slot_elem (layout d F) F prefix f i u = Inr v"
    obtain ls n where u: "u = (ls, n)" by fastforce
    obtain suffix where suffix: "element_suffix f i = Inr suffix"
      using step by (cases "element_suffix f i") (simp_all add: slot_elem_def u)
    show "\<exists>dat'. channel_elem (append_vector d F) F prefix f i dat = Inr dat' \<and> ?R v dat'"
    proof (cases "field_type f = OTHER")
      case False
      with step suffix R show ?thesis by (auto simp: slot_elem_def channel_elem_def u Let_def slot_channel_def)
    next
      case True
      let ?name = "prefix @ ''/'' @ field_name f @ suffix"
      obtain g where g: "F (other_type_id f) = Some g" "layout d F (fmt_fields g) ?name (ls, n + 8) = Inr v"
        using step suffix True
        by (cases "lookup_at F (other_type_id f)") (auto simp: slot_elem_def u Let_def lookup_at_Inr)
      from Suc.IH [OF g(2)] suffix True R g(1) show ?thesis
        by (simp add: channel_elem_def u Let_def lookup_at_def)
    qed
  qed simp
  then show ?case by simp
qed

text \<open>A format that has a layout: what its walks do to a payload.\<close>

lemma layout_walks:
  assumes layout: "layout d F flds [] ([], 0) = Inr (slots, n)" and room: "p + n \<le> length mem"
    and bools: "\<forall>(_, off, t) \<in> set slots. t = BOOL \<longrightarrow> mem ! (p + off) \<le> 1"
  shows "append_vector d F flds [] [] = Inr (map slot_channel slots)"
    and "parse_data_intl d F mem flds (p, 0, map slot_channel slots) =
      Inr (p + n, length slots, map (\<lambda>s. (fst s, [slot_value mem p s])) slots)"
    and "sorted_wrt (\<lambda>(_, o1, t1) (_, o2, _). o1 + scalar_size t1 \<le> o2) slots"
    and "\<forall>(_, off, t) \<in> set slots. off + scalar_size t \<le> n"
proof -
  let ?dat = "map slot_channel slots"
  show "append_vector d F flds [] [] = Inr ?dat" using layout_channels [OF layout] by simp
  have "decoded mem p 0 0 ?dat ([], 0) (p, 0, ?dat)" by (simp add: decoded_def)
  moreover have "in_range mem p 0 0 ?dat (slots, n)" using room bools by (simp add: in_range_def)
  ultimately obtain t where "parse_data_intl d F mem flds (p, 0, ?dat) = Inr t" "decoded mem p 0 0 ?dat (slots, n) t"
    using layout_decoded [OF layout] by blast
  then show "parse_data_intl d F mem flds (p, 0, ?dat) = Inr (p + n, length slots, map (\<lambda>s. (fst s, [slot_value mem p s])) slots)"
    by (auto simp: decoded_def fill_all zip_map_map zip_same_conv_map slot_channel_def split: prod.splits)
  have "extends ([], 0) (slots, n)" using layout_extends [OF layout] .
  then have "slots_ok (slots, n)" by (simp add: extends_def slots_ok_def)
  then show "sorted_wrt (\<lambda>(_, o1, t1) (_, o2, _). o1 + scalar_size t1 \<le> o2) slots"
    "\<forall>(_, off, t) \<in> set slots. off + scalar_size t \<le> n"
    by (auto simp: slots_ok_def)
qed

end
