(* ===== verification/Parser_Claims.thy ===== *)
theory Parser_Claims
  imports Roundtrip Layout
begin

text \<open>
  Properties of the parser: what it keeps and in which order it moves, that the two walks
  over a format agree, what it decodes exactly, and the inputs it answers with a crash, with
  another instance's name or with the wrong value.
\<close>

section \<open>State\<close>

text \<open>C10. However the parser is called, as long as it does not abort its maps stay consistent: no
  subscriptions or series before the first data message, formats under their own names,
  every subscription under its own id and tied to the format of its name if that was known,
  and every series with one time and one value per channel, the channels being those some
  known format describes.\<close>

theorem parser_invariant:
  assumes "foldE (parse_call stk) calls new_parser = Inr ps"
  shows "parser_ok stk ps"
  using parser_ok_new assms by (rule parser_machine.run_inv)

lemma open_stream_run:
  "foldE (parse_call stk) [(header_message t, 0), (flags_message, 0)] new_parser =
   Inr (new_parser\<lparr>start_time := t, p_state := STATE_DEFINITION\<rparr>)"
  using parse_header_message [OF stored_self, of new_parser stk t]
    parse_flags_message [OF stored_self, of "new_parser\<lparr>start_time := t, p_state := STATE_FLAGS\<rparr>" stk]
  by (simp add: new_parser_def parse_call_def)

theorem parser_invariant_witness:
  "parser_ok 1 (new_parser\<lparr>start_time := 5, p_state := STATE_DEFINITION\<rparr>)"
  by (rule parser_invariant [OF open_stream_run])

lemma calls_mono: "parser_ok stk ps \<Longrightarrow> foldE (parse_call stk) calls ps = Inr ps' \<Longrightarrow> p_state ps \<le> p_state ps'"
proof (induction calls arbitrary: ps)
  case Nil
  then show ?case by simp
next
  case (Cons c calls)
  then obtain ps1 where "parse_call stk c ps = Inr ps1" "foldE (parse_call stk) calls ps1 = Inr ps'"
    by (auto simp: bindE_eq_Inr)
  moreover from this have "parser_ok stk ps1 \<and> p_state ps \<le> p_state ps1"
    using Cons.prems(1) parse_step_ok by (auto simp: parse_call_Inr)
  ultimately show ?case using Cons.IH [of ps1] by auto
qed

text \<open>C21. The parser only moves forward, from the header over the flags and the definitions to the
  data, and once a message made it invalid nothing changes it any more.\<close>

theorem parser_moves_forward:
  assumes "parser_ok stk ps" and "foldE (parse_call stk) calls ps = Inr ps'"
  shows "state_rank (p_state ps) \<le> state_rank (p_state ps') \<and> (p_state ps = STATE_INVALID \<longrightarrow> ps' = ps)"
  using calls_mono [OF assms] calls_invalid [of ps stk calls] assms(2)
  by (auto simp: less_eq_parse_state_def)

theorem parser_moves_forward_witness:
  "state_rank (p_state new_parser) \<le>
   state_rank (p_state (new_parser\<lparr>start_time := 5, p_state := STATE_DEFINITION\<rparr>))"
  using parser_moves_forward [OF parser_ok_new open_stream_run [of 1 5]] by blast

text \<open>A file that does not start with the magic bytes is not answered with \<open>false\<close>: the parser
  asserts the state that follows a good header, so it aborts.\<close>

theorem bad_header_aborts:
  assumes "p_state ps = STATE_HEADER" and "rd mem p 7 = Inr m" and "m \<noteq> ulog_magic"
  shows "parse stk mem p ps = Inl Abort"
  using assms by (simp add: parse_def parse_header_def read_from_def ULogFileHeader_def assertE_def)

theorem bad_header_aborts_witness: "parse 1 (replicate 16 0) 0 new_parser = Inl Abort"
proof (rule bad_header_aborts)
  show "p_state new_parser = STATE_HEADER" by (simp add: new_parser_def)
  show "rd (replicate 16 0) 0 7 = Inr (replicate 7 0)" by (simp add: rd_def)
  have "hd (replicate 7 0) \<noteq> hd ulog_magic" by (simp add: ulog_magic_def byte_of_char_def)
  then show "replicate 7 0 \<noteq> ulog_magic" by metis
qed

section \<open>Channels and values\<close>

text \<open>C20. The walk that decodes a payload and the walk that made the channels of its series agree:
  when a first message is decoded, every channel has got exactly one value, in order, and
  the index is past the last channel.\<close>

theorem walks_agree:
  assumes "create_timeseries stk F fmt = Inr ts"
    and "parse_data_intl stk F mem (fmt_fields fmt) (p, 0, ts_data ts) = Inr (p', i', dat')"
  shows "\<exists>vs. length vs = length (ts_data ts) \<and> i' = length vs \<and>
    dat' = zip (map fst (ts_data ts)) (map (\<lambda>v. [v]) vs)"
proof -
  from assms(1) have cs: "append_vector stk F (fmt_fields fmt) [] [] = Inr (ts_data ts)"
    by (auto simp: create_timeseries_def bindE_eq_Inr)
  obtain vs where "leaf_count stk F (fmt_fields fmt) 0 = Inr (0 + length vs)"
    "walked (p, 0, ts_data ts) (p', i', dat') vs"
    using parse_data_intl_leaves [OF assms(2)] by blast
  moreover from this have "length vs = length (ts_data ts)"
    using append_vector_empty [OF cs, of 0] by simp
  ultimately show ?thesis by (intro exI [of _ vs]) (auto simp: walked_def fill_all)
qed

definition byte_format :: format where
  "byte_format = \<lparr>fmt_name = ''T'', fmt_fields =
     [\<lparr>field_type = UINT8, field_name = ''a'', other_type_id = [], array_size = 1\<rparr>], fmt_padding = 0\<rparr>"

lemma byte_format_walks:
  "create_timeseries 1 F byte_format = Inr \<lparr>timestamps = [], ts_data = [(''/a'', [])]\<rparr>"
  "parse_data_intl 1 F [7] (fmt_fields byte_format) (0, 0, [(''/a'', [])]) =
     Inr (1, 1, [(''/a'', [double_of_int 7])])"
  by (simp_all add: byte_format_def create_timeseries_def walk_def indices_def is_padding_def starts_with_def
      channel_elem_def element_suffix_def intl_elem_def rd_le_def rd_def dec_le_def assign_at_def)

theorem walks_agree_witness:
  "\<exists>vs. length vs = 1 \<and> 1 = length vs \<and> [(''/a'', [double_of_int 7])] = zip [''/a''] (map (\<lambda>v. [v]) vs)"
  using walks_agree [OF byte_format_walks(1), where mem = "[7]" and p = 0 and p' = 1 and i' = 1
      and dat' = "[(''/a'', [double_of_int 7])]"] byte_format_walks(2)
  by simp

text \<open>C18. Formats are typed: one that has a layout - every custom type in it is known, the nesting
  fits the stack, no padding is negative - never goes wrong. Its channels are the slots of the layout, and on every
  payload that has the size of the layout, with proper bools, the parser ends at that size and has read
  each channel at the offset and with the type of its slot; the slots do not overlap.\<close>

theorem layout_sound:
  assumes "layout stk F (fmt_fields fmt) [] ([], 0) = Inr (slots, n)" and "p + n \<le> length mem"
    and "\<forall>(_, off, t) \<in> set slots. t = BOOL \<longrightarrow> mem ! (p + off) \<le> 1"
  shows "create_timeseries stk F fmt = Inr \<lparr>timestamps = [], ts_data = map slot_channel slots\<rparr> \<and>
    parse_data_intl stk F mem (fmt_fields fmt) (p, 0, map slot_channel slots) =
      Inr (p + n, length slots, map (\<lambda>s. (fst s, [slot_value mem p s])) slots) \<and>
    sorted_wrt (\<lambda>(_, o1, t1) (_, o2, _). o1 + scalar_size t1 \<le> o2) slots \<and>
    (\<forall>(_, off, t) \<in> set slots. off + scalar_size t \<le> n)"
  using layout_walks [OF assms] by (simp add: create_timeseries_def)

text \<open>A format with padding, an array and a field of another type.\<close>

definition pair_field :: "format_type \<Rightarrow> string \<Rightarrow> string \<Rightarrow> int \<Rightarrow> field" where
  "pair_field t name other n = \<lparr>field_type = t, field_name = name, other_type_id = other, array_size = n\<rparr>"

definition outer_format :: format where
  "outer_format = \<lparr>fmt_name = ''O'', fmt_fields =
     [pair_field UINT16 ''x'' [] 1, pair_field UINT8 ''_padding0'' [] 2, pair_field OTHER ''in'' ''T'' 2], fmt_padding = 0\<rparr>"

lemma outer_layout:
  "layout (Suc (Suc 0)) [''T'' \<mapsto> byte_format] (fmt_fields outer_format) [] ([], 0) =
     Inr ([(''/x'', 0, UINT16), (''/in.00/a'', 12, UINT8), (''/in.01/a'', 21, UINT8)], 22)"
  by (simp add: outer_format_def pair_field_def byte_format_def walk_def indices_def upt_rec is_padding_def starts_with_def
      slot_elem_def slot_pad_def element_suffix_def dot_02d_def pad_left_def dec_nat_def digits_in.simps digit_chars
      lookup_at_def)

theorem layout_sound_witness:
  "parse_data_intl (Suc (Suc 0)) [''T'' \<mapsto> byte_format] (map word_of_nat [0..<22]) (fmt_fields outer_format)
     (0, 0, [(''/x'', []), (''/in.00/a'', []), (''/in.01/a'', [])]) =
   Inr (22, 3, [(''/x'', [double_of_int 256]), (''/in.00/a'', [double_of_int 12]), (''/in.01/a'', [double_of_int 21])])"
proof -
  have "slot_value (map word_of_nat [0..<22]) 0 (''/x'', 0, UINT16) = double_of_int 256"
    "slot_value (map word_of_nat [0..<22]) 0 (''/in.00/a'', 12, UINT8) = double_of_int 12"
    "slot_value (map word_of_nat [0..<22]) 0 (''/in.01/a'', 21, UINT8) = double_of_int 21"
    by (simp_all add: slot_value_def rd_le_def rd_def dec_le_def upt_rec)
  then show ?thesis
    using layout_sound [OF outer_layout, of 0 "map word_of_nat [0..<22]"] by (simp add: slot_channel_def)
qed

text \<open>What an integer field of a payload means.\<close>

fun integer_at :: "format_type \<Rightarrow> byte list \<Rightarrow> nat \<Rightarrow> int res" where
  "integer_at UINT8 mem p = bindE (rd_u8 mem p) (\<lambda>w. Inr (uint w))"
| "integer_at INT8 mem p = bindE (rd_u8 mem p) (\<lambda>w. Inr (sint w))"
| "integer_at UINT16 mem p = bindE (rd_u16 mem p) (\<lambda>w. Inr (uint w))"
| "integer_at INT16 mem p = bindE (rd_u16 mem p) (\<lambda>w. Inr (sint w))"
| "integer_at UINT32 mem p = bindE (rd_u32 mem p) (\<lambda>w. Inr (uint w))"
| "integer_at INT32 mem p = bindE (rd_u32 mem p) (\<lambda>w. Inr (sint w))"
| "integer_at UINT64 mem p = bindE (rd_u64 mem p) (\<lambda>w. Inr (uint w))"
| "integer_at INT64 mem p = bindE (rd_u64 mem p) (\<lambda>w. Inr (sint w))"
| "integer_at CHAR_T mem p = bindE (rd_u8 mem p) (\<lambda>w. Inr (sint w))"
| "integer_at BOOL mem p = bindE (rd_u8 mem p) (\<lambda>w. Inr (uint w))"
| "integer_at _ mem p = Inl Undefined"

text \<open>The \<open>double\<close> the handler gets for an integer field is that integer, for every type of at
  most 32 bits and for 64-bit values below \<open>2^53\<close>.\<close>

theorem integer_fields_exact:
  assumes "integer_at t mem p = Inr i" and "\<bar>i\<bar> < 2 ^ 53" and "read_scalar t mem p = Inr v"
  shows "fp_value (decode_double v) = Some (of_int i)"
  using assms double_of_int_exact by (cases t) (auto simp: bindE_eq_Inr)

theorem integer_fields_exact_witness: "fp_value (decode_double (double_of_int (- 2))) = Some (of_int (- 2))"
  by (rule integer_fields_exact [of INT8 "[254]" 0])
    (simp_all add: rd_le_def rd_def dec_le_def)

section \<open>Where the parser goes wrong\<close>

text \<open>C28. A second instance of a type is never subscribed: its id is the one of the type, the map keeps
  the subscription of the first instance, and its data reach the handler under the name of
  the first instance, \<open>name.00\<close>.\<close>

theorem second_instance_takes_first_name:
  assumes mem: "stored mem p (frame 65 ([inst] @ enc_le 2 mid @ bytes_of name) @
                              frame 68 (enc_le 2 mid @ enc_le 8 t @ payload))"
    and inst: "inst \<noteq> 0" and len: "length name \<le> 255" and acc: "accepting ps"
    and sub: "subscriptions ps mid = Some (new_sub ps mid 0 name)" and fmt: "formats_map ps name = Some fmt"
    and conf: "conf_fields d (formats_map ps) (fmt_fields fmt) payload vs"
    and cs: "append_vector (Suc d) (formats_map ps) (fmt_fields fmt) [] [] = Inr cs"
    and old: "\<forall>ts. timeseries_map ps (name @ ''.00'') = Some ts \<longrightarrow> map fst (ts_data ts) = map fst cs"
  shows "\<exists>ps'. parse (Suc d) mem p ps = Inr (ps', True) \<and> subscriptions ps' mid = Some (new_sub ps mid 0 name) \<and>
    data_calls ps' = data_calls ps @
      [\<lparr>md_name = name @ ''.00'', md_timestamp = t, structured_data = zip (map fst cs) vs\<rparr>]"
proof -
  let ?ps = "added mid inst name ps"
  note p = parse_store_data [OF mem len acc]
  have sub': "subscriptions ?ps mid = Some (new_sub ps mid 0 name)" using sub by (simp add: added_def)
  have "name \<in> with_multi_id ?ps" using inst by (simp add: added_def word_neq_0_conv)
  then have nm: "series_name ?ps (new_sub ps mid 0 name) = Inr (name @ ''.00'')"
    by (simp add: series_name_def new_sub_def dot_00)
  have known: "sub_format (new_sub ps mid 0 name) = Some name" using fmt by (auto simp: new_sub_def)
  have eqs: "formats_map ?ps = formats_map ps" "timeseries_map ?ps = timeseries_map ps"
    "data_calls ?ps = data_calls ps" by (simp_all add: added_def)
  obtain ts where "parse_data_message (Suc d) mem (p + 9 + length name) ?ps =
      Inr (?ps\<lparr>timeseries_map := (timeseries_map ?ps)(name @ ''.00'' \<mapsto> ts),
               data_calls := data_calls ?ps @ [\<lparr>md_name = name @ ''.00'', md_timestamp = t,
                                              structured_data = zip (map fst cs) vs\<rparr>]\<rparr>,
           STATE_DEFINITION_OR_DATA)"
    using parse_data_frame [OF p(2) sub' known _ nm, of fmt d vs cs] fmt conf cs old unfolding eqs by metis
  with p(1) [of "Suc d"] sub' show ?thesis by (simp add: eqs)
qed

definition one_format :: parser where
  "one_format = new_parser\<lparr>p_state := STATE_DEFINITION_OR_DATA, formats_map := [''T'' \<mapsto> byte_format]\<rparr>"

lemma byte_format_conf: "conf_fields 0 F (fmt_fields byte_format) [7] [double_of_int 7]"
proof -
  let ?f = "\<lparr>field_type = UINT8, field_name = ''a'', other_type_id = [], array_size = 1\<rparr>"
  have "conf_elems 0 F ?f 1 ([7] @ []) (double_of_int 7 # [])"
    using conf_scalar [of ?f "[7]" "double_of_int 7" 0 F 0 "[]" "[]"]
    by (simp add: conf_none rd_le_def rd_def dec_le_def)
  then have "conf_fields 0 F (?f # []) ([7] @ []) ([double_of_int 7] @ [])"
    by (intro conf_field conf_nil) (simp_all add: is_padding_def starts_with_def)
  then show ?thesis by (simp add: byte_format_def)
qed

lemma byte_format_channels: "append_vector (Suc 0) F (fmt_fields byte_format) [] [] = Inr [(''/a'', [])]"
  using byte_format_walks(1) [of F] by (auto simp: create_timeseries_def bindE_eq_Inr simp del: append_vector.simps)

theorem second_instance_takes_first_name_witness:
  "\<exists>ps'. parse (Suc 0) (frame 65 ([1] @ enc_le 2 (0 :: 16 word) @ bytes_of ''T'') @
                        frame 68 (enc_le 2 (0 :: 16 word) @ enc_le 8 (5 :: 64 word) @ [7])) 0
       (one_format\<lparr>subscriptions := [0 \<mapsto> new_sub one_format 0 0 ''T'']\<rparr>) = Inr (ps', True) \<and>
     subscriptions ps' 0 = Some (new_sub one_format 0 0 ''T'') \<and>
     data_calls ps' = data_calls one_format @
       [\<lparr>md_name = ''T'' @ ''.00'', md_timestamp = 5, structured_data = [(''/a'', double_of_int 7)]\<rparr>]"
proof -
  let ?ps = "one_format\<lparr>subscriptions := [0 \<mapsto> new_sub one_format 0 0 ''T'']\<rparr>"
  have "accepting ?ps" "subscriptions ?ps 0 = Some (new_sub ?ps 0 0 ''T'')"
    "formats_map ?ps ''T'' = Some byte_format" "new_sub ?ps 0 0 ''T'' = new_sub one_format 0 0 ''T''"
    "timeseries_map ?ps (''T'' @ ''.00'') = None" "data_calls ?ps = data_calls one_format"
    by (simp_all add: accepting_def one_format_def new_sub_def new_parser_def)
  then show ?thesis
    using second_instance_takes_first_name [OF stored_self, of 1 "''T''" ?ps 0 byte_format 0 "[7]" "[double_of_int 7]"
        "[(''/a'', [])]" 5] byte_format_conf byte_format_channels
    by (simp del: append_vector.simps)
qed



text \<open>C36. Data of a type whose format was never registered make the parser follow a null pointer.\<close>

theorem unknown_type_undefined:
  assumes mem: "stored mem p (frame 65 ([inst] @ enc_le 2 mid @ bytes_of name) @
                              frame 68 (enc_le 2 mid @ enc_le 8 (t :: 64 word) @ payload))"
    and len: "length name \<le> 255" and acc: "accepting ps" and sub: "subscriptions ps mid = None"
    and fmt: "formats_map ps name = None" and multi: "name \<notin> with_multi_id ps" "inst = 0"
  shows "parse stk mem p ps = Inl Undefined"
proof -
  let ?ps = "added mid inst name ps"
  note p = parse_store_data [OF mem len acc]
  have sub': "subscriptions ?ps mid = Some (new_sub ps mid inst name)" using sub by (simp add: added_def)
  have nm: "series_name ?ps (new_sub ps mid inst name) = Inr name"
    using multi by (simp add: series_name_def new_sub_def added_def)
  have none: "sub_format (new_sub ps mid inst name) = None" using fmt by (auto simp: new_sub_def)
  have "stored mem (p + 9 + length name) (enc_le 2 mid)" "stored mem (p + 9 + length name + 2) (enc_le 8 t)"
    using p(2) unfolding stored_append by simp_all
  then have "rd_u16 mem (p + 9 + length name) = Inr mid" "rd_u64 mem (p + 9 + length name + 2) = Inr t"
    by (auto intro: stored_le)
  then have "parse_data_message stk mem (p + 9 + length name) ?ps = Inl Undefined"
    unfolding parse_data_message_def
    by (simp add: sub' nm none deref_format_def split: option.split)
  with p(1) [of stk] show ?thesis by simp
qed

theorem unknown_type_undefined_witness:
  "parse 1 (frame 65 ([0] @ enc_le 2 (3 :: 16 word) @ bytes_of ''U'') @
            frame 68 (enc_le 2 (3 :: 16 word) @ enc_le 8 (5 :: 64 word) @ [7])) 0 one_format = Inl Undefined"
  by (rule unknown_type_undefined [OF stored_self]) (simp_all add: accepting_def one_format_def new_parser_def)





text \<open>C34. \<open>check_ulog_valid\<close> parses the data message behind an A message twice, once with the A message
  and once by itself, so the data handler is called twice with the same record.\<close>

theorem check_ulog_valid_delivers_twice:
  assumes mem: "stored mem p (frame 65 ([0] @ enc_le 2 mid @ bytes_of name) @
                              frame 68 (enc_le 2 mid @ enc_le 8 t @ payload))"
    and len: "length name \<le> 255" and acc: "accepting ps" and sub: "subscriptions ps mid = None"
    and fmt: "formats_map ps name = Some fmt" and multi: "name \<notin> with_multi_id ps"
    and conf: "conf_fields d (formats_map ps) (fmt_fields fmt) payload vs"
    and cs: "append_vector (Suc d) (formats_map ps) (fmt_fields fmt) [] [] = Inr cs"
    and new: "timeseries_map ps name = None"
  shows "\<exists>ps'. check_ulog_valid (Suc d) mem p ps = Inr (ps', True) \<and>
    data_calls ps' = data_calls ps @
      replicate 2 \<lparr>md_name = name, md_timestamp = t, structured_data = zip (map fst cs) vs\<rparr>"
proof -
  let ?sub = "new_sub ps mid 0 name"
    and ?md = "\<lparr>md_name = name, md_timestamp = t, structured_data = zip (map fst cs) vs\<rparr>"
  define ps0 where "ps0 = added mid 0 name ps"
  note p = parse_store_data [OF mem len acc]
  have eqs: "formats_map ps0 = formats_map ps" "timeseries_map ps0 = timeseries_map ps"
    "data_calls ps0 = data_calls ps" "subscriptions ps0 mid = Some ?sub" "with_multi_id ps0 = with_multi_id ps"
    using sub by (simp_all add: ps0_def added_def)
  have nm: "series_name ps0 ?sub = Inr name" using multi eqs by (simp add: series_name_def new_sub_def)
  have known: "sub_format ?sub = Some name" using fmt by (auto simp: new_sub_def)
  have old: "map fst (ts_data ts) = map fst cs" if "timeseries_map ps0 name = Some ts" for ts
    using that new eqs by simp
  obtain ts where ts: "ts_data ts = zip (map fst cs) (map (\<lambda>v. [v]) vs)" and one:
    "parse_data_message (Suc d) mem (p + 9 + length name) ps0 =
      Inr (ps0\<lparr>timeseries_map := (timeseries_map ps0)(name \<mapsto> ts), data_calls := data_calls ps0 @ [?md]\<rparr>,
           STATE_DEFINITION_OR_DATA)"
    using parse_data_frame [OF p(2) eqs(4) known _ nm _ _ old] fmt conf cs unfolding eqs(1) by metis
  define ps1 where "ps1 = ps0\<lparr>timeseries_map := (timeseries_map ps0)(name \<mapsto> ts),
      data_calls := data_calls ps0 @ [?md], p_state := STATE_DEFINITION_OR_DATA\<rparr>"
  have first: "parse (Suc d) mem p ps = Inr (ps1, True)" using p(1) [of "Suc d"] one by (simp add: ps0_def ps1_def)
  have eqs1: "formats_map ps1 = formats_map ps" "subscriptions ps1 mid = Some ?sub"
    "data_calls ps1 = data_calls ps @ [?md]" "timeseries_map ps1 name = Some ts" by (simp_all add: ps1_def eqs)
  have nm1: "series_name ps1 ?sub = Inr name" using nm by (simp add: series_name_def ps1_def)
  have "length vs = length cs"
    using conf_fields_leaves [OF conf, of 0] append_vector_empty [OF cs, of 0] by simp
  then have old1: "map fst (ts_data u) = map fst cs" if "timeseries_map ps1 name = Some u" for u
    using that eqs1(4) ts by simp
  obtain u where two: "parse_data_message (Suc d) mem (p + 9 + length name) ps1 =
      Inr (ps1\<lparr>timeseries_map := (timeseries_map ps1)(name \<mapsto> u), data_calls := data_calls ps1 @ [?md]\<rparr>,
           STATE_DEFINITION_OR_DATA)"
    using parse_data_frame [OF p(2) eqs1(2) known _ nm1 _ _ old1] fmt conf cs unfolding eqs1(1) by metis
  have a: "stored mem p (frame 65 ([0] @ enc_le 2 mid @ bytes_of name))"
    and dm: "stored mem (p + (6 + length name)) (frame 68 (enc_le 2 mid @ enc_le 8 t @ payload))"
    using mem unfolding stored_append by simp_all
  have sz: "unat (word_of_nat (length ([0] @ enc_le 2 mid @ bytes_of name)) :: 16 word) = 3 + length name"
    using len by (subst unat_of_nat) simp
  have at: "p + 3 + (3 + length name) = p + (6 + length name)" "p + (6 + length name) + 3 = p + 9 + length name"
    by simp_all
  have "parse (Suc d) mem (p + 3 + (3 + length name)) ps1 =
      Inr (ps1\<lparr>timeseries_map := (timeseries_map ps1)(name \<mapsto> u), data_calls := data_calls ps1 @ [?md],
             p_state := STATE_DEFINITION_OR_DATA\<rparr>, True)"
    unfolding at using stored_frame(1,2) [OF dm] two [folded at(2)]
    by (simp add: parse_def parse_data_def ps1_def Let_def)
  then show ?thesis
    using first stored_frame(1,2) [OF a] sz eqs1(3)
    by (simp add: check_ulog_valid_def check_ulog_data_begin_def numeral_2_eq_2)
qed

theorem check_ulog_valid_delivers_twice_witness:
  "\<exists>ps'. check_ulog_valid (Suc 0) (frame 65 ([0] @ enc_le 2 (0 :: 16 word) @ bytes_of ''T'') @
                        frame 68 (enc_le 2 (0 :: 16 word) @ enc_le 8 (5 :: 64 word) @ [7])) 0 one_format = Inr (ps', True) \<and>
    data_calls ps' = data_calls one_format @
      replicate 2 \<lparr>md_name = ''T'', md_timestamp = 5, structured_data = [(''/a'', double_of_int 7)]\<rparr>"
proof -
  have "accepting one_format" "subscriptions one_format 0 = None" "''T'' \<notin> with_multi_id one_format"
    "formats_map one_format ''T'' = Some byte_format" "timeseries_map one_format ''T'' = None"
    by (simp_all add: accepting_def one_format_def new_parser_def)
  then show ?thesis
    using check_ulog_valid_delivers_twice [OF stored_self, of "''T''" one_format 0 byte_format 0 "[7]"
        "[double_of_int 7]" "[(''/a'', [])]" 5] byte_format_conf byte_format_channels
    by (simp del: append_vector.simps)
qed

text \<open>The tokeniser splits at every delimiter and at nothing else: no token holds it, and the
  tokens, each with a delimiter behind it, give the text back but for a missing last one.\<close>

theorem split_string_tokens:
  "(\<forall>w \<in> set (split_string s d). d \<notin> set w) \<and>
   concat (map (\<lambda>w. w @ [d]) (split_string s d)) = (if s = [] \<or> last s = d then s else s @ [d])"
  using split_string_clean split_string_join by blast

theorem split_string_tokens_witness:
  "concat (map (\<lambda>w. w @ '' '') (split_string ''int32_t  p'' (CHR '' ''))) = ''int32_t  p ''"
  using split_string_tokens [of "''int32_t  p''" "CHR '' ''"] by simp

end
