(* ===== verification/Telemetry_Limits.thy ===== *)
theory Telemetry_Limits
  imports Telemetry_Props
begin

text \<open>
  Ids and sizes: what the application can rely on, and the inputs at which a width, a buffer
  or an order it does not check ends that.
\<close>

section \<open>Ids\<close>

text \<open>Two message types have different ids, however often and in whatever order they are used,
  as long as no more than 65536 types are.\<close>

theorem type_ids_distinct:
  fixes g :: "16 word id_gen"
  assumes "g = get_all ns new_id_gen" and "card (set ns) \<le> 65536"
    and "m \<in> set ns" and "n \<in> set ns" and "m \<noteq> n"
  shows "fst (get_id m g) \<noteq> fst (get_id n g)"
  unfolding assms(1) using assms(2-5) by (intro get_all_distinct) simp_all

theorem type_ids_distinct_witness:
  "fst (get_id ''A'' (get_all [''A'', ''B'', ''A''] (new_id_gen :: 16 word id_gen))) \<noteq>
   fst (get_id ''B'' (get_all [''A'', ''B'', ''A''] (new_id_gen :: 16 word id_gen)))"
proof (rule type_ids_distinct [OF refl])
  have "card (set [''A'', ''B'', ''A'']) \<le> length [''A'', ''B'', ''A'']" by (rule card_length)
  then show "card (set [''A'', ''B'', ''A'']) \<le> 65536" by simp
qed simp_all

text \<open>The counter of the instances of a type is one byte: the name that is the 257th to be seen
  gets the id of the first, and nothing reports it.\<close>

theorem instance_ids_wrap:
  fixes g :: "8 word id_gen"
  assumes "g = get_all (first # ns) new_id_gen" and "distinct (n # first # ns)" and "length (first # ns) = 256"
  shows "fst (get_id n g) = fst (get_id first g)"
proof -
  have dom: "dom (ids g) = set (first # ns)" unfolding assms(1) dom_get_all by (simp add: new_id_gen_def)
  have "card (dom (ids g)) = 2 ^ LENGTH(8)" unfolding dom using assms(2,3) distinct_card [of "first # ns"] by simp
  moreover have "ids g n = None" using dom assms(2) by (auto simp: domIff)
  moreover have "id_gen_ok g" unfolding assms(1) by (rule get_all_ok [OF id_gen_ok_new])
  ultimately have "fst (get_id n g) = 0" by (intro get_id_wraps)
  moreover have "ids g first = Some 0"
    unfolding assms(1) get_all_eq_multi msg_ids.alloc_all.simps multi_ids.alloc_all.simps
    by (rule multi_ids.alloc_all_stable) (simp add: get_id_def new_id_gen_def)
  ultimately show ?thesis by (simp add: get_id_laws(3))
qed

definition names_256 :: "string list" where
  "names_256 = map (\<lambda>k. replicate k (CHR ''x'')) [2..<257]"

lemma names_256:
  "distinct names_256" "''x'' \<notin> set names_256" "[] \<notin> set names_256" "length names_256 = 255"
proof -
  have "inj (\<lambda>k. replicate k (CHR ''x''))"
    by (rule injI) (metis length_replicate)
  then show "distinct names_256"
    unfolding names_256_def distinct_map by (meson distinct_upt inj_on_subset subset_UNIV)
  show "length names_256 = 255" unfolding names_256_def length_map length_upt by simp
  have "2 \<le> length w" if "w \<in> set names_256" for w
    using that unfolding names_256_def set_map set_upt by auto
  then show "''x'' \<notin> set names_256" "[] \<notin> set names_256" by force+
qed

theorem instance_ids_wrap_witness:
  "fst (get_id [] (get_all (''x'' # names_256) (new_id_gen :: 8 word id_gen))) =
   fst (get_id ''x'' (get_all (''x'' # names_256) (new_id_gen :: 8 word id_gen)))"
  by (rule instance_ids_wrap [OF refl]) (simp_all add: names_256)

text \<open>Using other types in between does not change the id of a type.\<close>

theorem type_id_stable:
  fixes g :: "16 word id_gen"
  shows "fst (get_id n (get_all ns (snd (get_id n g)))) = fst (get_id n g)"
  unfolding get_all_eq_msg by (rule msg_ids.alloc_then_stable)

section \<open>Sizes\<close>

text \<open>C25. Whatever the application calls, every message that is queued has a header and at most 1766
  bytes, below the 4096 the logger asserts; and the two queues get the same messages, each
  as far as it is enabled.\<close>

theorem queued_messages_sized:
  assumes Q: "conc_queue Q content" and run: "foldE (api_run Q) cs mt = Inr mt'"
  shows "\<exists>bs. (\<forall>m \<in> set bs. 3 \<le> length m \<and> length m \<le> 1766) \<and>
    content (log_queue mt') = content (log_queue mt) @ (if with_local_log mt then bs else []) \<and>
    content (net_queue mt') = content (net_queue mt) @ (if with_network mt then bs else [])"
proof -
  have "grew content mt mt'"
  proof (rule foldE_invariant [OF run, of "grew content mt", OF grew_refl])
    show "grew content mt t" if "grew content mt s" "api_run Q c s = Inr t" for c s t
    proof -
      from that(2) obtain b where "api_step Q c s = Inr (b, t)" by (auto simp: api_run_def bindE_eq_Inr)
      then have "grew content s t" by (rule conc_queue.grew_api [OF Q])
      with that(1) show ?thesis by (rule grew_trans)
    qed
  qed
  then show ?thesis by (auto simp: grew_def sized_def)
qed

definition logging_mt :: "byte list list mu_telemetry" where
  "logging_mt = (new_mu_telemetry [])\<lparr>with_local_log := True\<rparr>"

lemma logging_mt [simp]: "with_local_log logging_mt" "is_enabled logging_mt" "start_timestamp logging_mt = 0"
    "with_network logging_mt = False" "log_queue logging_mt = []" "net_queue logging_mt = []"
  by (simp_all add: logging_mt_def new_mu_telemetry_def is_enabled_def)

theorem queued_messages_sized_witness:
  "\<exists>bs. (\<forall>m \<in> set bs. 3 \<le> length m \<and> length m \<le> 1766) \<and>
    log_queue (to_io list_queue (frame 76 ([6] @ enc_le 8 (5 :: 64 word) @ bytes_of ''x'')) logging_mt) = [] @ bs"
proof -
  have "foldE (api_run list_queue) [Store_Message ''x'' Info 5] logging_mt =
      Inr (to_io list_queue (frame 76 ([6] @ enc_le 8 (5 :: 64 word) @ bytes_of ''x'')) logging_mt)"
    by (simp add: api_run_def store_message_def log_message_eq c_str_id NUL_def)
  from queued_messages_sized [OF fifo.conc_queue_axioms this] show ?thesis by auto
qed

text \<open>C38. The length of a key is kept in one byte. An information value whose key text has 256
  characters is queued with an empty key and reported as registered, and the parser, which
  takes the second token of the key, then reads past the end of its tokens.\<close>

theorem long_info_key_lost:
  assumes Q: "conc_queue Q content" and log: "with_local_log mt" and acc: "accepting ps"
    and len: "length (info_key key val) = 256" "length val < 255"
  shows "\<exists>mt' bs. register_info Q key val mt = Inr (True, mt') \<and>
    content (log_queue mt') = content (log_queue mt) @ [bs] \<and> parse stk bs 0 ps = Inl Undefined"
proof -
  let ?bs = "frame 73 ([0] @ bytes_of val)"
  have wrap: "word_of_nat 256 = (0 :: byte)" by code_simp
  have "keyed_frame 73 [] (info_key key val) (bytes_of val) = ?bs"
    unfolding keyed_frame_def len(1) wrap by simp
  then have "register_info Q key val mt = Inr (True, to_io Q ?bs mt)"
    using log len by (simp add: register_info_def is_enabled_def info_message_eq)
  moreover have "parse stk ?bs 0 ps = Inl Undefined"
  proof -
    note f = stored_frame [OF stored_self, of 73 "[0] @ bytes_of val"]
    have "stored ?bs (0 + 3) [0]" using f(3) unfolding stored_append by blast
    then have "rd_u8 ?bs (0 + 3) = Inr 0" by (rule stored_byte)
    then have "parse_info ?bs (0 + 3) sz ps = Inl Undefined" for sz
      by (simp add: parse_info_def std_string_def rd_def Let_def index_op_def)
    with f(1,2) acc show ?thesis
      by (auto simp: accepting_def parse_def parse_definition_def parse_data_def Let_def)
  qed
  ultimately show ?thesis using conc_queue.to_io_content [OF Q] log by auto
qed

definition long_key :: string where
  "long_key = replicate 248 (CHR ''k'')"

theorem long_info_key_lost_witness:
  "\<exists>mt' bs. register_info list_queue long_key ''v'' logging_mt = Inr (True, mt') \<and>
    log_queue mt' = log_queue logging_mt @ [bs] \<and>
    parse 1 bs 0 (new_parser\<lparr>p_state := STATE_DEFINITION\<rparr>) = Inl Undefined"
proof (rule long_info_key_lost [OF fifo.conc_queue_axioms])
  have "c_str long_key = long_key" by (rule c_str_id) (simp add: long_key_def NUL_def)
  then show "length (info_key long_key ''v'') = 256"
    by (simp add: info_key_def dec_nat_def digits_in.simps long_key_def)
qed (simp_all add: accepting_def)

text \<open>A format text of more than 1500 characters is written past the end of the message.\<close>

theorem long_format_undefined:
  assumes "is_enabled mt" and "NUL \<notin> set (format_text name flds)" and "1500 < length (format_text name flds)"
  shows "register_data_format Q name flds mt = Inl Undefined"
  using assms by (simp add: register_data_format_def format_message_eq)

theorem long_format_undefined_witness:
  "register_data_format list_queue ''T'' (replicate 1500 (CHR ''f'')) logging_mt = Inl Undefined"
  by (rule long_format_undefined) (simp_all add: format_text_def NUL_def)

text \<open>Data shorter than a time stamp, and a type name that does not fit its array, are not refused:
  the copy goes out of bounds.\<close>

theorem short_data_undefined:
  assumes "is_enabled mt" and "length dt < 8 \<or> (255 < length name \<and> length dt \<le> 1500)"
  shows "store_data Q dt name ann now mt = Inl Undefined"
  using assms by (auto simp: store_data_def store_data_intl_ids data_message_eq)

theorem short_data_undefined_witness:
  "store_data list_queue [1, 2, 3] ''T'' [] 5 logging_mt = Inl Undefined"
  by (rule short_data_undefined) simp_all

text \<open>\<open>init\<close> called as the README shows, without a roster, follows the null pointer that is its
  default argument.\<close>

theorem init_without_roster:
  assumes "start_timestamp mt = 0"
  shows "init Q date config opens now False rt mt = Inl Undefined"
  using assms by (simp add: init_def)

theorem init_without_roster_witness:
  "init list_queue (\<lambda>_. []) None True 5 False True logging_mt = Inl Undefined"
  by (rule init_without_roster) simp

text \<open>C39. The application can store a string before its first data and register a format after it; both
  messages are queued in that order, and either makes the parser invalid for good.\<close>

theorem order_not_accepted:
  assumes log: "log_message msg level t = Inr l" and fmt: "format_message name flds = Inr f"
    and "NUL \<notin> set (format_text name flds)"
    and st: "p_state ps1 = STATE_DEFINITION" "p_state ps2 = STATE_DEFINITION_OR_DATA"
  shows "parse stk l 0 ps1 = Inr (ps1\<lparr>p_state := STATE_INVALID\<rparr>, False) \<and>
    parse stk f 0 ps2 = Inr (ps2\<lparr>p_state := STATE_INVALID\<rparr>, False)"
proof -
  obtain lb where l: "l = frame 76 lb" using log by (auto simp: log_message_eq split: if_splits)
  obtain fb where f: "f = frame 70 fb" using fmt assms(3) by (auto simp: format_message_eq split: if_splits)
  show ?thesis
    unfolding l f using st stored_frame(1,2) [OF stored_self, of 76 lb] stored_frame(1,2) [OF stored_self, of 70 fb]
    by (simp add: parse_def parse_definition_def parse_data_def Let_def)
qed

theorem order_not_accepted_witness:
  "parse 1 (frame 76 ([6] @ enc_le 8 (5 :: 64 word) @ bytes_of ''x'')) 0 (new_parser\<lparr>p_state := STATE_DEFINITION\<rparr>) =
     Inr (new_parser\<lparr>p_state := STATE_INVALID\<rparr>, False)"
proof -
  have "log_message ''x'' Info 5 = Inr (frame 76 ([6] @ enc_le 8 (5 :: 64 word) @ bytes_of ''x''))"
    by (simp add: log_message_eq c_str_id NUL_def)
  moreover have nul: "NUL \<notin> set (format_text ''T'' [])" by (simp add: format_text_def NUL_def)
  moreover have "format_message ''T'' [] = Inr (frame 70 (bytes_of (butlast (format_text ''T'' [])) @ [0]))"
    unfolding format_message_eq [OF nul] by (simp add: format_text_def)
  ultimately show ?thesis
    using order_not_accepted [of "''x''" Info 5 _ "''T''" "[]" _ "new_parser\<lparr>p_state := STATE_DEFINITION\<rparr>"
        "new_parser\<lparr>p_state := STATE_DEFINITION_OR_DATA\<rparr>" 1]
    by simp
qed

text \<open>A \<open>float\<close> parameter is read back with its bits.\<close>

lemma register_param_float_read_back:
  assumes Q: "conc_queue Q content" and log: "with_local_log mt" and acc: "accepting ps"
    and name: "NUL \<notin> set name" "length name < 245"
  shows "\<exists>mt' bs. register_param_float Q (''float '' @ name) v mt = Inr (True, mt') \<and>
     content (log_queue mt') = content (log_queue mt) @ [bs] \<and>
     parse stk bs 0 ps =
       Inr (ps\<lparr>parameters := parameters ps @ [\<lparr>param_name = name, param_bits = v, param_type = FLOAT\<rparr>]\<rparr>, True)"
proof -
  let ?key = "''float'' @ CHR '' '' # name"
  have "NUL \<notin> set ?key" using name(1) by (auto simp: NUL_def)
  then have "param_message (''float '' @ name) (enc_le 4 v) = Inr (keyed_frame 80 [] ?key (enc_le 4 v))"
    using name(2) c_str_id [of ?key] by (simp add: param_message_eq)
  then have "register_param_float Q (''float '' @ name) v mt = Inr (True, to_io Q (keyed_frame 80 [] ?key (enc_le 4 v)) mt)"
    using log by (simp add: register_param_float_def is_enabled_def)
  moreover have "parse stk (keyed_frame 80 [] ?key (enc_le 4 v)) 0 ps =
       Inr (ps\<lparr>parameters := parameters ps @ [\<lparr>param_name = name, param_bits = v, param_type = FLOAT\<rparr>]\<rparr>, True)"
    using name(2) acc by (intro parse_param_key [OF stored_self]) simp_all
  ultimately show ?thesis using conc_queue.to_io_content [OF Q] log by auto
qed

end
