(* ===== verification/Logger_Loop2.thy ===== *)
theory Logger_Loop2
  imports Logger_Props
begin

text \<open>
  \<open>main_loop2\<close>, the loop of the logger that \<open>start\<close> would post if the other branch of its
  \<open>#if\<close> were taken. It does not return, does not look at \<open>running_\<close>, and where \<open>main_loop\<close>
  gives up it sleeps and goes on. A list of ticks is a list of iterations.
\<close>

definition loop2_body :: "'q cq_ops \<Rightarrow> tick \<Rightarrow> logger \<Rightarrow> 'q \<Rightarrow> (logger \<times> 'q) res" where
  "loop2_body Q t lg q =
     (let q = fold (cq_enqueue Q) (arrived t) q in
      bindE (deref (lg_queue lg)) (\<lambda>_.
      bindE (deref (curr_idx lg)) (\<lambda>io_idx.
      bindE (pool_get lg io_idx) (\<lambda>b.
      if cq_empty Q q then
        if can_start_io (t_now t) b then
          if \<not> locks t then Inr (lg, q)
          else
            bindE (swap_current (cas_ok t) io_idx lg) (\<lambda>r.
            case r of
              None \<Rightarrow> Inr (lg, q)
            | Some lg \<Rightarrow> bindE (start_io_worker (io_out t) io_idx True lg) (\<lambda>lg. Inr (lg, q)))
        else Inr (lg, q)
      else if is_full b then
        if \<not> locks t then Inr (lg, q)
        else
          bindE (swap_current (cas_ok t) io_idx lg) (\<lambda>r.
          case r of
            None \<Rightarrow> Inr (lg, q)
          | Some lg \<Rightarrow>
              bindE (start_io_worker (io_out t) io_idx False lg) (\<lambda>lg.
              bindE (deref (curr_idx lg)) (\<lambda>io_idx.
              bindE (take_one Q t io_idx lg q) (\<lambda>(_, lg, q). Inr (lg, q)))))
      else bindE (take_one Q t io_idx lg q) (\<lambda>(_, lg, q). Inr (lg, q))))))"

definition main_loop2 :: "'q cq_ops \<Rightarrow> tick list \<Rightarrow> logger \<Rightarrow> 'q \<Rightarrow> (logger \<times> 'q) res" where
  "main_loop2 Q ts lg q = foldE (\<lambda>t (lg, q). loop2_body Q t lg q) ts (lg, q)"

text \<open>An iteration is one of \<open>main_loop\<close>, with the periodic write where that one ends its loop.\<close>

lemma take_one_again: "take_one Q t i lg q = Inr (e, lg', q') \<Longrightarrow> e = Again"
  by (auto simp: take_one_def res_simps split: prod.splits option.splits)

lemma loop2_body_eq:
  assumes "curr_idx lg = Some i" and "i < length (mem_pool lg)"
  shows "loop2_body Q t lg q =
    bindE (loop_body Q t lg q) (\<lambda>(e, lg, q).
      if e = Drained then bindE (write_old t lg) (\<lambda>lg. Inr (lg, q)) else Inr (lg, q))"
proof -
  define K where "K = (\<lambda>(e, lg, q).
    if e = Drained then bindE (write_old t lg) (\<lambda>lg. Inr (lg, q)) else Inr (lg, q :: 'a))"
  have get: "deref (curr_idx lg) = Inr i" "pool_get lg i = Inr (mem_pool lg ! i)"
    using assms by (simp_all add: deref_def pool_get_def)
  have K: "K (Again, l, r) = Inr (l, r)" "K (Return, l, r) = Inr (l, r)"
    "K (Drained, lg, r) =
      (if can_start_io (t_now t) (mem_pool lg ! i) then
         if \<not> locks t then Inr (lg, r)
         else
           bindE (swap_current (cas_ok t) i lg) (\<lambda>x.
           case x of
             None \<Rightarrow> Inr (lg, r)
           | Some lg \<Rightarrow> bindE (start_io_worker (io_out t) i True lg) (\<lambda>lg. Inr (lg, r)))
       else Inr (lg, r))" for l r
    by (simp_all add: K_def write_old_def get bindE_assoc cong: bindE_cong)
      (cases "swap_current (cas_ok t) i lg"; simp split: option.splits)
  have take: "bindE (take_one Q t j k r) (\<lambda>(_, y). Inr y) = bindE (take_one Q t j k r) K" for j k r
    using take_one_again [of Q t j k r] by (cases "take_one Q t j k r") (auto simp: K)
  show ?thesis
    unfolding K_def [symmetric] loop2_body_def loop_body_def Let_def get bindE_simps
    by (cases "deref (lg_queue lg)"; cases "swap_current (cas_ok t) i lg")
      (simp_all add: K take bindE_assoc split: option.splits)
qed

context conc_queue
begin

lemma loop2_body_ok:
  assumes ok: "logger_ok lg" and t: "tick_ok t" and small: "\<forall>bs \<in> set (content q). length bs \<le> max_data_size"
  obtains lg' q' where "loop2_body Q t lg q = Inr (lg', q')" and "logger_ok lg'"
    and "\<forall>bs \<in> set (content q'). length bs \<le> max_data_size"
    and "log_stream lg' (content q') = log_stream lg (content q @ arrived t)"
proof -
  obtain i where "pool_ok lg i" using ok by (auto simp: logger_ok_def)
  note body = loop2_body_eq [OF pool_ok_curr [OF this] pool_ok_index [THEN conjunct1, OF this], of Q t q]
  obtain e lg1 q1 where one: "loop_body Q t lg q = Inr (e, lg1, q1)" "logger_ok lg1"
    "\<forall>bs \<in> set (content q1). length bs \<le> max_data_size"
    "log_stream lg1 (content q1) = log_stream lg (content q @ arrived t)"
    using loop_body_ok [OF ok t small] by metis
  show thesis
  proof (cases "e = Drained")
    case True
    obtain lg2 where "write_old t lg1 = Inr lg2" "logger_ok lg2"
      "log_stream lg2 (content q1) = log_stream lg1 (content q1)"
      using write_old_ok [OF one(2) t] by metis
    with True one body show thesis by (intro that [of lg2 q1]) simp_all
  next
    case False
    with one body show thesis by (intro that [of lg1 q1]) simp_all
  qed
qed

lemma main_loop2_ok:
  assumes "logger_ok lg" and "\<forall>t \<in> set ts. tick_ok t" and "\<forall>bs \<in> set (content q). length bs \<le> max_data_size"
  shows "\<exists>lg' q'. main_loop2 Q ts lg q = Inr (lg', q') \<and> logger_ok lg' \<and>
    log_stream lg' (content q') = log_stream lg (content q @ arrivals ts)"
  using assms
proof (induction ts arbitrary: lg q)
  case Nil
  then show ?case by (simp add: main_loop2_def arrivals_def)
next
  case (Cons t ts)
  have "tick_ok t" using Cons.prems(2) by simp
  then obtain lg1 q1 where one: "loop2_body Q t lg q = Inr (lg1, q1)" "logger_ok lg1"
    "\<forall>bs \<in> set (content q1). length bs \<le> max_data_size"
    "log_stream lg1 (content q1) = log_stream lg (content q @ arrived t)"
    using loop2_body_ok [OF Cons.prems(1) _ Cons.prems(3)] by metis
  then obtain lg' q' where "main_loop2 Q ts lg1 q1 = Inr (lg', q')" "logger_ok lg'"
    "log_stream lg' (content q') = log_stream lg1 (content q1 @ arrivals ts)"
    using Cons.IH [of lg1 q1] Cons.prems(2) by auto
  with one(1,4) show ?case by (simp add: main_loop2_def arrivals_def log_stream_def)
qed

end

end
