(* ===== verification/Logger_Claims.thy ===== *)
theory Logger_Claims
  imports Logger_Loop2
begin

text \<open>
  Properties of the logger: nothing is lost on the way to the file, buffers stay within
  twice their nominal size, the destructor writes the rest, and what a failing write does.
\<close>

text \<open>C11. One call of the logger's loop loses, doubles and reorders nothing, whatever locks and
  exchanges fail and whatever arrives meanwhile: the bytes in the file, then those in the
  current buffer, then those in the queue are the ones there were before, followed by what
  arrived; no assertion fails, and the logger is again in good order.\<close>

theorem main_loop_conserves:
  assumes Q: "conc_queue Q content" and ok: "logger_ok lg" and ts: "\<forall>t \<in> set ts. tick_ok t" and t: "tick_ok t"
    and small: "\<forall>bs \<in> set (content q). length bs \<le> max_data_size"
  shows "\<exists>e lg' q' k. main_loop Q ts t lg q = Inr (e, lg', q') \<and> logger_ok lg' \<and> k \<le> length ts \<and>
    f_bytes (out lg') @ pending lg' @ concat (content q') =
    f_bytes (out lg) @ pending lg @ concat (content q) @ concat (arrivals (take k ts))"
proof -
  obtain e lg' q' k where "main_loop Q ts t lg q = Inr (e, lg', q')" "logger_ok lg'" "k \<le> length ts"
    "log_stream lg' (content q') = log_stream lg (content q @ arrivals (take k ts))"
    using conc_queue.main_loop_ok [OF Q ok ts t small] by metis
  then show ?thesis by (auto simp: log_stream_def)
qed

text \<open>A logger that was just set up, and an iteration with everything granted.\<close>

definition ready_logger :: logger where
  "ready_logger = start_logger (snd (init_logger True ''log.ulg'' (Some Log_Queue) new_logger))"

definition calm_tick :: "byte list list \<Rightarrow> int \<Rightarrow> tick" where
  "calm_tick ms time = \<lparr>arrived = ms, locks = True, cas_ok = True, t_now = time, io_out = \<lparr>device = None, flushes = True\<rparr>\<rparr>"

lemma ready_logger_ok: "logger_ok ready_logger"
proof -
  have eq: "ready_logger = new_logger\<lparr>lg_filename := ''log.ulg'', out := open_file True, lg_queue := Some Log_Queue,
      lg_running := True\<rparr>"
    by (simp add: ready_logger_def init_logger_def start_logger_def Let_def open_file_def new_logger_def)
  show ?thesis unfolding eq logger_ok_def using pool_ok_new by (auto simp: open_file_def)
qed

lemma ready_logger_fields [simp]:
  "lg_running ready_logger" "lg_queue ready_logger = Some Log_Queue" "curr_idx ready_logger = Some 0"
  "out ready_logger = open_file True" "mem_pool ready_logger = replicate 8 new_data_buffer"
  by (simp_all add: ready_logger_def init_logger_def start_logger_def Let_def open_file_def new_logger_def)

lemma calm_tick_ok: "\<forall>bs \<in> set ms. length bs \<le> max_data_size \<Longrightarrow> tick_ok (calm_tick ms time)"
  by (simp add: tick_ok_def calm_tick_def)

theorem main_loop_conserves_witness:
  "\<exists>e lg' q' k. main_loop list_queue [calm_tick [[3]] 0, calm_tick [] 0] (calm_tick [] 0) ready_logger [[1, 2]] =
      Inr (e, lg', q') \<and> logger_ok lg' \<and> k \<le> length [calm_tick [[3]] 0, calm_tick [] 0] \<and>
    f_bytes (out lg') @ pending lg' @ concat q' =
    f_bytes (out ready_logger) @ pending ready_logger @ concat [[1, 2]] @
      concat (arrivals (take k [calm_tick [[3]] 0, calm_tick [] 0]))"
  by (rule main_loop_conserves [OF fifo.conc_queue_axioms ready_logger_ok])
    (simp_all add: calm_tick_ok max_data_size_def)

text \<open>C26. When the lock and the exchange are won every time, one call of the loop empties the queue, if
  it is given one iteration more than there are messages, those that arrive included.\<close>

theorem main_loop_drains:
  assumes Q: "conc_queue Q content" and ok: "logger_ok lg" and run: "lg_running lg"
    and ts: "\<forall>t \<in> set ts. tick_ok t \<and> locks t \<and> cas_ok t" and t: "tick_ok t"
    and small: "\<forall>bs \<in> set (content q). length bs \<le> max_data_size"
    and enough: "length (content q @ arrivals ts) < length ts"
  shows "\<exists>lg' q'. main_loop Q ts t lg q = Inr (Return, lg', q') \<and> content q' = []"
proof -
  have "\<forall>t \<in> set ts. tick_ok t" "\<forall>t \<in> set ts. locks t \<and> cas_ok t" using ts by auto
  then show ?thesis
    using conc_queue.main_loop_ok [OF Q ok _ t small] run enough by metis
qed

theorem main_loop_drains_witness:
  "\<exists>lg' q'. main_loop list_queue [calm_tick [] 0, calm_tick [] 0] (calm_tick [] 0) ready_logger [[1, 2]] =
     Inr (Return, lg', q') \<and> q' = []"
  by (rule main_loop_drains [OF fifo.conc_queue_axioms ready_logger_ok])
    (simp_all add: calm_tick_ok max_data_size_def arrivals_def, simp_all add: calm_tick_def)



text \<open>C27. However the loop runs, it leaves eight buffers of which none holds 8192 bytes or more, one
  message above the nominal 4096; each is marked full exactly from 4096 on and counts its
  bytes right, and every buffer on the stack of the free ones is empty and not the current one.\<close>

theorem buffers_bounded:
  assumes Q: "conc_queue Q content" and ok: "logger_ok lg" and ts: "\<forall>t \<in> set ts. tick_ok t" and t: "tick_ok t"
    and small: "\<forall>bs \<in> set (content q). length bs \<le> max_data_size"
    and run: "main_loop Q ts t lg q = Inr (e, lg', q')"
  shows "length (mem_pool lg') = 8 \<and>
    (\<forall>b \<in> set (mem_pool lg'). data_size b = length (buffer_data b) \<and> (is_full b \<longleftrightarrow> 4096 \<le> data_size b) \<and>
       data_size b < 8192) \<and>
    (\<exists>i. curr_idx lg' = Some i \<and> distinct (i # pool_stack lg') \<and> set (i # pool_stack lg') = {..<8}) \<and>
    (\<forall>j \<in> set (pool_stack lg'). buffer_data (mem_pool lg' ! j) = [])"
proof -
  have "logger_ok lg'" using conc_queue.main_loop_ok [OF Q ok ts t small] run by auto
  then obtain i where i: "pool_ok lg' i" by (auto simp: logger_ok_def)
  have sz: "data_size b = length (buffer_data b)" "is_full b \<longleftrightarrow> 4096 \<le> data_size b" "data_size b < 8192"
    if "b \<in> set (mem_pool lg')" for b
    using that i by (auto simp: pool_ok_def buffer_ok_def max_data_size_def)
  have "buffer_data (mem_pool lg' ! j) = []" if "j \<in> set (pool_stack lg')" for j
  proof -
    have "j < length (mem_pool lg')" "data_size (mem_pool lg' ! j) = 0" using that i by (auto simp: pool_ok_def)
    then show ?thesis using sz(1) [of "mem_pool lg' ! j"] by simp
  qed
  then show ?thesis using i sz by (auto simp: pool_ok_def)
qed

theorem buffers_bounded_witness:
  "\<exists>e lg' q'. main_loop list_queue [calm_tick [[3]] 0] (calm_tick [] 0) ready_logger [[1, 2]] = Inr (e, lg', q') \<and>
     length (mem_pool lg') = 8 \<and> (\<forall>b \<in> set (mem_pool lg'). data_size b < 8192)"
proof -
  have ms: "\<forall>t \<in> set [calm_tick [[3]] 0]. tick_ok t" "tick_ok (calm_tick [] 0)"
    "\<forall>bs \<in> set [[1, 2]]. length (bs :: byte list) \<le> max_data_size"
    by (simp_all add: calm_tick_ok max_data_size_def)
  obtain e lg' q' where run: "main_loop list_queue [calm_tick [[3]] 0] (calm_tick [] 0) ready_logger [[1, 2]] = Inr (e, lg', q')"
    using conc_queue.main_loop_ok [OF fifo.conc_queue_axioms ready_logger_ok ms(1,2), of "[[1, 2]]"] ms(3) by metis
  show ?thesis
    using buffers_bounded [OF fifo.conc_queue_axioms ready_logger_ok ms(1,2) _ run] ms(3) run by auto
qed

text \<open>The destructor writes what is left in the current buffer and closes the file.\<close>

theorem destructor_writes_rest:
  assumes "logger_ok lg" and "device io = None" and "flushes io"
  shows "\<exists>lg'. destroy io lg = Inr lg' \<and> f_bytes (out lg') = f_bytes (out lg) @ pending lg \<and>
    f_flushed (out lg') = length (f_bytes (out lg')) \<and> \<not> f_open (out lg') \<and> \<not> lg_running lg'"
  using destroy_ok [OF assms(1,2)] assms(3) by metis

theorem destructor_writes_rest_witness:
  "\<exists>lg'. destroy \<lparr>device = None, flushes = True\<rparr> ready_logger = Inr lg' \<and>
    f_bytes (out lg') = f_bytes (out ready_logger) @ pending ready_logger \<and>
    f_flushed (out lg') = length (f_bytes (out lg')) \<and> \<not> f_open (out lg') \<and> \<not> lg_running lg'"
  by (rule destructor_writes_rest [OF ready_logger_ok]) simp_all

text \<open>C33. A failed write ends in a null dereference. Releasing the logger clears its queue pointer but
  does not stop it: when the write was that of the periodic flush the next call of the loop
  crashes, and when it was that of a full buffer the same call does.\<close>

theorem write_error_crashes:
  assumes Q: "conc_queue Q content" and ok: "logger_ok lg" "lg_running lg" and curr: "curr_idx lg = Some i"
    and t: "locks t" "cas_ok t" "device (io_out t) = Some n"
  shows "(can_start_io (t_now t) (mem_pool lg ! i) \<longrightarrow>
            (\<exists>lg'. write_old t lg = Inr lg' \<and> main_loop Q (t1 # ts) t2 lg' q = Inl Undefined)) \<and>
         (is_full (mem_pool lg ! i) \<and> content q @ arrived t \<noteq> [] \<longrightarrow>
            main_loop Q (t # ts) t2 lg q = Inl Undefined)"
proof -
  have pool: "pool_ok lg i" using ok(1) curr pool_ok_curr by (metis logger_ok_def option.inject)
  have st: "lg_queue lg \<noteq> None" "f_open (out lg)" using ok by (simp_all add: logger_ok_def)
  have "\<exists>lg'. write_old t lg = Inr lg' \<and> main_loop Q (t1 # ts) t2 lg' q = Inl Undefined"
    if "can_start_io (t_now t) (mem_pool lg ! i)"
    using write_old_error [OF pool st(2) that t] main_loop_released ok(2) by metis
  moreover have "main_loop Q (t # ts) t2 lg q = Inl Undefined"
    if "is_full (mem_pool lg ! i)" "content q @ arrived t \<noteq> []"
    using conc_queue.loop_body_write_error [OF Q pool st that t] ok(2) by (simp add: main_loop_def)
  ultimately show ?thesis by blast
qed

text \<open>The first buffer holds one byte that is two seconds old.\<close>

definition old_byte_logger :: logger where
  "old_byte_logger = ready_logger\<lparr>mem_pool := (mem_pool ready_logger)[0 := snd (buffer_add 0 [7] new_data_buffer)]\<rparr>"

lemma old_byte_logger_ok: "logger_ok old_byte_logger"
proof -
  have "pool_ok ready_logger 0" using ready_logger_ok pool_ok_curr ready_logger_fields(3)
    by (metis logger_ok_def option.inject)
  then have "pool_ok old_byte_logger 0"
    using pool_ok_add [of ready_logger 0 "[7]" 0]
    by (simp add: old_byte_logger_def max_data_size_def) (simp add: new_data_buffer_def)
  then show ?thesis using ready_logger_ok by (auto simp: logger_ok_def old_byte_logger_def)
qed

theorem write_error_crashes_witness:
  "\<exists>lg'. write_old (\<lparr>arrived = [], locks = True, cas_ok = True, t_now = 2000000000,
                     io_out = \<lparr>device = Some 0, flushes = True\<rparr>\<rparr>) old_byte_logger = Inr lg' \<and>
     main_loop list_queue [calm_tick [] 0] (calm_tick [] 0) lg' [] = Inl Undefined"
proof -
  let ?t = "\<lparr>arrived = [], locks = True, cas_ok = True, t_now = 2000000000, io_out = \<lparr>device = Some 0, flushes = True\<rparr>\<rparr>"
  have "can_start_io (t_now ?t) (mem_pool old_byte_logger ! 0)"
    by (simp add: old_byte_logger_def can_start_io_def has_data_def)
      (simp add: buffer_add_def new_data_buffer_def has_data_def signed_divide_int_def max_data_size_def Let_def)
  moreover have "lg_running old_byte_logger" "curr_idx old_byte_logger = Some 0"
    by (simp_all add: old_byte_logger_def)
  ultimately show ?thesis
    using write_error_crashes [OF fifo.conc_queue_axioms old_byte_logger_ok, of 0 ?t 0 "calm_tick [] 0" "[]" "calm_tick [] 0" "[]"]
    by simp
qed

end
