(* ===== verification/Spec2Isabelle.thy ===== *)
theory Spec2Isabelle
  imports Samples Network_Claims Closed_Claims Callers_Claims Test_Claims Parser_Claims Telemetry_Claims Telemetry_Limits Logger_Claims Streamer_Claims
begin

text \<open>
  mutelemetry is a small C++ library with which the components of a drone write telemetry in
  the ULog format: an application registers parameters, information, formats and data types
  and stores records; every call becomes one framed message (two bytes of payload size, a type
  letter, the payload) that goes into a queue for the log file, a queue for the network, or
  both. A logger thread drains the first into a file; a streamer drains the second to a ground
  station over MAVLink, after a handshake that sends the definitions one by one until each is
  acknowledged; a parser of the same library reads such messages back. The theories model the
  code under \<open>src/src\<close> and \<open>src/include/mutelemetry\<close>, and the two programs under \<open>src/tests\<close>.

  Parts and theories, in the order they build on each other:

    \<^item> Prelude: the outcomes of a C++ call other than a value (\<open>cxx_error\<close>: an abort by \<open>assert\<close>
      or an uncaught exception, undefined behaviour, a full call stack), \<open>bindE\<close> to sequence fallible calls,
      \<open>foldE\<close> for loops, bytes and little-endian integers, reads in a buffer of known length,
      \<open>snprintf\<close>, \<open>memcpy\<close>, decimal digits; the locales \<open>wire_codec\<close> (a fixed-width
      encoding and its inverse) and \<open>guarded_machine\<close> (steps that keep an invariant).
    \<^item> Ulog: \<open>mutelemetry_ulog.h\<close>. One record per packed struct, \<open>image_*\<close> its bytes, \<open>new_*\<close> its
      constructor.
    \<^item> Messages: the bytes each sender of \<open>mutelemetry.cc\<close> puts together before \<open>to_io\<close>.
    \<^item> Id_Gen: the template \<open>ID\<close> of \<open>mutelemetry.h\<close>, with the locale \<open>id_allocator\<close>
      interpreted at the two widths the library uses (16 bits for types, 8 for instances).
    \<^item> Numbers: conversions to \<open>double\<close>, \<open>to_string\<close> of a float, \<open>int_to_hex\<close>; a \<open>double\<close> is its 64 bits.
    \<^item> Formats: \<open>Field\<close>, \<open>Format\<close>, \<open>split_string\<close> and the tokeniser of \<open>parse_format\<close>, with the text
      a format has (\<open>fields_text\<close>) as its specification; \<open>declares\<close> relates it to the texts that declare it, where an
      array of one element may be written with or without its length.
    \<^item> Timeseries: \<open>create_timeseries\<close>, \<open>get_latest_data\<close> and \<open>parse_data_intl\<close>, the two walks over a
      format that must name and fill the same channels; \<open>conf_fields\<close> is the payload grammar. Layout: the type of a
      format, \<open>layout\<close>: which scalar is where in its payloads.
    \<^item> Parser: the class \<open>MutelemetryParser\<close>: its state record \<open>parser\<close>, one definition per
      \<open>parse_*\<close> method, \<open>parse\<close> itself and \<open>mutelemetry_tools.cc\<close>.
    \<^item> Parser_Props: the invariant \<open>parser_ok\<close>, kept by every method; the order of the states
      (an instance of \<open>linorder\<close>); the interpretation of \<open>guarded_machine\<close> for runs of \<open>parse\<close>.
    \<^item> Roundtrip: what each message of Messages does to the parser.
    \<^item> Conc_Queue: the interface of the queue of muroute, as the locale \<open>conc_queue\<close>.
    \<^item> Logger, Logger_Props: \<open>MutelemetryLogger\<close> with its \<open>DataBuffer\<close>s, buffer pool and file; the invariant
      \<open>logger_ok\<close> and the byte stream \<open>log_stream\<close> that every iteration preserves. Logger_Loop2: the second
      loop, \<open>main_loop2\<close>, which the sources compile out.
    \<^item> Streamer, Streamer_System, Streamer_Props, Streamer_Calm, Streamer_Flow, Streamer_Loss, Streamer_Delivery:
      \<open>MutelemetryStreamer\<close>. Its methods are split where another thread can come in between a load of
      \<open>state_\<close> and the compare-and-exchange that depends on it; \<open>sys\<close> is the object with its
      threads, \<open>sys_step\<close> one event, a run any sequence of events. \<open>sys_ok\<close> holds on every run,
      \<open>sys_calm\<close> on runs whose handlers and loop turns are not cut in two; \<open>flow\<close> follows the
      messages of the queue through every run; the last two theories put schedules with lost and late
      acknowledgements and a whole delivery together from single turns (\<open>leads\<close>).
    \<^item> Telemetry, Telemetry_Props: \<open>MuTelemetry\<close>, the class the application uses; \<open>grew\<close> says what any
      call of its interface leaves in the queue, \<open>ids_ok\<close> what it keeps of the id generators.
    \<^item> Heard: what a log means, without bytes and queues. The step relation \<open>heard_as\<close> says how a call of
      the interface changes the abstract \<open>view\<close> a reader of the log has, for any numbering of types and instances; the
      simulation relates a view to the maps of the parser (\<open>hears_as\<close>). Session: one caller, whose ids follow from its calls
      (\<open>ids_track\<close>), so that the ways over the file and over the network refine the view.
    \<^item> Callers, Callers_Props, Callers_Run: many threads that call the interface at once. A call is cut between any two of its locks and
      between the two queues (\<open>caller_step\<close>); \<open>callers_ok\<close> holds on every run: ids stay (\<open>ids_le\<close>), and each queue has the
      calls of each thread in their order (\<open>merged\<close>).
    \<^item> Startup: what \<open>init\<close> leaves of a new object. Network: a session in the queue of the streamer, and the payloads at the
      ground station. Samples: a small application for concrete instances.
    \<^item> Client: the ground station of the repository, \<open>tests/mutelemetry_client.cc\<close>, its handlers and commands. Closed_Loop,
      Closed_Run, Closed_Session, Closed_Schedule, Closed_Connect: the streamer and the client together (\<open>world\<close>,
      \<open>world_step\<close>), over a network that loses, repeats and reorders; \<open>world_ok\<close> says what the client has received by the
      state of the streamer, \<open>waiting\<close> that no command was answered, both interpretations of \<open>guarded_machine\<close>.
    \<^item> Test_Types, Test_Formats, Test_Program, Test_Session: the test program \<open>tests/mutelemetry_test.cc\<close> with the types of
      \<open>tests/test_types.h\<close>: its serializers, the formats it declares and that they fit, what \<open>main\<close> registers, and its threads
      in any order, each call of the library one step; \<open>program_ok\<close> is the invariant of its runs.
    \<^item> Parser_Claims, Logger_Claims, Streamer_Claims, Telemetry_Claims, Telemetry_Limits, Network_Claims, Closed_Claims,
      Callers_Claims, Test_Claims and this theory: the properties, numbered in the order of their importance.

  How the parts interact. \<open>mu_telemetry\<close> holds the logger, the streamer and both queues; \<open>to_io\<close>
  enqueues into them, the logger's \<open>main_loop\<close> and the streamer's \<open>collect_step\<close>, \<open>stream_one\<close> and \<open>discard_step\<close>
  dequeue. A pointer to a queue is a \<open>queue_ptr\<close>, a \<open>DataBuffer *\<close> an index into the pool, a shared
  pointer to a format the key under which the map holds it, \<open>None\<close> the null pointer. The
  state of the singleton parser is passed explicitly.

  Parameters of the model, for code that is not in the sources: the queue (any structure that
  satisfies \<open>conc_queue\<close>, whose laws are those of a first-in first-out queue; \<open>list_queue\<close> shows they can
  hold), the configuration (\<open>muconfig\<close>), the date text in the log's name, the clock, what the device
  accepts, whether a lock or a weak exchange succeeds, the length \<open>fld\<close> of the data field of the MAVLink
  logging messages (249 in the dialect the sources use), and the bytes of an uninitialised
  buffer. Time, failures and arrivals from other threads are read from a list of \<open>tick\<close>s, one for
  each iteration of the logger's loop, and from the events of a run.

  Bounds and fuel. \<open>stk\<close> is the number of nested calls that fit on the stack in the recursion over
  nested formats; the theorems hold for every \<open>stk\<close>, \<open>recursive_format_overflows\<close> shows that
  a format nested in itself exceeds each, and \<open>store_data_delivers\<close> that the depth of the type is enough. The
  logger's loop runs for as many iterations as there are ticks and says \<open>Again\<close> when it is still
  running: \<open>main_loop_drains\<close> shows that one more than there are messages is enough. The streamer's data
  loop takes its count from the queue it was given (\<open>stream_loop_counts\<close>). Everything else is
  structural recursion or has a termination proof. Machine integers have their width
  everywhere; lengths of strings and containers are natural numbers, taken to be below \<open>2 ^ 31\<close>.

  Platform. LP64, little-endian, two's complement, unaligned loads permitted, \<open>char\<close> signed, IEEE 754;
  \<open>assert\<close> active; \<open>RELAXED_STATE_MACHINE\<close>, \<open>KEEP_DATA\<close>, \<open>USE_POST_FUNCTION_ON_IO\<close>
  and the \<open>CHECK_PARSE_VALIDITY\<close> macros undefined, as the build files leave them. The library catches
  no exception.

  What the groups of lemmas show. For the messages: sizes, frames and that the fields are found where the
  parser looks. For the parser: invariant, monotone states, exact round trips for well-formed input, and
  what malformed input does. For the logger: conservation of bytes and of buffers, progress, errors. For
  the streamer: order and completeness of the definitions on all runs, absence of aborts and progress on calm
  runs, and the schedules and inputs that abort. For the streamer with the client: exactly-once delivery of the definitions in order on
  every closed run, and that the client never learns that it is connected. For many threads: a call is its pieces, every call returns, the
  log means the calls in some order, and where the map of the instances is read without its mutex. For the whole: what the application stores is what
  the file holds and what a parser reads, from the file and at the ground station.

  Undefined behaviour. \<open>Undefined\<close> is also the outcome where a \<open>string_view\<close> is shortened by more
  than it has: the code then reads past the view, or walks on without an end and without an effect.

  Not modelled: the calls that register the table of handlers and construct routes (muroute), log output, the command lines of
  the two test programs, the handler of exceptions in the threads of the test program (nothing throws there) and the printing and comparison of its
  types (nothing calls them). The calls of the parser's callbacks are recorded; its two setters of
  callbacks are declared to return \<open>bool\<close> and have no return statement.
\<close>

section \<open>The whole way to the file\<close>

lemma get_ids_logger [simp]: "mt_logger (snd (get_ids n a mt)) = mt_logger mt"
  by (simp add: snd_get_ids get_msg_id_def get_multi_id_def Let_def split: prod.splits)

lemma sends_logger: "sends Q m mt = Inr (b, mt') \<Longrightarrow> mt_logger mt' = mt_logger mt"
  by (auto simp: sends_def bindE_eq_Inr)

lemma api_logger: "api_run Q c mt = Inr mt' \<Longrightarrow> mt_logger mt' = mt_logger mt"
  by (cases c) (auto simp: api_run_def bindE_eq_Inr register_param_int_def register_param_float_def
      register_info_def register_info_multi_def register_data_format_def store_message_def store_data_def
      store_data_intl_ids dest!: sends_logger split: if_splits)

text \<open>One call of the loop and the destructor write what the calls left in the queue.\<close>

lemma log_written:
  assumes Q: "conc_queue Q content" and q: "content q0 = []"
    and init: "init Q date config True now True rt (new_mu_telemetry q0) = Inr (b, mt)" and log: "with_local_log mt"
    and calls: "foldE (api_run Q) cs mt = Inr mt'"
    and ts: "\<forall>t \<in> set ts. tick_ok t \<and> locks t \<and> cas_ok t \<and> arrived t = []" and t: "tick_ok t"
    and enough: "length (content (log_queue mt')) < length ts"
    and io: "device io = None" "flushes io"
  shows "\<exists>bs lg q lg'. content (log_queue mt') = [header_message now, flags_message] @ bs \<and>
    main_loop Q ts t (mt_logger mt') (log_queue mt') = Inr (Return, lg, q) \<and> destroy io lg = Inr lg' \<and>
    f_bytes (out lg') = concat (content (log_queue mt')) \<and>
    f_flushed (out lg') = length (f_bytes (out lg')) \<and> \<not> f_open (out lg')"
proof -
  have on: "is_enabled mt" using log by (simp add: is_enabled_def)
  obtain name where q1: "content (log_queue mt) = [header_message now, flags_message]"
    and lg1: "mt_logger mt = start_logger (snd (init_logger True name (Some Log_Queue) new_logger))"
    using init_starts(1,5) [OF Q q init on] log by auto
  have grew: "grew content mt mt'"
    by (rule foldE_invariant [OF calls, of "grew content mt", OF grew_refl])
      (auto simp: api_run_def bindE_eq_Inr intro: grew_trans dest: conc_queue.grew_api [OF Q])
  have same: "mt_logger mt' = mt_logger mt"
    by (rule foldE_invariant [OF calls, of "\<lambda>m. mt_logger m = mt_logger mt"]) (auto dest: api_logger)
  from grew log q1 obtain bs where bs: "\<forall>m \<in> set bs. sized m"
    and content: "content (log_queue mt') = [header_message now, flags_message] @ bs"
    by (auto simp: grew_def)
  have small: "\<forall>m \<in> set (content (log_queue mt')). length m \<le> max_data_size"
    using bs sized_messages(1) [of now] sized_messages(2)
    by (auto simp: content sized_def max_data_size_def)
  note lg = init_logger_ready [of name, folded lg1 same]
  have none: "arrivals us = []" if "set us \<subseteq> set ts" for us
    using ts that by (auto simp: arrivals_def)
  have won: "\<forall>t \<in> set ts. tick_ok t" "\<forall>t \<in> set ts. locks t \<and> cas_ok t" using ts by auto
  have "length (content (log_queue mt') @ arrivals ts) < length ts" using enough none [of ts] by simp
  then obtain e lg2 q2 k where run: "main_loop Q ts t (mt_logger mt') (log_queue mt') = Inr (e, lg2, q2)"
    "logger_ok lg2" "e = Return \<and> content q2 = []"
    "log_stream lg2 (content q2) = log_stream (mt_logger mt') (content (log_queue mt') @ arrivals (take k ts))"
    using conc_queue.main_loop_ok [OF Q lg(1) won(1) t small] won(2) lg(2) by metis
  have "log_stream lg2 [] = concat (content (log_queue mt'))"
    using run(3,4) lg(3,4) none [of "take k ts"] by (simp add: log_stream_def set_take_subset)
  moreover obtain lg3 where "destroy io lg2 = Inr lg3" "f_bytes (out lg3) = f_bytes (out lg2) @ pending lg2"
    "\<not> f_open (out lg3)" "f_flushed (out lg3) = length (f_bytes (out lg3))"
    using destroy_ok [OF run(2) io(1)] io(2) by metis
  ultimately show ?thesis
    using content run(1,3) by (intro exI [of _ bs] exI [of _ lg2] exI [of _ q2] exI [of _ lg3]) (simp add: log_stream_def)
qed


text \<open>C1. From the application to the reader of the file. When an application uses a started log as
  the library expects - formats before records, records that conform to their format, texts that
  fit their messages - then every call succeeds, one call of the logger's loop and the destructor write the
  file, and the parser that is given the beginnings of the messages in that file learns what the
  application said: the start time, the formats, the parameters, the information, the strings
  with level and time, and every record with its series, its time and the value of each of its
  channels, all in the order of the calls.\<close>

theorem log_file_read_back:
  assumes Q: "conc_queue Q content" and q: "content q0 = []"
    and init: "init Q date config True now True rt (new_mu_telemetry q0) = Inr (b, mt)" and log: "with_local_log mt"
    and calls: "session d cs (empty_view now) v"
    and ts: "\<forall>t \<in> set ts. tick_ok t \<and> locks t \<and> cas_ok t \<and> arrived t = []" and t: "tick_ok t"
    and enough: "length cs + 2 < length ts"
    and io: "device io = None" "flushes io"
  shows "\<exists>mt' lg q lg' ps. foldE (api_run Q) cs mt = Inr mt' \<and>
    main_loop Q ts t (mt_logger mt') (log_queue mt') = Inr (Return, lg, q) \<and> destroy io lg = Inr lg' \<and>
    f_bytes (out lg') = concat (content (log_queue mt')) \<and>
    foldE (parse_call (Suc d)) (map (Pair (f_bytes (out lg'))) (offsets 0 (content (log_queue mt')))) new_parser = Inr ps \<and>
    p_state ps \<noteq> STATE_INVALID \<and> start_time ps = v_start v \<and> formats_map ps = v_formats v \<and>
    parameters ps = v_params v \<and> info ps = v_info v \<and> log_calls ps = v_logs v \<and> data_calls ps = v_data v"
proof -
  have on: "is_enabled mt" using log by (simp add: is_enabled_def)
  note start = init_starts [OF Q q init on]
  have q1: "content (log_queue mt) = [header_message now, flags_message]"
    and track: "ids_track (empty_view now) mt"
    using start(1) log ids_track_empty [OF start(3,4)] by auto
  obtain mt' bs where mt': "foldE (api_run Q) cs mt = Inr mt'"
    and content: "content (log_queue mt') = [header_message now, flags_message] @ bs" and len: "length bs = length cs"
    and read: "\<And>locs ps. stored_all locs bs \<Longrightarrow> hears d (empty_view now) ps \<Longrightarrow>
       \<exists>ps'. foldE (parse_call (Suc d)) locs ps = Inr ps' \<and> hears d v ps'"
    using conc_queue.session_refined [OF Q calls track on] q1 log
    by (auto simp: queued_def dest: list_all2_lengthD)
  have "length (content (log_queue mt')) < length ts" using enough len content by simp
  then obtain lg q lg' where run: "main_loop Q ts t (mt_logger mt') (log_queue mt') = Inr (Return, lg, q)"
    "destroy io lg = Inr lg'" and written: "f_bytes (out lg') = concat (content (log_queue mt'))"
    using log_written [OF Q q init log mt' ts t _ io] by blast
  let ?locs = "map (Pair (f_bytes (out lg'))) (offsets 0 (content (log_queue mt')))"
  have "stored_all ?locs ([header_message now, flags_message] @ bs)"
    unfolding content [symmetric] by (intro stored_all_offsets) (simp add: written stored_self)
  from stored_all_split [OF this]
  have locs: "stored_all (take 2 ?locs) [header_message now, flags_message]" "stored_all (drop 2 ?locs) bs"
    by (simp_all add: numeral_2_eq_2)
  obtain ps1 where ps1: "foldE (parse_call (Suc d)) (take 2 ?locs) new_parser = Inr ps1" "hears d (empty_view now) ps1"
    using opening_parsed [OF locs(1)] by blast
  then obtain ps where ps: "foldE (parse_call (Suc d)) (drop 2 ?locs) ps1 = Inr ps" "hears d v ps"
    using read [OF locs(2)] by blast
  have "foldE (parse_call (Suc d)) ?locs new_parser = Inr ps"
    using foldE_append [of "parse_call (Suc d)" "take 2 ?locs" "drop 2 ?locs" new_parser] ps1(1) ps(1) by simp
  then show ?thesis
    using mt' run written ps(2)
    by (intro exI [of _ mt'] exI [of _ lg] exI [of _ q] exI [of _ lg'] exI [of _ ps]) (simp add: hears_def)
qed


theorem log_file_read_back_witness:
  "\<exists>mt' lg q lg' ps. foldE (api_run list_queue) sample_calls started_mt = Inr mt' \<and>
    main_loop list_queue (replicate 6 (calm_tick [] 0)) (calm_tick [] 0) (mt_logger mt') (log_queue mt')
      = Inr (Return, lg, q) \<and> destroy \<lparr>device = None, flushes = True\<rparr> lg = Inr lg' \<and>
    f_bytes (out lg') = concat (log_queue mt') \<and>
    foldE (parse_call 1) (map (Pair (f_bytes (out lg'))) (offsets 0 (log_queue mt'))) new_parser = Inr ps \<and>
    p_state ps \<noteq> STATE_INVALID \<and> start_time ps = 5 \<and> formats_map ps = [''T'' \<mapsto> read_back ''T'' [] sample_field] \<and>
    log_calls ps = [\<lparr>ml_level = level_code Info, ml_timestamp = 9, ml_msg = ''hi''\<rparr>] \<and>
    data_calls ps = [\<lparr>md_name = ''T'', md_timestamp = 6, structured_data = [(''/a'' @ [NUL], double_of_int 7)]\<rparr>]"
proof -
  have ticks: "\<forall>t \<in> set (replicate 6 (calm_tick [] 0)). tick_ok t \<and> locks t \<and> cas_ok t \<and> arrived t = []"
    by (simp add: calm_tick_ok) (simp add: calm_tick_def)
  have "tick_ok (calm_tick [] 0)" by (simp add: calm_tick_ok)
  moreover have "length sample_calls + 2 < length (replicate 6 (calm_tick [] 0))" by (simp add: sample_calls_def)
  moreover have "v_start sample_view = 5" "v_formats sample_view = [''T'' \<mapsto> read_back ''T'' [] sample_field]"
    "v_logs sample_view = [\<lparr>ml_level = level_code Info, ml_timestamp = 9, ml_msg = ''hi''\<rparr>]"
    "v_data sample_view = [\<lparr>md_name = ''T'', md_timestamp = 6, structured_data = [(''/a'' @ [NUL], double_of_int 7)]\<rparr>]"
    by (simp_all add: sample_view_def empty_view_def)
  ultimately show ?thesis
    using log_file_read_back [OF fifo.conc_queue_axioms refl started_mt_init sample_session ticks, of "calm_tick [] 0"
        "\<lparr>device = None, flushes = True\<rparr>"]
    by (simp only: io_env.simps simp_thms One_nat_def) blast
qed

end
